(* ===== verification/Tycho_Prelude.thy ===== *)
theory Tycho_Prelude
  imports Main "HOL-Library.Word" "HOL-Library.Multiset"
begin

text \<open>
  Shared vocabulary of the development.

  \<^item> \<open>outcome\<close>: what a Rust call can do. \<open>Ok\<close> and \<open>Err\<close> are the two sides of a
    \<^verbatim>\<open>Result\<close>, \<open>Panic\<close> is a failed \<^verbatim>\<open>assert!\<close>, \<^verbatim>\<open>expect\<close>, \<^verbatim>\<open>panic!\<close> or
    \<^verbatim>\<open>unreachable!\<close>. Sequencing (\<^verbatim>\<open>?\<close> and plain statement order) is \<open>bindR\<close>.
  \<^item> bounded integers: rounds are \<^verbatim>\<open>u32\<close>, times are \<^verbatim>\<open>u64\<close>; both are naturals here and
    every operation that checks, saturates or panics at the bound says so.
  \<^item> ordered maps: \<^verbatim>\<open>BTreeMap\<close> is an association list with strictly increasing keys. Its
    contract is the locale \<open>ordered_map\<close>, interpreted on the list implementation.
  \<^item> quorums: the cardinality argument behind every two-thirds majority.
\<close>

section \<open>Collections of facts\<close>

named_theorems outcome_simps \<open>how outcomes sequence\<close>
named_theorems bound_simps \<open>unfolding of the bounded arithmetic\<close>

section \<open>Outcomes of a call\<close>

datatype ('e, 'a) outcome = Ok 'a | Err 'e | Panic

fun bindR :: "('e, 'a) outcome \<Rightarrow> ('a \<Rightarrow> ('e, 'b) outcome) \<Rightarrow> ('e, 'b) outcome" where
  "bindR (Ok x) f = f x"
| "bindR (Err e) f = Err e"
| "bindR Panic f = Panic"

fun mapR :: "('a \<Rightarrow> ('e, 'b) outcome) \<Rightarrow> 'a list \<Rightarrow> ('e, 'b list) outcome" where
  "mapR f [] = Ok []"
| "mapR f (x # xs) = bindR (f x) (\<lambda>y. bindR (mapR f xs) (\<lambda>ys. Ok (y # ys)))"

text \<open>A fold whose step may fail; the loop stops at the first failure.\<close>

fun foldR :: "('a \<Rightarrow> 's \<Rightarrow> ('e, 's) outcome) \<Rightarrow> 'a list \<Rightarrow> 's \<Rightarrow> ('e, 's) outcome" where
  "foldR f [] s = Ok s"
| "foldR f (x # xs) s = bindR (f x s) (foldR f xs)"

lemma bindR_Ok_iff [outcome_simps]:
  "bindR m f = Ok y \<longleftrightarrow> (\<exists>x. m = Ok x \<and> f x = Ok y)"
  by (cases m) auto

lemma bindR_Err_iff [outcome_simps]:
  "bindR m f = Err e \<longleftrightarrow> m = Err e \<or> (\<exists>x. m = Ok x \<and> f x = Err e)"
  by (cases m) auto

lemma bindR_Panic_iff [outcome_simps]:
  "bindR m f = Panic \<longleftrightarrow> m = Panic \<or> (\<exists>x. m = Ok x \<and> f x = Panic)"
  by (cases m) auto

lemma bindR_cong [fundef_cong]:
  "m = m' \<Longrightarrow> (\<And>x. m' = Ok x \<Longrightarrow> f x = f' x) \<Longrightarrow> bindR m f = bindR m' f'"
  by (cases m') auto

lemma bindR_assoc: "bindR (bindR m f) g = bindR m (\<lambda>x. bindR (f x) g)"
  by (cases m) auto

lemma mapR_Ok_length: "mapR f xs = Ok ys \<Longrightarrow> length ys = length xs"
  by (induction xs arbitrary: ys) (auto simp: outcome_simps)

lemma mapR_Ok_all2: "mapR f xs = Ok ys \<Longrightarrow> list_all2 (\<lambda>x y. f x = Ok y) xs ys"
  by (induction xs arbitrary: ys) (auto simp: outcome_simps)

lemma foldR_append: "foldR f (xs @ ys) s = bindR (foldR f xs s) (foldR f ys)"
  by (induction xs arbitrary: s) (auto simp: bindR_assoc intro: bindR_cong)

text \<open>An invariant kept by every successful step is kept by the loop.\<close>

lemma foldR_invariant:
  assumes "foldR f xs s = Ok t" and "I s"
    and "\<And>x u v. x \<in> set xs \<Longrightarrow> I u \<Longrightarrow> f x u = Ok v \<Longrightarrow> I v"
  shows "I t"
  using assms
proof (induction xs arbitrary: s)
  case Nil
  then show ?case by simp
next
  case (Cons x xs)
  from Cons.prems(1) obtain u where u: "f x s = Ok u" "foldR f xs u = Ok t"
    by (auto simp: outcome_simps)
  have "I u" using Cons.prems(2,3) u(1) by auto
  with u(2) Cons.prems(3) show ?case by (auto intro: Cons.IH)
qed

section \<open>Bounded integers\<close>

definition u8_max :: nat where "u8_max = 255"
definition u16_max :: nat where "u16_max = 65535"
definition u32_max :: nat where "u32_max = 4294967295"
definition u64_max :: nat where "u64_max = 18446744073709551615"

declare u8_max_def [bound_simps] u16_max_def [bound_simps]
  u32_max_def [bound_simps] u64_max_def [bound_simps]

definition sat_add :: "nat \<Rightarrow> nat \<Rightarrow> nat \<Rightarrow> nat" where
  "sat_add bound a b = min (a + b) bound"

definition checked_add :: "nat \<Rightarrow> nat \<Rightarrow> nat \<Rightarrow> nat option" where
  "checked_add bound a b = (if a + b \<le> bound then Some (a + b) else None)"

definition checked_sub :: "nat \<Rightarrow> nat \<Rightarrow> nat option" where
  "checked_sub a b = (if b \<le> a then Some (a - b) else None)"

lemma sat_add_le: "sat_add bound a b \<le> bound"
  by (simp add: sat_add_def)

lemma sat_add_exact: "a + b \<le> bound \<Longrightarrow> sat_add bound a b = a + b"
  by (simp add: sat_add_def)

section \<open>Ordered maps\<close>

type_synonym ('k, 'v) bmap = "('k \<times> 'v) list"

definition bm_get :: "('k, 'v) bmap \<Rightarrow> 'k \<Rightarrow> 'v option" where
  "bm_get m k = map_of m k"

fun bm_insert :: "'k::linorder \<Rightarrow> 'v \<Rightarrow> ('k, 'v) bmap \<Rightarrow> ('k, 'v) bmap" where
  "bm_insert k v [] = [(k, v)]"
| "bm_insert k v ((k', v') # m) =
     (if k < k' then (k, v) # (k', v') # m
      else if k = k' then (k, v) # m
      else (k', v') # bm_insert k v m)"

definition bm_remove :: "'k \<Rightarrow> ('k, 'v) bmap \<Rightarrow> ('k, 'v) bmap" where
  "bm_remove k m = filter (\<lambda>e. fst e \<noteq> k) m"

definition bm_keys :: "('k, 'v) bmap \<Rightarrow> 'k list" where
  "bm_keys m = map fst m"

definition bm_has :: "('k, 'v) bmap \<Rightarrow> 'k \<Rightarrow> bool" where
  "bm_has m k \<longleftrightarrow> k \<in> set (map fst m)"

definition bm_wf :: "('k::linorder, 'v) bmap \<Rightarrow> bool" where
  "bm_wf m \<longleftrightarrow> sorted_wrt (<) (map fst m)"

text \<open>\<^verbatim>\<open>BTreeMap::range\<close> panics when the start lies above the end.\<close>

definition bm_range :: "'k::linorder \<Rightarrow> 'k \<Rightarrow> ('k, 'v) bmap \<Rightarrow> ('e, ('k, 'v) bmap) outcome" where
  "bm_range lo hi m =
     (if hi < lo then Panic else Ok (filter (\<lambda>e. lo \<le> fst e \<and> fst e \<le> hi) m))"

lemma bm_wf_distinct: "bm_wf m \<Longrightarrow> distinct (map fst m)"
  unfolding bm_wf_def by (induction m) auto

lemma set_bm_insert_keys: "set (map fst (bm_insert k v m)) = insert k (set (map fst m))"
  by (induction k v m rule: bm_insert.induct) auto

lemma set_bm_keys_insert: "set (bm_keys (bm_insert k v m)) = insert k (set (bm_keys m))"
  unfolding bm_keys_def by (rule set_bm_insert_keys)

lemma bm_get_keys: "bm_get m k = Some v \<Longrightarrow> k \<in> set (bm_keys m)"
  unfolding bm_get_def bm_keys_def by (auto dest: map_of_SomeD intro: rev_image_eqI)

lemma bm_wf_insert: "bm_wf m \<Longrightarrow> bm_wf (bm_insert k v m)"
proof (induction k v m rule: bm_insert.induct)
  case (1 k v)
  then show ?case by (simp add: bm_wf_def)
next
  case (2 k v k' v' m)
  from 2(2) have ord: "\<forall>x\<in>set (map fst m). k' < x" and wf: "bm_wf m"
    by (auto simp: bm_wf_def)
  show ?case
  proof (cases "k < k'")
    case True
    with ord 2(2) show ?thesis by (auto simp: bm_wf_def)
  next
    case ge: False
    show ?thesis
    proof (cases "k = k'")
      case True
      with 2(2) show ?thesis by (auto simp: bm_wf_def)
    next
      case False
      with ge wf 2(1) have "bm_wf (bm_insert k v m)" by blast
      moreover have "\<forall>x\<in>set (map fst (bm_insert k v m)). k' < x"
        using ord ge False unfolding set_bm_insert_keys by auto
      ultimately show ?thesis using ge False by (auto simp: bm_wf_def)
    qed
  qed
qed

lemma bm_get_insert: "bm_wf m \<Longrightarrow> bm_get (bm_insert k v m) = (bm_get m)(k \<mapsto> v)"
proof (induction k v m rule: bm_insert.induct)
  case (1 k v)
  then show ?case by (auto simp: bm_get_def)
next
  case (2 k v k' v' m)
  from 2(2) have "bm_wf m" by (auto simp: bm_wf_def)
  with 2 show ?case by (auto simp: bm_get_def fun_eq_iff)
qed

lemma bm_wf_filter: "bm_wf m \<Longrightarrow> bm_wf (filter P m)"
  unfolding bm_wf_def by (induction m) auto

lemma bm_wf_remove: "bm_wf m \<Longrightarrow> bm_wf (bm_remove k m)"
  by (simp add: bm_remove_def bm_wf_filter)

lemma bm_get_remove: "bm_get (bm_remove k m) = (bm_get m)(k := None)"
  by (induction m) (auto simp: bm_get_def bm_remove_def fun_eq_iff)

lemma bm_has_iff: "bm_has m k \<longleftrightarrow> bm_get m k \<noteq> None"
  by (simp add: bm_has_def bm_get_def map_of_eq_None_iff)

lemma bm_get_Some_iff: "bm_wf m \<Longrightarrow> bm_get m k = Some v \<longleftrightarrow> (k, v) \<in> set m"
  by (simp add: bm_get_def bm_wf_distinct)

text \<open>
  The contract of an ordered map, as its clients use it: lookup after insertion and removal,
  and entries listed by strictly increasing key. The client lemma of the locale is the bulk
  insertion that the commit procedure performs when it merges dependency maps.
\<close>

locale ordered_map =
  fixes empty :: 'm
    and get :: "'m \<Rightarrow> 'k::linorder \<Rightarrow> 'v option"
    and ins :: "'k \<Rightarrow> 'v \<Rightarrow> 'm \<Rightarrow> 'm"
    and del :: "'k \<Rightarrow> 'm \<Rightarrow> 'm"
    and entries :: "'m \<Rightarrow> ('k \<times> 'v) list"
    and inv :: "'m \<Rightarrow> bool"
  assumes inv_empty: "inv empty"
    and inv_ins: "inv m \<Longrightarrow> inv (ins k v m)"
    and inv_del: "inv m \<Longrightarrow> inv (del k m)"
    and get_empty: "get empty k = None"
    and get_ins: "inv m \<Longrightarrow> get (ins k v m) = (get m)(k \<mapsto> v)"
    and get_del: "inv m \<Longrightarrow> get (del k m) = (get m)(k := None)"
    and entries_get: "inv m \<Longrightarrow> get m k = Some v \<longleftrightarrow> (k, v) \<in> set (entries m)"
    and entries_sorted: "inv m \<Longrightarrow> sorted_wrt (<) (map fst (entries m))"
begin

lemma inv_fold: "inv m \<Longrightarrow> inv (fold (\<lambda>e. ins (fst e) (snd e)) xs m)"
  by (induction xs arbitrary: m) (auto intro: inv_ins)

lemma get_fold:
  "inv m \<Longrightarrow> get (fold (\<lambda>e. ins (fst e) (snd e)) xs m) k =
     (case map_of (rev xs) k of None \<Rightarrow> get m k | Some v \<Rightarrow> Some v)"
proof (induction xs arbitrary: m)
  case Nil
  then show ?case by simp
next
  case (Cons x xs)
  have "inv (ins (fst x) (snd x) m)" using Cons.prems by (rule inv_ins)
  from Cons.IH[OF this] show ?case
    using Cons.prems by (cases x) (auto simp: get_ins map_add_def split: option.splits)
qed

lemma get_fold_dom:
  "inv m \<Longrightarrow> get (fold (\<lambda>e. ins (fst e) (snd e)) xs m) k \<noteq> None
     \<longleftrightarrow> get m k \<noteq> None \<or> k \<in> set (map fst xs)"
  by (subst get_fold)
     (auto split: option.splits simp: map_of_eq_None_iff dest!: map_of_SomeD intro: rev_image_eqI)

lemma entries_distinct: "inv m \<Longrightarrow> distinct (map fst (entries m))"
proof -
  assume "inv m"
  then have "sorted_wrt (<) (map fst (entries m))" by (rule entries_sorted)
  then show ?thesis by (induction "map fst (entries m)" arbitrary: m) (auto simp: strict_sorted_iff)
qed

end

interpretation bm: ordered_map "[]" bm_get bm_insert bm_remove "\<lambda>m. m" bm_wf
proof (unfold_locales, goal_cases)
  case 1 show ?case by (simp add: bm_wf_def)
next
  case 2 then show ?case by (rule bm_wf_insert)
next
  case 3 then show ?case by (rule bm_wf_remove)
next
  case 4 show ?case by (simp add: bm_get_def)
next
  case 5 then show ?case by (rule bm_get_insert)
next
  case 6 show ?case by (rule bm_get_remove)
next
  case 7 then show ?case by (rule bm_get_Some_iff)
next
  case 8 then show ?case by (simp add: bm_wf_def)
qed

section \<open>Quorums\<close>

text \<open>
  Two subsets of a finite set share at least as many members as their sizes together exceed
  the size of the set.
\<close>

lemma quorum_overlap:
  assumes "finite U" "A \<subseteq> U" "B \<subseteq> U"
  shows "card A + card B \<le> card U + card (A \<inter> B)"
proof -
  have fin: "finite A" "finite B" using assms finite_subset by blast+
  have "card A + card B = card (A \<union> B) + card (A \<inter> B)"
    using fin by (rule card_Un_Int)
  also have "card (A \<union> B) \<le> card U" using assms by (simp add: card_mono)
  finally show ?thesis by simp
qed

end
