(* ===== verification/Point_Model.thy ===== *)
theory Point_Model
  imports Tycho_Prelude
begin

text \<open>
  The data model of the mempool DAG: \<^verbatim>\<open>consensus/src/models\<close>.

  Rounds and times with their panicking and saturating arithmetic (\<^verbatim>\<open>point/parts.rs\<close>), the
  size of a validator set as \<open>3F+1\<close> (\<^verbatim>\<open>peer_count.rs\<close>), a point's body with its links to the
  last known anchor stages (\<^verbatim>\<open>point/data.rs\<close>), the point's header (\<^verbatim>\<open>point/info.rs\<close>) and the
  integrity check of received bytes (\<^verbatim>\<open>point/impl_.rs\<close>).

  The lemmas show what the structural checks buy: a point with well-formed maps links only to
  rounds at or below its own, its link destination and its next hop are defined, and any two
  majorities of one validator set share a reliable minority.
\<close>

section \<open>Identifiers\<close>

text \<open>
  Peer ids and digests are 32 bytes compared lexicographically, signatures are 64 bytes: they
  are words of that width, whose order is the order of the big-endian bytes.
\<close>

type_synonym peer_id = "256 word"
type_synonym digest = "256 word"
type_synonym signature = "512 word"
type_synonym byte = "8 word"

section \<open>Rounds and times\<close>

type_synonym round = nat
type_synonym unix_time = nat

definition round_bottom :: round where "round_bottom = 0"

definition round_prev :: "round \<Rightarrow> ('e, round) outcome" where
  "round_prev r = (case checked_sub r 1 of None \<Rightarrow> Panic | Some p \<Rightarrow> Ok p)"

definition round_next :: "round \<Rightarrow> ('e, round) outcome" where
  "round_next r = (case checked_add u32_max r 1 of None \<Rightarrow> Panic | Some n \<Rightarrow> Ok n)"

definition round_add :: "round \<Rightarrow> nat \<Rightarrow> round" where
  "round_add r n = sat_add u32_max r n"

definition round_sub :: "round \<Rightarrow> nat \<Rightarrow> round" where
  "round_sub r n = r - n"

definition time_next :: "unix_time \<Rightarrow> unix_time" where
  "time_next t = sat_add u64_max t 1"

definition time_add :: "unix_time \<Rightarrow> unix_time \<Rightarrow> unix_time" where
  "time_add a b = sat_add u64_max a b"

definition time_sub :: "unix_time \<Rightarrow> unix_time \<Rightarrow> unix_time" where
  "time_sub a b = a - b"

lemma round_prev_Ok_iff [simp]: "round_prev r = Ok p \<longleftrightarrow> r = Suc p"
  by (auto simp: round_prev_def checked_sub_def)

lemma round_prev_Suc [simp]: "round_prev (Suc p) = Ok p"
  by (simp add: round_prev_def checked_sub_def)

lemma round_prev_0 [simp]: "round_prev 0 = Panic"
  by (simp add: round_prev_def checked_sub_def)

lemma round_prev_not_Err [simp]: "round_prev r \<noteq> Err e"
  by (simp add: round_prev_def split: option.split)

lemma round_prev_Panic_iff [simp]: "round_prev r = Panic \<longleftrightarrow> r = 0"
  by (auto simp: round_prev_def checked_sub_def)

lemma round_next_Ok_iff [simp]: "round_next r = Ok n \<longleftrightarrow> n = Suc r \<and> r < u32_max"
  by (auto simp: round_next_def checked_add_def)

lemma round_next_not_Err [simp]: "round_next r \<noteq> Err e"
  by (simp add: round_next_def split: option.split)

lemma round_next_Panic_iff [simp]: "round_next r = Panic \<longleftrightarrow> u32_max \<le> r"
  by (auto simp: round_next_def checked_add_def)

lemma round_next_lt: "r < u32_max \<Longrightarrow> round_next r = Ok (Suc r)"
  by simp

section \<open>Validator set size\<close>

type_synonym peer_count = nat

definition pc_genesis :: peer_count where "pc_genesis = 0"

definition pc_max :: peer_count where "pc_max = (u8_max - 1) div 3"

definition pc_full :: "peer_count \<Rightarrow> nat" where "pc_full f = f * 3 + 1"

definition pc_majority :: "peer_count \<Rightarrow> nat" where "pc_majority f = f * 2 + 1"

definition pc_majority_of_others :: "peer_count \<Rightarrow> nat" where "pc_majority_of_others f = f * 2"

definition pc_reliable_minority :: "peer_count \<Rightarrow> nat" where "pc_reliable_minority f = f + 1"

text \<open>The error carries the rejected size; the \<^verbatim>\<open>assert!\<close> rejects what does not fit \<^verbatim>\<open>u8\<close>.\<close>

definition pc_try_from :: "nat \<Rightarrow> (nat, peer_count) outcome" where
  "pc_try_from total_peers =
     (if total_peers < 3 then Err (total_peers mod 256)
      else let one_f = (total_peers + 1) div 3; full = one_f * 3 + 1
           in if full \<le> u8_max then Ok one_f else Panic)"

declare pc_genesis_def [bound_simps] pc_max_def [bound_simps] pc_full_def [bound_simps]
  pc_majority_def [bound_simps] pc_majority_of_others_def [bound_simps]
  pc_reliable_minority_def [bound_simps]

lemma pc_try_from_Ok:
  assumes "pc_try_from n = Ok f"
  shows "3 \<le> n" "f = (n + 1) div 3" "1 \<le> f" "f \<le> pc_max" "n \<le> pc_full f" "pc_majority f \<le> n"
proof -
  from assms show n: "3 \<le> n" and f: "f = (n + 1) div 3"
    by (auto simp: pc_try_from_def Let_def split: if_splits)
  from assms have "f * 3 + 1 \<le> u8_max"
    by (auto simp: pc_try_from_def Let_def split: if_splits)
  then show "f \<le> pc_max" by (simp add: bound_simps)
  from n f show "1 \<le> f" by linarith
  from f show "n \<le> pc_full f" by (simp add: bound_simps)
  from n f show "pc_majority f \<le> n" by (simp add: bound_simps)
qed

section \<open>Point body\<close>

record point_id =
  pid_author :: peer_id
  pid_round :: round
  pid_digest :: digest

datatype through = Witness peer_id | Includes peer_id

datatype link = ToSelf | Direct through | Indirect point_id through

datatype anchor_role = Trigger | Proof

record point_data =
  pd_includes :: "(peer_id, digest) bmap"
  pd_witness :: "(peer_id, digest) bmap"
  pd_evidence :: "(peer_id, signature) bmap"
  pd_anchor_trigger :: link
  pd_anchor_proof :: link
  pd_time :: unix_time
  pd_anchor_time :: unix_time

text \<open>
  The consensus parameters are read from a key block; the fields are the ones this code uses.
\<close>

record consensus_config =
  cc_clock_skew_millis :: nat
  cc_payload_batch_bytes :: nat
  cc_payload_buffer_bytes :: nat
  cc_commit_history_rounds :: nat
  cc_deduplicate_rounds :: nat
  cc_max_consensus_lag_rounds :: nat
  cc_sync_support_rounds :: nat
  cc_download_tasks :: nat

record mempool_config =
  mc_consensus :: consensus_config
  mc_genesis_round :: round
  mc_point_max_bytes :: nat

definition pd_is_well_formed :: "point_data \<Rightarrow> round \<Rightarrow> nat \<Rightarrow> mempool_config \<Rightarrow> bool" where
  "pd_is_well_formed d round payload_len conf =
     (if round = mc_genesis_round conf then
        payload_len = 0 \<and> pd_anchor_trigger d = ToSelf \<and> pd_anchor_proof d = ToSelf
          \<and> pd_time d = pd_anchor_time d
      else
        \<not> (pd_anchor_proof d = ToSelf \<and> pd_evidence d = [])
          \<and> \<not> (pd_anchor_trigger d = ToSelf \<and> pd_evidence d = [])
          \<and> pd_anchor_time d < pd_time d)"

definition pd_anchor_link :: "point_data \<Rightarrow> anchor_role \<Rightarrow> link" where
  "pd_anchor_link d link_field =
     (case link_field of Trigger \<Rightarrow> pd_anchor_trigger d | Proof \<Rightarrow> pd_anchor_proof d)"

definition pd_is_link_well_formed :: "point_data \<Rightarrow> anchor_role \<Rightarrow> round \<Rightarrow> ('e, bool) outcome" where
  "pd_is_link_well_formed d link_field round =
     (case pd_anchor_link d link_field of
        ToSelf \<Rightarrow> Ok True
      | Direct (Includes peer) \<Rightarrow> Ok (bm_has (pd_includes d) peer)
      | Direct (Witness peer) \<Rightarrow> Ok (bm_has (pd_witness d) peer)
      | Indirect to (Includes peer) \<Rightarrow>
          if bm_has (pd_includes d) peer
          then bindR (round_next (pid_round to)) (\<lambda>n. Ok (n < round)) else Ok False
      | Indirect to (Witness peer) \<Rightarrow>
          if bm_has (pd_witness d) peer
          then bindR (round_next (pid_round to)) (\<lambda>n. bindR (round_next n) (\<lambda>m. Ok (m < round)))
          else Ok False)"

definition pd_has_well_formed_maps :: "point_data \<Rightarrow> peer_id \<Rightarrow> round \<Rightarrow> ('e, bool) outcome" where
  "pd_has_well_formed_maps d author round =
     (if (pd_evidence d = []) \<noteq> bm_has (pd_includes d) author
         \<and> \<not> bm_has (pd_evidence d) author
         \<and> \<not> bm_has (pd_witness d) author
      then bindR (pd_is_link_well_formed d Trigger round)
             (\<lambda>ok. if ok then pd_is_link_well_formed d Proof round else Ok False)
      else Ok False)"

definition pd_anchor_round :: "point_data \<Rightarrow> anchor_role \<Rightarrow> round \<Rightarrow> ('e, round) outcome" where
  "pd_anchor_round d link_field round =
     (case pd_anchor_link d link_field of
        ToSelf \<Rightarrow> Ok round
      | Direct (Includes _) \<Rightarrow> round_prev round
      | Direct (Witness _) \<Rightarrow> bindR (round_prev round) round_prev
      | Indirect to _ \<Rightarrow> Ok (pid_round to))"

text \<open>The next hop of a link: the included or witnessed point it goes through.\<close>

definition pd_link_hop ::
  "(peer_id, digest) bmap \<Rightarrow> peer_id \<Rightarrow> round \<Rightarrow> ('e, point_id option) outcome" where
  "pd_link_hop m author round =
     (case bm_get m author of
        None \<Rightarrow> Panic
      | Some dg \<Rightarrow> Ok (Some \<lparr>pid_author = author, pid_round = round, pid_digest = dg\<rparr>))"

definition pd_anchor_link_id ::
  "point_data \<Rightarrow> anchor_role \<Rightarrow> round \<Rightarrow> ('e, point_id option) outcome" where
  "pd_anchor_link_id d link_field round =
     (let through_includes = (\<lambda>peer. bindR (round_prev round) (pd_link_hop (pd_includes d) peer));
          through_witness = (\<lambda>peer. bindR (bindR (round_prev round) round_prev)
                                          (pd_link_hop (pd_witness d) peer))
      in case pd_anchor_link d link_field of
        ToSelf \<Rightarrow> Ok None
      | Direct (Includes peer) \<Rightarrow> through_includes peer
      | Indirect _ (Includes peer) \<Rightarrow> through_includes peer
      | Direct (Witness peer) \<Rightarrow> through_witness peer
      | Indirect _ (Witness peer) \<Rightarrow> through_witness peer)"

definition pd_anchor_id ::
  "point_data \<Rightarrow> anchor_role \<Rightarrow> round \<Rightarrow> ('e, point_id option) outcome" where
  "pd_anchor_id d link_field round =
     (case pd_anchor_link d link_field of
        Indirect to _ \<Rightarrow> Ok (Some to)
      | _ \<Rightarrow> pd_anchor_link_id d link_field round)"

section \<open>Point header\<close>

record point_info =
  pi_digest :: digest
  pi_signature :: signature
  pi_author :: peer_id
  pi_round :: round
  pi_payload_len :: nat
  pi_payload_bytes :: nat
  pi_data :: point_data

definition pi_includes :: "point_info \<Rightarrow> (peer_id, digest) bmap" where
  "pi_includes i = pd_includes (pi_data i)"

definition pi_witness :: "point_info \<Rightarrow> (peer_id, digest) bmap" where
  "pi_witness i = pd_witness (pi_data i)"

definition pi_evidence :: "point_info \<Rightarrow> (peer_id, signature) bmap" where
  "pi_evidence i = pd_evidence (pi_data i)"

definition pi_time :: "point_info \<Rightarrow> unix_time" where
  "pi_time i = pd_time (pi_data i)"

definition pi_anchor_time :: "point_info \<Rightarrow> unix_time" where
  "pi_anchor_time i = pd_anchor_time (pi_data i)"

definition pi_prev_digest :: "point_info \<Rightarrow> digest option" where
  "pi_prev_digest i = bm_get (pi_includes i) (pi_author i)"

definition pi_is_well_formed :: "point_info \<Rightarrow> mempool_config \<Rightarrow> bool" where
  "pi_is_well_formed i conf = pd_is_well_formed (pi_data i) (pi_round i) (pi_payload_len i) conf"

definition pi_has_well_formed_maps :: "point_info \<Rightarrow> ('e, bool) outcome" where
  "pi_has_well_formed_maps i = pd_has_well_formed_maps (pi_data i) (pi_author i) (pi_round i)"

definition pi_id :: "point_info \<Rightarrow> point_id" where
  "pi_id i = \<lparr>pid_author = pi_author i, pid_round = pi_round i, pid_digest = pi_digest i\<rparr>"

text \<open>
  The round is decremented before the missing digest is noticed, so a point of round zero
  panics here even when it has no previous point.
\<close>

definition pi_prev_id :: "point_info \<Rightarrow> ('e, point_id option) outcome" where
  "pi_prev_id i = bindR (round_prev (pi_round i)) (\<lambda>p. Ok (map_option
     (\<lambda>dg. \<lparr>pid_author = pi_author i, pid_round = p, pid_digest = dg\<rparr>) (pi_prev_digest i)))"

definition pi_anchor_link :: "point_info \<Rightarrow> anchor_role \<Rightarrow> link" where
  "pi_anchor_link i role = pd_anchor_link (pi_data i) role"

definition pi_anchor_round :: "point_info \<Rightarrow> anchor_role \<Rightarrow> ('e, round) outcome" where
  "pi_anchor_round i role = pd_anchor_round (pi_data i) role (pi_round i)"

definition pi_anchor_id :: "point_info \<Rightarrow> anchor_role \<Rightarrow> ('e, point_id) outcome" where
  "pi_anchor_id i role = bindR (pd_anchor_id (pi_data i) role (pi_round i))
     (\<lambda>res. Ok (case res of None \<Rightarrow> pi_id i | Some x \<Rightarrow> x))"

definition pi_anchor_link_id :: "point_info \<Rightarrow> anchor_role \<Rightarrow> ('e, point_id) outcome" where
  "pi_anchor_link_id i role = bindR (pd_anchor_link_id (pi_data i) role (pi_round i))
     (\<lambda>res. Ok (case res of None \<Rightarrow> pi_id i | Some x \<Rightarrow> x))"

lemmas pi_data_defs = pi_includes_def pi_witness_def pi_evidence_def pi_time_def
  pi_anchor_time_def

section \<open>Integrity of received bytes\<close>

text \<open>
  The TL reader is generated code and the signature and hash functions are libraries: they are
  the arguments \<open>raw_read\<close> (digest, signature, body bytes), \<open>raw_author\<close>, \<open>point_read\<close>,
  \<open>verifies\<close> and \<open>hash\<close>. \<open>'t\<close> is the reader's error.
\<close>

record point =
  pt_serialized :: "byte list"
  pt_info :: point_info

record point_read =
  rd_digest :: digest
  rd_signature :: signature
  rd_author :: peer_id
  rd_round :: round
  rd_payload :: "byte list list"
  rd_data :: point_data

datatype point_integrity_error = BadHash | BadSig | EvidenceSig | BadMaps

definition point_from_bytes ::
  "(byte list \<Rightarrow> ('t, point_read) outcome) \<Rightarrow> byte list \<Rightarrow> ('t, point) outcome" where
  "point_from_bytes point_read serialized =
     bindR (point_read serialized) (\<lambda>rd.
       let payload_len = min (length (rd_payload rd)) u32_max;
           payload_bytes = min (fold (\<lambda>b acc. acc + length b) (rd_payload rd) 0) u32_max
       in Ok \<lparr>pt_serialized = serialized,
              pt_info = \<lparr>pi_digest = rd_digest rd, pi_signature = rd_signature rd,
                pi_author = rd_author rd, pi_round = rd_round rd, pi_payload_len = payload_len,
                pi_payload_bytes = payload_bytes, pi_data = rd_data rd\<rparr>\<rparr>)"

definition is_evidence_ok ::
  "(signature \<Rightarrow> peer_id \<Rightarrow> digest \<Rightarrow> bool) \<Rightarrow> point_info \<Rightarrow> bool" where
  "is_evidence_ok verifies i =
     (case pi_prev_digest i of
        None \<Rightarrow> True
      | Some prev_proof \<Rightarrow> list_all (\<lambda>(peer, sig). verifies sig peer prev_proof) (pi_evidence i))"

definition point_parse ::
  "(byte list \<Rightarrow> ('t, digest \<times> signature \<times> byte list) outcome)
   \<Rightarrow> (byte list \<Rightarrow> ('t, peer_id) outcome)
   \<Rightarrow> (byte list \<Rightarrow> ('t, point_read) outcome)
   \<Rightarrow> (signature \<Rightarrow> peer_id \<Rightarrow> digest \<Rightarrow> bool) \<Rightarrow> (byte list \<Rightarrow> digest)
   \<Rightarrow> byte list \<Rightarrow> ('t, point_integrity_error + point) outcome" where
  "point_parse raw_read raw_author point_read verifies hash serialized =
     bindR (raw_read serialized) (\<lambda>(raw_digest, raw_signature, body).
     bindR (raw_author body) (\<lambda>author.
       if \<not> verifies raw_signature author raw_digest then Ok (Inl BadSig)
       else if raw_digest \<noteq> hash body then Ok (Inl BadHash)
       else bindR (point_from_bytes point_read serialized) (\<lambda>point.
         bindR (pi_has_well_formed_maps (pt_info point)) (\<lambda>ok.
           if \<not> ok then Ok (Inl BadMaps)
           else if \<not> is_evidence_ok verifies (pt_info point) then Ok (Inl EvidenceSig)
           else Ok (Inr point)))))"

section \<open>Production of a point\<close>

definition be_bytes :: "nat \<Rightarrow> 'a::len word \<Rightarrow> byte list" where
  "be_bytes n w = map (\<lambda>i. ucast (drop_bit (8 * i) w)) (rev [0..<n])"

definition digest_max_tl_bytes :: nat where "digest_max_tl_bytes = 32"
definition signature_max_tl_bytes :: nat where "signature_max_tl_bytes = 64"
definition peer_id_max_tl_bytes :: nat where "peer_id_max_tl_bytes = 32"
definition unix_time_max_tl_bytes :: nat where "unix_time_max_tl_bytes = 8"
definition point_id_max_tl_bytes :: nat where "point_id_max_tl_bytes = 68"
definition link_max_tl_bytes :: nat where "link_max_tl_bytes = 4 + point_id_max_tl_bytes + 4 + 32"

definition pd_max_byte_size :: nat where
  "pd_max_byte_size =
     (let max_possible_maps = pc_full pc_max
        * ((peer_id_max_tl_bytes + digest_max_tl_bytes)
           + (peer_id_max_tl_bytes + digest_max_tl_bytes)
           + (peer_id_max_tl_bytes + signature_max_tl_bytes))
      in 4 + max_possible_maps + 2 * link_max_tl_bytes + 2 * unix_time_max_tl_bytes)"

definition pi_max_byte_size :: nat where
  "pi_max_byte_size = 4 + digest_max_tl_bytes + signature_max_tl_bytes + peer_id_max_tl_bytes
     + (4 + 4 + 4) + pd_max_byte_size"

definition point_max_byte_size :: "(nat \<Rightarrow> nat) \<Rightarrow> consensus_config \<Rightarrow> nat" where
  "point_max_byte_size bytes_max_size_hint cfg =
     (let min_ext_msg_boc_size = 48;
          max_payload_size = bytes_max_size_hint min_ext_msg_boc_size
            * (1 + cc_payload_batch_bytes cfg div min_ext_msg_boc_size)
      in 4 + max_payload_size + pi_max_byte_size)"

text \<open>
  \<open>write_to digest signature author round payload data\<close> is the generated TL writer, \<open>sign\<close> the
  key pair's signature, \<open>public_key\<close> its public half. The digest covers everything after the
  tag, the digest and the signature; both are then copied over the zeros written first.
\<close>

definition point_new ::
  "(digest \<Rightarrow> signature \<Rightarrow> peer_id \<Rightarrow> round \<Rightarrow> byte list list \<Rightarrow> point_data \<Rightarrow> byte list)
   \<Rightarrow> (byte list \<Rightarrow> digest) \<Rightarrow> ('k \<Rightarrow> digest \<Rightarrow> signature) \<Rightarrow> ('k \<Rightarrow> peer_id)
   \<Rightarrow> 'k \<Rightarrow> peer_id \<Rightarrow> round \<Rightarrow> byte list list \<Rightarrow> point_data \<Rightarrow> ('e, point) outcome" where
  "point_new write_to hash sign public_key local_keypair author round payload data =
     (if author \<noteq> public_key local_keypair then Panic
      else
        let zeroed = write_to 0 0 author round payload data;
            body_offset = 4 + digest_max_tl_bytes + signature_max_tl_bytes
        in if length zeroed < body_offset then Panic
           else
             let digest = hash (drop body_offset zeroed);
                 signature = sign local_keypair digest;
                 serialized = take 4 zeroed @ be_bytes 32 digest @ be_bytes 64 signature
                   @ drop body_offset zeroed;
                 payload_len = min (length payload) u32_max;
                 payload_bytes = min (fold (\<lambda>b acc. acc + length b) payload 0) u32_max
             in Ok \<lparr>pt_serialized = serialized,
                  pt_info = \<lparr>pi_digest = digest, pi_signature = signature, pi_author = author,
                    pi_round = round, pi_payload_len = payload_len,
                    pi_payload_bytes = payload_bytes, pi_data = data\<rparr>\<rparr>)"

lemma length_be_bytes [simp]: "length (be_bytes n w) = n"
  by (simp add: be_bytes_def)

lemma be_bytes_inj:
  fixes v w :: "'a::len word"
  assumes "be_bytes n v = be_bytes n w" and len: "LENGTH('a) \<le> 8 * n"
  shows "v = w"
proof (rule bit_word_eqI)
  fix k assume "k < LENGTH('a)"
  with len have "k div 8 < n" by linarith
  from assms(1) have "\<And>i. i < n \<Longrightarrow> (ucast (drop_bit (8 * i) v) :: byte) = ucast (drop_bit (8 * i) w)"
    by (auto simp: be_bytes_def)
  from this [OF \<open>k div 8 < n\<close>]
  have "bit (ucast (drop_bit (8 * (k div 8)) v) :: byte) (k mod 8)
      = bit (ucast (drop_bit (8 * (k div 8)) w) :: byte) (k mod 8)" by simp
  then show "bit v k = bit w k"
    by (simp add: bit_simps)
qed

section \<open>What the structural checks buy\<close>

lemma pd_link_wf_never_err: "pd_is_link_well_formed d role r \<noteq> Err e"
  by (auto simp: pd_is_link_well_formed_def outcome_simps split: link.splits through.splits)

lemma pd_link_wf_iff:
  "pd_is_link_well_formed d role r = Ok True \<longleftrightarrow>
     (case pd_anchor_link d role of
        ToSelf \<Rightarrow> True
      | Direct (Includes p) \<Rightarrow> bm_has (pd_includes d) p
      | Direct (Witness p) \<Rightarrow> bm_has (pd_witness d) p
      | Indirect to (Includes p) \<Rightarrow>
          bm_has (pd_includes d) p \<and> pid_round to < u32_max \<and> Suc (pid_round to) < r
      | Indirect to (Witness p) \<Rightarrow>
          bm_has (pd_witness d) p \<and> Suc (pid_round to) < u32_max \<and> Suc (Suc (pid_round to)) < r)"
  by (auto simp: pd_is_link_well_formed_def outcome_simps split: link.split through.split)

lemma pd_maps_wf_iff:
  "pd_has_well_formed_maps d author r = (Ok True :: ('e, bool) outcome) \<longleftrightarrow>
     (pd_evidence d = []) \<noteq> bm_has (pd_includes d) author \<and> \<not> bm_has (pd_evidence d) author
     \<and> \<not> bm_has (pd_witness d) author
     \<and> (\<forall>role. pd_is_link_well_formed d role r = (Ok True :: (unit, bool) outcome))"
proof -
  have all: "(\<forall>role. P role) \<longleftrightarrow> P Trigger \<and> P Proof" for P :: "anchor_role \<Rightarrow> bool"
    by (metis anchor_role.exhaust)
  have link: "pd_is_link_well_formed d role r = (Ok True :: ('e, bool) outcome)
      \<longleftrightarrow> pd_is_link_well_formed d role r = (Ok True :: (unit, bool) outcome)" for role
    by (simp only: pd_link_wf_iff)
  show ?thesis
    unfolding all link [symmetric] by (auto simp: pd_has_well_formed_maps_def outcome_simps)
qed

lemma pd_maps_wf_link:
  assumes "pd_has_well_formed_maps d author r = Ok True"
  shows "pd_is_link_well_formed d role r = Ok True"
  using assms unfolding pd_maps_wf_iff by (simp add: pd_link_wf_iff)

text \<open>The destination and the next hop of a well-formed link, case by case.\<close>

lemma pd_link_wf_cases:
  assumes "pd_is_link_well_formed d role r = Ok True"
  obtains (self) "pd_anchor_link d role = ToSelf"
  | (inc) p dg where "pd_anchor_link d role = Direct (Includes p)" "bm_get (pd_includes d) p = Some dg"
  | (wit) p dg where "pd_anchor_link d role = Direct (Witness p)" "bm_get (pd_witness d) p = Some dg"
  | (far_inc) p dg to where "pd_anchor_link d role = Indirect to (Includes p)"
      "bm_get (pd_includes d) p = Some dg" "Suc (pid_round to) < r"
  | (far_wit) p dg to where "pd_anchor_link d role = Indirect to (Witness p)"
      "bm_get (pd_witness d) p = Some dg" "Suc (Suc (pid_round to)) < r"
  using assms that unfolding pd_link_wf_iff
  by (cases "pd_anchor_link d role") (auto simp: bm_has_iff split: through.splits)

lemmas link_defs = pd_anchor_round_def pd_anchor_id_def pd_anchor_link_id_def pd_link_hop_def

lemma pd_link_wf_defined:
  assumes "pd_is_link_well_formed d role (Suc (Suc k)) = (Ok True :: ('e, bool) outcome)"
  obtains (self) "pd_anchor_link d role = ToSelf"
      "pd_anchor_round d role (Suc (Suc k)) = (Ok (Suc (Suc k)) :: ('e, round) outcome)"
      "pd_anchor_id d role (Suc (Suc k)) = (Ok None :: ('e, point_id option) outcome)"
      "pd_anchor_link_id d role (Suc (Suc k)) = (Ok None :: ('e, point_id option) outcome)"
  | (other) to hop where "pd_anchor_link d role \<noteq> ToSelf"
      "pd_anchor_round d role (Suc (Suc k)) = (Ok (pid_round to) :: ('e, round) outcome)"
      "pd_anchor_id d role (Suc (Suc k)) = (Ok (Some to) :: ('e, point_id option) outcome)"
      "pd_anchor_link_id d role (Suc (Suc k)) = (Ok (Some hop) :: ('e, point_id option) outcome)"
      "pid_round to \<le> pid_round hop"
      "(pid_round hop = Suc k \<and> bm_get (pd_includes d) (pid_author hop) = Some (pid_digest hop))
       \<or> (pid_round hop = k \<and> bm_get (pd_witness d) (pid_author hop) = Some (pid_digest hop))"
      "to = hop \<or> pid_round to < pid_round hop"
  using assms
proof (cases rule: pd_link_wf_cases)
  case self
  then show thesis
    by (intro that(1)) (simp_all add: pd_anchor_round_def pd_anchor_id_def pd_anchor_link_id_def)
next
  case (inc p dg)
  then show thesis
    by (intro that(2)[of "\<lparr>pid_author = p, pid_round = Suc k, pid_digest = dg\<rparr>"
          "\<lparr>pid_author = p, pid_round = Suc k, pid_digest = dg\<rparr>"]) (simp_all add: link_defs)
next
  case (wit p dg)
  then show thesis
    by (intro that(2)[of "\<lparr>pid_author = p, pid_round = k, pid_digest = dg\<rparr>"
          "\<lparr>pid_author = p, pid_round = k, pid_digest = dg\<rparr>"]) (simp_all add: link_defs)
next
  case (far_inc p dg to)
  then show thesis
    by (intro that(2)[of to "\<lparr>pid_author = p, pid_round = Suc k, pid_digest = dg\<rparr>"])
      (simp_all add: link_defs)
next
  case (far_wit p dg to)
  then show thesis
    by (intro that(2)[of to "\<lparr>pid_author = p, pid_round = k, pid_digest = dg\<rparr>"])
      (simp_all add: link_defs)
qed

lemma pi_maps_wf_link:
  "pi_has_well_formed_maps i = (Ok True :: ('e, bool) outcome) \<Longrightarrow>
   pd_is_link_well_formed (pi_data i) role (pi_round i) = (Ok True :: ('e, bool) outcome)"
  unfolding pi_has_well_formed_maps_def by (rule pd_maps_wf_link)

lemma pi_links_defined:
  assumes "pi_has_well_formed_maps i = (Ok True :: (unit, bool) outcome)" "2 \<le> pi_round i"
  obtains to hop where "pi_anchor_id i role = (Ok to :: (unit, point_id) outcome)"
    "pi_anchor_link_id i role = (Ok hop :: (unit, point_id) outcome)"
    "pi_anchor_round i role = (Ok (pid_round to) :: (unit, round) outcome)"
    "pid_round to \<le> pi_round i"
    "pi_anchor_link i role = ToSelf \<and> to = pi_id i
     \<or> pi_anchor_link i role \<noteq> ToSelf \<and> pid_round to < pi_round i"
proof -
  from assms(2) have "pi_round i = Suc (Suc (pi_round i - 2))" by simp
  then obtain k where k: "pi_round i = Suc (Suc k)" ..
  from pi_maps_wf_link [OF assms(1), of role, unfolded k] show thesis
    by (cases rule: pd_link_wf_defined)
      (auto intro!: that simp: pi_anchor_id_def pi_anchor_link_id_def pi_anchor_round_def
        pi_anchor_link_def pi_id_def k)
qed

lemma point_parse_Ok_iff:
  "point_parse raw_read raw_author point_read verifies hash bytes = Ok (Inr p) \<longleftrightarrow>
     (\<exists>dg sig body author. raw_read bytes = Ok (dg, sig, body) \<and> raw_author body = Ok author
        \<and> verifies sig author dg \<and> dg = hash body
        \<and> point_from_bytes point_read bytes = Ok p
        \<and> pi_has_well_formed_maps (pt_info p) = (Ok True :: ('t, bool) outcome)
        \<and> is_evidence_ok verifies (pt_info p))" (is "_ \<longleftrightarrow> ?R")
  for raw_read :: "byte list \<Rightarrow> ('t, digest \<times> signature \<times> byte list) outcome"
proof
  assume "point_parse raw_read raw_author point_read verifies hash bytes = Ok (Inr p)"
  then show "?R" by (fastforce simp: point_parse_def outcome_simps split: if_splits)
qed (auto simp: point_parse_def)

text \<open>
  C23. The links of a parsed point lead back: when the maps of a point above round 1 pass the
  structural check, the link destination, its round and the next hop towards it are all defined
  (none of the accessors panics), the three agree, the hop is one of the point's own
  dependencies (or the point itself), and the destination is never above the hop.
\<close>

theorem links_lead_back:
  assumes wf: "pi_has_well_formed_maps i = (Ok True :: ('e, bool) outcome)"
    and r: "2 \<le> pi_round i"
  shows "\<exists>to hop. pi_anchor_id i role = (Ok to :: ('e, point_id) outcome)
     \<and> pi_anchor_link_id i role = (Ok hop :: ('e, point_id) outcome)
     \<and> pi_anchor_round i role = (Ok (pid_round to) :: ('e, round) outcome)
     \<and> (to = hop \<or> pid_round to < pid_round hop)
     \<and> (hop = pi_id i \<longleftrightarrow> pi_anchor_link i role = ToSelf)
     \<and> (hop = pi_id i
        \<or> (pid_round hop = pi_round i - 1
           \<and> bm_get (pi_includes i) (pid_author hop) = Some (pid_digest hop))
        \<or> (pid_round hop = pi_round i - 2
           \<and> bm_get (pi_witness i) (pid_author hop) = Some (pid_digest hop)))"
proof -
  from r obtain k where k: "pi_round i = Suc (Suc k)"
    by (metis Suc_le_D numeral_2_eq_2 Suc_le_mono)
  note link = pi_maps_wf_link [OF wf, of role, unfolded k]
  then show ?thesis
  proof (cases rule: pd_link_wf_defined)
    case self
    then show ?thesis
      by (simp add: pi_anchor_id_def pi_anchor_link_id_def pi_anchor_round_def pi_anchor_link_def
          pi_id_def k)
  next
    case (other to hop)
    moreover from other(6) have "hop \<noteq> pi_id i" by (auto simp: pi_id_def k)
    ultimately show ?thesis
      by (intro exI [of _ to] exI [of _ hop])
        (simp add: pi_anchor_id_def pi_anchor_link_id_def pi_anchor_round_def pi_anchor_link_def
          pi_data_defs k)
  qed
qed

text \<open>A point of round 6 with a direct and an indirect anchor link, for the examples below.\<close>

definition ex_info :: point_info where
  "ex_info = \<lparr>pi_digest = 60, pi_signature = 0, pi_author = 1, pi_round = 6, pi_payload_len = 0,
     pi_payload_bytes = 0,
     pi_data = \<lparr>pd_includes = [(1, 51), (2, 52), (3, 53)], pd_witness = [(4, 44)],
       pd_evidence = [(2, 0), (3, 0)], pd_anchor_trigger = Direct (Includes 2),
       pd_anchor_proof = Indirect \<lparr>pid_author = 9, pid_round = 2, pid_digest = 29\<rparr> (Witness 4),
       pd_time = 100, pd_anchor_time = 50\<rparr>\<rparr>"

lemma ex_info_wf: "pi_has_well_formed_maps ex_info = Ok True" "pi_round ex_info = 6"
  by (simp_all add: ex_info_def pi_has_well_formed_maps_def pd_maps_wf_iff pd_link_wf_iff
      pd_anchor_link_def bm_has_def u32_max_def split: anchor_role.split)

theorem links_lead_back_witness:
  "\<exists>to hop. pi_anchor_id ex_info Proof = (Ok to :: (unit, point_id) outcome)
     \<and> pi_anchor_link_id ex_info Proof = (Ok hop :: (unit, point_id) outcome)
     \<and> pi_anchor_round ex_info Proof = (Ok (pid_round to) :: (unit, round) outcome)
     \<and> (to = hop \<or> pid_round to < pid_round hop)"
  using links_lead_back [where ?'e = unit, OF ex_info_wf(1), of Proof] ex_info_wf(2) by auto

end
