(* ===== verification/Point_Status.thy ===== *)
theory Point_Status
  imports Point_Model
begin

text \<open>
  What the node remembers about a point: \<^verbatim>\<open>consensus/src/models/point_status.rs\<close> (the statuses
  and their bytes) and \<^verbatim>\<open>storage/src/store/mempool/point_status.rs\<close> (the database merge of
  status bytes).

  Encoding and decoding are inverse on every status with a non-zero commit round. The merge
  keeps the fact that a point was validated, but looks at validated operands in pairs: a third
  one is dropped.
\<close>

unbundle bit_operations_syntax

section \<open>Statuses\<close>

record status_validated =
  sv_is_valid :: bool
  sv_is_first_valid :: bool
  sv_is_first_resolved :: bool
  sv_is_certified :: bool
  sv_anchor_flags :: byte
  sv_committed_at_round :: "nat option"

record status_ill_formed =
  si_is_first_resolved :: bool
  si_is_certified :: bool

record status_not_found =
  sn_is_first_resolved :: bool
  sn_is_certified :: bool
  sn_author :: peer_id

datatype status_stored =
    StExists
  | StValidated status_validated
  | StIllFormed status_ill_formed
  | StNotFound status_not_found

definition sv_default :: status_validated where
  "sv_default = \<lparr>sv_is_valid = False, sv_is_first_valid = False, sv_is_first_resolved = False,
     sv_is_certified = False, sv_anchor_flags = 0, sv_committed_at_round = None\<rparr>"

definition si_default :: status_ill_formed where
  "si_default = \<lparr>si_is_first_resolved = False, si_is_certified = False\<rparr>"

text \<open>The \<^verbatim>\<open>PointStatus\<close> trait: what the DAG location asks of a status and sets in it.\<close>

fun ps_is_valid :: "status_stored \<Rightarrow> bool" where
  "ps_is_valid (StValidated s) = sv_is_valid s"
| "ps_is_valid _ = False"

fun ps_is_first_valid :: "status_stored \<Rightarrow> bool" where
  "ps_is_first_valid (StValidated s) = sv_is_first_valid s"
| "ps_is_first_valid _ = False"

fun ps_is_first_resolved :: "status_stored \<Rightarrow> bool" where
  "ps_is_first_resolved StExists = False"
| "ps_is_first_resolved (StValidated s) = sv_is_first_resolved s"
| "ps_is_first_resolved (StIllFormed s) = si_is_first_resolved s"
| "ps_is_first_resolved (StNotFound s) = sn_is_first_resolved s"

fun ps_set_first_valid :: "status_stored \<Rightarrow> status_stored" where
  "ps_set_first_valid (StValidated s) = StValidated (s\<lparr>sv_is_first_valid := True\<rparr>)"
| "ps_set_first_valid st = st"

fun ps_set_first_resolved :: "status_stored \<Rightarrow> status_stored" where
  "ps_set_first_resolved StExists = StExists"
| "ps_set_first_resolved (StValidated s) = StValidated (s\<lparr>sv_is_first_resolved := True\<rparr>)"
| "ps_set_first_resolved (StIllFormed s) = StIllFormed (s\<lparr>si_is_first_resolved := True\<rparr>)"
| "ps_set_first_resolved (StNotFound s) = StNotFound (s\<lparr>sn_is_first_resolved := True\<rparr>)"

section \<open>Restore order\<close>

datatype point_restore =
    ReExists point_info
  | ReValidated point_info status_validated
  | ReIllFormed point_id status_ill_formed
  | ReNotFound round digest status_not_found

fun re_status :: "point_restore \<Rightarrow> status_stored" where
  "re_status (ReExists _) = StExists"
| "re_status (ReValidated _ s) = StValidated s"
| "re_status (ReIllFormed _ s) = StIllFormed s"
| "re_status (ReNotFound _ _ s) = StNotFound s"

definition bit_if :: "bool \<Rightarrow> byte \<Rightarrow> byte" where
  "bit_if b m = (if b then m else 0)"

definition order_desc :: "status_stored \<Rightarrow> byte" where
  "order_desc st = 1 OR push_bit 7 (bit_if (ps_is_first_resolved st) 1)
     OR push_bit 6 (bit_if (ps_is_first_valid st) 1) OR push_bit 5 (bit_if (ps_is_valid st) 1)"

definition restore_order_asc :: "point_restore \<Rightarrow> byte" where
  "restore_order_asc p =
     NOT (case p of ReExists _ \<Rightarrow> 0 | _ \<Rightarrow> order_desc (re_status p))"

fun re_round :: "point_restore \<Rightarrow> round" where
  "re_round (ReExists info) = pi_round info"
| "re_round (ReValidated info _) = pi_round info"
| "re_round (ReIllFormed pid _) = pid_round pid"
| "re_round (ReNotFound round _ _) = round"

fun re_author :: "point_restore \<Rightarrow> peer_id" where
  "re_author (ReExists info) = pi_author info"
| "re_author (ReValidated info _) = pi_author info"
| "re_author (ReIllFormed pid _) = pid_author pid"
| "re_author (ReNotFound _ _ status) = sn_author status"

fun re_digest :: "point_restore \<Rightarrow> digest" where
  "re_digest (ReExists info) = pi_digest info"
| "re_digest (ReValidated info _) = pi_digest info"
| "re_digest (ReIllFormed pid _) = pid_digest pid"
| "re_digest (ReNotFound _ dg _) = dg"

definition re_id :: "point_restore \<Rightarrow> point_id" where
  "re_id p = \<lparr>pid_author = re_author p, pid_round = re_round p, pid_digest = re_digest p\<rparr>"

section \<open>Bytes\<close>

definition fl_found :: byte where "fl_found = 128"
definition fl_well_formed :: byte where "fl_well_formed = 64"
definition fl_valid :: byte where "fl_valid = 32"
definition fl_first_valid :: byte where "fl_first_valid = 16"
definition fl_first_resolved :: byte where "fl_first_resolved = 8"
definition fl_certified :: byte where "fl_certified = 4"

definition fl_contains :: "byte \<Rightarrow> byte \<Rightarrow> bool" where
  "fl_contains flags m \<longleftrightarrow> flags AND m = m"

definition validated_bytes :: nat where "validated_bytes = 1 + 1 + 4"
definition ill_formed_bytes :: nat where "ill_formed_bytes = 1"
definition not_found_bytes :: nat where "not_found_bytes = 1 + 32"

definition be_nat :: "byte list \<Rightarrow> nat" where
  "be_nat bs = fold (\<lambda>b acc. acc * 256 + unat b) bs 0"

definition u32_be :: "nat \<Rightarrow> byte list" where
  "u32_be n = be_bytes 4 (word_of_nat n :: 32 word)"

definition sv_encode :: "status_validated \<Rightarrow> byte list" where
  "sv_encode s = [fl_found OR fl_well_formed OR bit_if (sv_is_valid s) fl_valid
      OR bit_if (sv_is_first_valid s) fl_first_valid
      OR bit_if (sv_is_first_resolved s) fl_first_resolved
      OR bit_if (sv_is_certified s) fl_certified, sv_anchor_flags s]
    @ u32_be (case sv_committed_at_round s of None \<Rightarrow> 0 | Some r \<Rightarrow> r)"

definition si_encode :: "status_ill_formed \<Rightarrow> byte list" where
  "si_encode s = [fl_found OR bit_if (si_is_first_resolved s) fl_first_resolved
      OR bit_if (si_is_certified s) fl_certified]"

definition sn_encode :: "status_not_found \<Rightarrow> byte list" where
  "sn_encode s = [bit_if (sn_is_first_resolved s) fl_first_resolved
      OR bit_if (sn_is_certified s) fl_certified] @ be_bytes 32 (sn_author s)"

fun status_encode :: "status_stored \<Rightarrow> byte list" where
  "status_encode StExists = []"
| "status_encode (StValidated s) = sv_encode s"
| "status_encode (StIllFormed s) = si_encode s"
| "status_encode (StNotFound s) = sn_encode s"

text \<open>The error carries the unexpected length and the flags.\<close>

definition try_from_stored :: "byte list \<Rightarrow> (nat \<times> byte, byte option) outcome" where
  "try_from_stored value =
     (case value of
        [] \<Rightarrow> Ok None
      | flags # _ \<Rightarrow>
          let len = length value;
              is_ok = (if \<not> fl_contains flags fl_found then len = not_found_bytes
                       else if \<not> fl_contains flags fl_well_formed then len = ill_formed_bytes
                       else len = validated_bytes)
          in if is_ok then Ok (Some flags) else Err (len, flags))"

definition status_decode :: "byte list \<Rightarrow> (nat \<times> byte, status_stored) outcome" where
  "status_decode stored =
     bindR (try_from_stored stored) (\<lambda>res. case res of
        None \<Rightarrow> Ok StExists
      | Some flags \<Rightarrow>
          if fl_contains flags fl_found then
            if fl_contains flags fl_well_formed then
              let committed_at = be_nat (drop 2 stored)
              in Ok (StValidated \<lparr>sv_is_valid = fl_contains flags fl_valid,
                   sv_is_first_valid = fl_contains flags fl_first_valid,
                   sv_is_first_resolved = fl_contains flags fl_first_resolved,
                   sv_is_certified = fl_contains flags fl_certified,
                   sv_anchor_flags = stored ! 1,
                   sv_committed_at_round = (if committed_at = 0 then None else Some committed_at)\<rparr>)
            else Ok (StIllFormed \<lparr>si_is_first_resolved = fl_contains flags fl_first_resolved,
                   si_is_certified = fl_contains flags fl_certified\<rparr>)
          else Ok (StNotFound \<lparr>sn_is_first_resolved = fl_contains flags fl_first_resolved,
                 sn_is_certified = fl_contains flags fl_certified,
                 sn_author = word_of_nat (be_nat (drop 1 stored))\<rparr>))"

section \<open>Merge of stored bytes\<close>

definition none_if_err_or_empty :: "byte list \<Rightarrow> byte option" where
  "none_if_err_or_empty value = (case try_from_stored value of Ok res \<Rightarrow> res | _ \<Rightarrow> None)"

fun bytes_le :: "byte list \<Rightarrow> byte list \<Rightarrow> bool" where
  "bytes_le [] _ = True"
| "bytes_le (_ # _) [] = False"
| "bytes_le (a # as) (b # bs) = (a < b \<or> a = b \<and> bytes_le as bs)"

text \<open>The merge's local accumulators besides the operand it carries.\<close>

record merge_acc =
  ma_valted_status :: byte
  ma_valted_anchor :: byte
  ma_committed_round :: nat

definition merge_step :: "byte list \<Rightarrow> byte list \<times> merge_acc \<Rightarrow> byte list \<times> merge_acc" where
  "merge_step b st =
     (case st of (a, acc) \<Rightarrow>
        (case none_if_err_or_empty a of
           None \<Rightarrow> (b, acc)
         | Some a_flags \<Rightarrow>
             (case none_if_err_or_empty b of
                None \<Rightarrow> (a, acc)
              | Some b_flags \<Rightarrow>
                  if fl_contains a_flags fl_found \<and> \<not> fl_contains b_flags fl_found then (a, acc)
                  else if \<not> fl_contains a_flags fl_found \<and> fl_contains b_flags fl_found then (b, acc)
                  else if \<not> fl_contains a_flags fl_found \<and> \<not> fl_contains b_flags fl_found then
                    (if bytes_le a b then b else a, acc)
                  else if \<not> fl_contains b_flags fl_well_formed then (a, acc)
                  else if \<not> fl_contains a_flags fl_well_formed then (b, acc)
                  else ([], \<lparr>ma_valted_status = max (max (ma_valted_status acc) (a ! 0)) (b ! 0),
                        ma_valted_anchor = max (max (ma_valted_anchor acc) (a ! 1)) (b ! 1),
                        ma_committed_round = max (max (ma_committed_round acc) (be_nat (drop 2 a)))
                          (be_nat (drop 2 b))\<rparr>))))"

definition status_merge :: "byte list option \<Rightarrow> byte list list \<Rightarrow> byte list option" where
  "status_merge stored new_status_queue =
     (case (case stored of None \<Rightarrow> [] | Some s \<Rightarrow> [s]) @ new_status_queue of
        [] \<Rightarrow> None
      | first # rest \<Rightarrow>
          (case fold merge_step rest (first, \<lparr>ma_valted_status = 0, ma_valted_anchor = 0,
                                              ma_committed_round = 0\<rparr>) of
             (c, acc) \<Rightarrow>
               Some (if ma_valted_status acc > 0
                     then [ma_valted_status acc, ma_valted_anchor acc]
                            @ u32_be (ma_committed_round acc)
                     else c)))"

section \<open>Round trip\<close>

lemma be_nat_from: "fold (\<lambda>b acc. acc * 256 + unat b) bs n = n * 256 ^ length bs + be_nat bs"
  for bs :: "byte list"
proof (induction bs arbitrary: n)
  case Nil
  show ?case by (simp add: be_nat_def)
next
  case (Cons b bs)
  have "be_nat (b # bs) = unat b * 256 ^ length bs + be_nat bs"
    using Cons.IH [of "unat b"] by (simp add: be_nat_def)
  with Cons.IH [of "n * 256 + unat b"] show ?case by (simp add: algebra_simps)
qed

lemma be_nat_Cons: "be_nat (b # bs) = unat b * 256 ^ length bs + be_nat bs"
  using be_nat_from [of bs "unat b"] by (simp add: be_nat_def)

lemma be_nat_less: "be_nat bs < 256 ^ length bs"
proof (induction bs)
  case (Cons b bs)
  have "unat b < 256" using unsigned_less [of b, where ?'a = nat] by simp
  then have "unat b * 256 ^ length bs + be_nat bs < Suc (unat b) * 256 ^ length bs"
    using Cons by simp
  also have "\<dots> \<le> 256 * 256 ^ length bs" using \<open>unat b < 256\<close> by (intro mult_le_mono1) simp
  finally show ?case by (simp add: be_nat_Cons)
qed (simp add: be_nat_def)

lemma unat_byte_of: "unat (ucast (drop_bit k w) :: byte) = (unat w div 2 ^ k) mod 256"
  for w :: "'a::len word"
proof -
  have "unat (drop_bit k w) = drop_bit k (unat w)"
    using take_bit_nat_eq_self [OF unsigned_less [of w, where ?'a = nat]]
    by (simp add: unsigned_drop_bit_eq)
  then show ?thesis by (simp add: unsigned_ucast_eq take_bit_eq_mod drop_bit_eq_div [of k "unat w"])
qed

lemma be_bytes_Suc: "be_bytes (Suc n) w = ucast (drop_bit (8 * n) w) # be_bytes n w"
  by (simp add: be_bytes_def)

lemma be_nat_be_bytes: "be_nat (be_bytes n w) = unat w mod 256 ^ n" for w :: "'a::len word"
proof (induction n)
  case 0
  show ?case by (simp add: be_bytes_def be_nat_def)
next
  case (Suc n)
  have pow: "(2::nat) ^ (n * 8) = 256 ^ n" by (simp add: power_mult mult.commute [of n])
  have "unat w mod (256 ^ n * 256) = 256 ^ n * (unat w div 256 ^ n mod 256) + unat w mod 256 ^ n"
    by (rule mod_mult2_eq)
  with Suc show ?case
    by (simp add: be_bytes_Suc be_nat_Cons unat_byte_of pow mult.commute)
qed

lemma be_nat_u32: "n < 2 ^ 32 \<Longrightarrow> be_nat (u32_be n) = n"
  by (simp add: u32_be_def be_nat_be_bytes unat_of_nat)

lemma length_u32_be [simp]: "length (u32_be n) = 4"
  by (simp add: u32_be_def)

lemma author_roundtrip: "word_of_nat (be_nat (be_bytes 32 (a :: peer_id))) = a"
proof -
  have "unat a < 2 ^ 256" using unsigned_less [of a, where ?'a = nat] by simp
  then show ?thesis by (simp add: be_nat_be_bytes)
qed

lemmas flag_defs = fl_found_def fl_well_formed_def fl_valid_def fl_first_valid_def
  fl_first_resolved_def fl_certified_def fl_contains_def bit_if_def

text \<open>
  C24. Statuses survive the database: decoding the bytes of a status gives that status back, for
  every status of a point (the code stores "not committed" as the impossible commit round 0).
\<close>

theorem status_roundtrip:
  assumes "\<forall>s r. st = StValidated s \<and> sv_committed_at_round s = Some r \<longrightarrow> 0 < r \<and> r \<le> u32_max"
  shows "status_decode (status_encode st) = Ok st"
proof (cases st)
  case (StValidated s)
  obtain r where r: "(case sv_committed_at_round s of None \<Rightarrow> 0 | Some r \<Rightarrow> r) = r" "r < 2 ^ 32"
      "sv_committed_at_round s = (if r = 0 then None else Some r)"
    using assms StValidated by (cases "sv_committed_at_round s") (auto simp: u32_max_def)
  then show ?thesis
    using StValidated
    by (cases s)
      (auto simp: status_decode_def try_from_stored_def sv_encode_def be_nat_u32 flag_defs
        validated_bytes_def)
next
  case (StNotFound s)
  then show ?thesis
    by (cases s)
      (auto simp: status_decode_def try_from_stored_def sn_encode_def author_roundtrip flag_defs
        not_found_bytes_def)
qed (auto simp: status_decode_def try_from_stored_def si_encode_def flag_defs ill_formed_bytes_def)

section \<open>What the merge keeps\<close>

definition is_validated :: "byte list \<Rightarrow> bool" where
  "is_validated v \<longleftrightarrow> (\<exists>flags. try_from_stored v = Ok (Some flags)
     \<and> fl_contains flags fl_found \<and> fl_contains flags fl_well_formed)"

lemma is_validatedE:
  assumes "is_validated v"
  obtains flags where "none_if_err_or_empty v = Some flags" "fl_contains flags fl_found"
    "fl_contains flags fl_well_formed" "length v = 6" "v ! 0 = flags"
  using assms
  by (auto simp: is_validated_def none_if_err_or_empty_def try_from_stored_def Let_def
      validated_bytes_def split: list.splits if_splits)

lemma validated_pos: "fl_contains flags fl_found \<Longrightarrow> 0 < flags" for flags :: byte
  by (auto simp: fl_contains_def fl_found_def word_gt_0)

definition merge_ok :: "byte list \<times> merge_acc \<Rightarrow> bool" where
  "merge_ok st \<longleftrightarrow> is_validated (fst st) \<or> 0 < ma_valted_status (snd st)"

lemma merge_step_validated:
  assumes "merge_ok st \<or> is_validated b"
  shows "merge_ok (merge_step b st)"
proof -
  obtain a acc where st: "st = (a, acc)" by fastforce
  consider (both) "is_validated a" "is_validated b" | (left) "is_validated a" "\<not> is_validated b"
    | (right) "\<not> is_validated a" "is_validated b"
    | (old) "\<not> is_validated a" "\<not> is_validated b" "0 < ma_valted_status acc"
    using assms by (auto simp: merge_ok_def st)
  then show ?thesis
  proof cases
    case both
    then obtain fa fb where "none_if_err_or_empty a = Some fa" "fl_contains fa fl_found"
      "fl_contains fa fl_well_formed" "a ! 0 = fa" "none_if_err_or_empty b = Some fb"
      "fl_contains fb fl_found" "fl_contains fb fl_well_formed"
      by (elim is_validatedE) blast
    with validated_pos [of fa] show ?thesis
      by (auto simp: st merge_ok_def merge_step_def max_def)
  next
    case left
    then obtain fa where "none_if_err_or_empty a = Some fa" "fl_contains fa fl_found"
      "fl_contains fa fl_well_formed" by (elim is_validatedE) blast
    with left show ?thesis
      by (auto simp: st merge_ok_def merge_step_def is_validated_def none_if_err_or_empty_def
          split: option.splits outcome.splits)
  next
    case right
    then obtain fb where "none_if_err_or_empty b = Some fb" "fl_contains fb fl_found"
      "fl_contains fb fl_well_formed" by (elim is_validatedE) blast
    with right show ?thesis
      by (auto simp: st merge_ok_def merge_step_def is_validated_def none_if_err_or_empty_def
          split: option.splits outcome.splits)
  next
    case old
    then show ?thesis
      by (auto simp: st merge_ok_def merge_step_def max_def split: option.splits)
  qed
qed

lemma merge_fold_validated:
  "merge_ok st \<or> (\<exists>b \<in> set bs. is_validated b) \<Longrightarrow> merge_ok (fold merge_step bs st)"
proof (induction bs arbitrary: st)
  case (Cons b bs)
  then have "merge_ok (merge_step b st) \<or> (\<exists>x \<in> set bs. is_validated x)"
    using merge_step_validated [of st b] by auto
  from Cons.IH [OF this] show ?case by simp
qed simp

lemma fl_contains_bit: "fl_contains f (2 ^ n) \<longleftrightarrow> bit f n" if "n < 8" for f :: byte
proof
  assume "fl_contains f (2 ^ n)"
  then have "bit (f AND 2 ^ n) n = bit (2 ^ n :: byte) n" by (simp add: fl_contains_def)
  with that show "bit f n" by (simp add: bit_and_iff bit_exp_iff)
next
  assume "bit f n"
  then show "fl_contains f (2 ^ n)"
    unfolding fl_contains_def by (intro bit_word_eqI) (auto simp: bit_and_iff bit_exp_iff)
qed

lemma fl_top_bits: "fl_contains f fl_found \<and> fl_contains f fl_well_formed \<longleftrightarrow> 192 \<le> unat f"
proof -
  have "fl_contains f fl_found = bit f 7" "fl_contains f fl_well_formed = bit f 6"
    using fl_contains_bit [of 7 f] fl_contains_bit [of 6 f]
    by (simp_all add: fl_found_def fl_well_formed_def)
  moreover have "bit f k = odd (unat f div 2 ^ k)" if "k < 8" for k
    using bit_unsigned_iff [where ?'a = nat, of f k] that by (simp add: bit_iff_odd)
  moreover have "odd (unat f div 2 ^ 7) \<and> odd (unat f div 2 ^ 6) \<longleftrightarrow> 192 \<le> unat f"
  proof -
    define q where "q = unat f div 64"
    have "unat f < 256" using unsigned_less [of f, where ?'a = nat] by simp
    then have "q < 4" and iff: "192 \<le> unat f \<longleftrightarrow> 3 \<le> q" unfolding q_def by linarith+
    have half: "unat f div 128 = q div 2" by (simp add: q_def div_mult2_eq [symmetric])
    from \<open>q < 4\<close> have "q = 0 \<or> q = 1 \<or> q = 2 \<or> q = 3" by linarith
    then have "odd (q div 2) \<and> odd q \<longleftrightarrow> 3 \<le> q" by auto
    then show ?thesis by (simp add: half iff q_def [symmetric])
  qed
  ultimately show ?thesis by simp
qed

definition acc_ok :: "merge_acc \<Rightarrow> bool" where
  "acc_ok acc \<longleftrightarrow> ma_valted_status acc = 0 \<or> 192 \<le> unat (ma_valted_status acc)"

lemma merge_step_acc:
  assumes "acc_ok (snd st)"
  shows "acc_ok (snd (merge_step b st))"
proof -
  have "192 \<le> unat (v ! 0)" if "none_if_err_or_empty v = Some f" "fl_contains f fl_found"
    "fl_contains f fl_well_formed" for v f
  proof -
    from that(1) have "v ! 0 = f"
      by (auto simp: none_if_err_or_empty_def try_from_stored_def Let_def split: list.splits if_splits)
    with that fl_top_bits show ?thesis by blast
  qed
  with assms show ?thesis
    by (cases st) (auto simp: merge_step_def acc_ok_def max_def word_le_nat_alt split: option.splits)
qed

lemma merge_fold_acc: "acc_ok (snd st) \<Longrightarrow> acc_ok (snd (fold merge_step bs st))"
  by (induction bs arbitrary: st) (simp_all add: merge_step_acc)

text \<open>
  C27. The merge never forgets a validation: if any operand is a well-sized validated status then
  the merged bytes decode to a validated status, whatever the other operands are.
\<close>

theorem merge_keeps_validated:
  assumes "is_validated v" "v \<in> set (case stored of None \<Rightarrow> [] | Some s \<Rightarrow> [s]) \<union> set queue"
  shows "\<exists>merged s. status_merge stored queue = Some merged
    \<and> status_decode merged = Ok (StValidated s)"
proof -
  obtain first rest where ops: "(case stored of None \<Rightarrow> [] | Some s \<Rightarrow> [s]) @ queue = first # rest"
    using assms(2) by (cases "(case stored of None \<Rightarrow> [] | Some s \<Rightarrow> [s]) @ queue") auto
  let ?init = "\<lparr>ma_valted_status = 0, ma_valted_anchor = 0, ma_committed_round = 0\<rparr>"
  obtain c acc where fin: "fold merge_step rest (first, ?init) = (c, acc)" by fastforce
  have "v = first \<or> v \<in> set rest"
    using assms(2) ops by (metis Un_iff set_ConsD set_append)
  then have "merge_ok (first, ?init) \<or> (\<exists>b \<in> set rest. is_validated b)"
    using assms(1) by (auto simp: merge_ok_def)
  then have ok: "merge_ok (c, acc)" unfolding fin [symmetric] by (rule merge_fold_validated)
  have acc: "acc_ok acc"
    using merge_fold_acc [of "(first, ?init)" rest] by (simp add: fin acc_ok_def)
  show ?thesis
  proof (cases "0 < ma_valted_status acc")
    case True
    with acc have "fl_contains (ma_valted_status acc) fl_found \<and> fl_contains (ma_valted_status acc) fl_well_formed"
      by (auto simp: acc_ok_def fl_top_bits)
    with True ops fin show ?thesis
      by (auto simp: status_merge_def status_decode_def try_from_stored_def validated_bytes_def Let_def)
  next
    case False
    with ok have "is_validated c" by (simp add: merge_ok_def)
    then obtain fl where "try_from_stored c = Ok (Some fl)" "fl_contains fl fl_found"
        "fl_contains fl fl_well_formed" by (auto simp: is_validated_def)
    with False ops fin show ?thesis
      by (simp add: status_merge_def status_decode_def Let_def)
  qed
qed

text \<open>
  C28. Validated statuses are merged in pairs and a third one is lost: whatever commit round or
  flags it carries, the result is the same as without it.
\<close>

theorem merge_drops_third:
  assumes "is_validated a" "is_validated b" "is_validated c"
  shows "status_merge (Some a) [b, c] = status_merge (Some a) [b]"
proof -
  from assms obtain fa fb where f: "none_if_err_or_empty a = Some fa" "fl_contains fa fl_found"
      "fl_contains fa fl_well_formed" "a ! 0 = fa" "none_if_err_or_empty b = Some fb"
      "fl_contains fb fl_found" "fl_contains fb fl_well_formed"
    by (elim is_validatedE) blast
  have "0 < max fa (b ! 0)"
    using validated_pos [OF f(2)] by (simp add: less_max_iff_disj)
  moreover have "none_if_err_or_empty [] = None"
    by (simp add: none_if_err_or_empty_def try_from_stored_def)
  ultimately show ?thesis
    using f by (simp add: status_merge_def merge_step_def)
qed

definition ex_validated :: "nat \<Rightarrow> status_validated" where
  "ex_validated at = \<lparr>sv_is_valid = True, sv_is_first_valid = True, sv_is_first_resolved = True,
     sv_is_certified = False, sv_anchor_flags = 0, sv_committed_at_round = Some at\<rparr>"

lemma ex_is_validated: "is_validated (sv_encode (ex_validated at))"
  by (simp add: is_validated_def sv_encode_def ex_validated_def try_from_stored_def flag_defs
      validated_bytes_def)

theorem status_roundtrip_witness:
  "status_decode (status_encode (StValidated (ex_validated 17))) = Ok (StValidated (ex_validated 17))"
  by (rule status_roundtrip) (simp add: ex_validated_def u32_max_def)

theorem merge_keeps_validated_witness:
  "\<exists>merged s. status_merge (Some []) [sv_encode (ex_validated 17)] = Some merged
     \<and> status_decode merged = Ok (StValidated s)"
  using merge_keeps_validated [OF ex_is_validated [of 17], of "Some []" "[sv_encode (ex_validated 17)]"]
  by simp

theorem merge_drops_third_witness:
  "status_merge (Some (sv_encode (ex_validated 1))) [sv_encode (ex_validated 2), sv_encode (ex_validated 3)]
     = status_merge (Some (sv_encode (ex_validated 1))) [sv_encode (ex_validated 2)]"
  by (rule merge_drops_third) (rule ex_is_validated)+

end
