(* ===== verification/Cert_Graph.thy ===== *)
theory Cert_Graph
  imports Point_Model
begin

text \<open>
  Certificates: \<^verbatim>\<open>consensus/src/models/cert.rs\<close>. A point proven by a majority certifies all points
  it depends on. Certificates are shared cells; here they live in a store and refer to each other
  by index, a dropped cell (\<^verbatim>\<open>Weak::upgrade\<close> returning \<open>None\<close>) is \<open>None\<close> in the store. Each step is
  one call, the atomics are read and written in the order of the code.

  The traversal is a breadth-first walk over three layers. It terminates because every dependency
  record is taken at most once, and it certifies exactly what is reachable.
\<close>

type_synonym cert_id = nat

record cert_deps =
  cd_includes :: "(digest, cert_id) bmap"
  cd_witness :: "(digest, cert_id) bmap"

datatype deps_life_cycle = Unset | SetDeps cert_deps | Taken

record cert_inner =
  ct_is_certified :: bool
  ct_has_deps :: bool
  ct_direct_deps :: deps_life_cycle

type_synonym cert_store = "cert_inner option list"

definition cert_default :: cert_inner where
  "cert_default = \<lparr>ct_is_certified = False, ct_has_deps = False, ct_direct_deps = Unset\<rparr>"

definition cert_upgrade :: "cert_store \<Rightarrow> cert_id \<Rightarrow> cert_inner option" where
  "cert_upgrade st c = (if c < length st then st ! c else None)"

definition cert_is_certified :: "cert_store \<Rightarrow> cert_id \<Rightarrow> bool" where
  "cert_is_certified st c =
     (case cert_upgrade st c of None \<Rightarrow> False | Some i \<Rightarrow> ct_is_certified i)"

definition try_certify :: "cert_inner \<Rightarrow> cert_inner" where
  "try_certify i = (if ct_is_certified i then i else i\<lparr>ct_is_certified := True\<rparr>)"

definition try_take_deps :: "cert_inner \<Rightarrow> (unit, cert_deps option \<times> cert_inner) outcome" where
  "try_take_deps i =
     (if ct_has_deps i then
        (case ct_direct_deps i of
           SetDeps deps \<Rightarrow> Ok (Some deps, i\<lparr>ct_has_deps := False, ct_direct_deps := Taken\<rparr>)
         | _ \<Rightarrow> Panic)
      else Ok (None, i))"

definition inner_set_deps :: "cert_deps \<Rightarrow> cert_inner \<Rightarrow> (unit, cert_inner) outcome" where
  "inner_set_deps deps i =
     (case ct_direct_deps i of
        Unset \<Rightarrow> Ok (i\<lparr>ct_direct_deps := SetDeps deps, ct_has_deps := True\<rparr>)
      | _ \<Rightarrow> Panic)"

text \<open>One certificate of the layer being drained: \<^verbatim>\<open>certify_as_dep\<close> and the two inserts.\<close>

definition certify_as_dep ::
  "cert_id \<Rightarrow> cert_store \<Rightarrow> (unit, cert_deps option \<times> cert_store) outcome" where
  "certify_as_dep c st =
     (case cert_upgrade st c of
        None \<Rightarrow> Ok (None, st)
      | Some i \<Rightarrow> bindR (try_take_deps (try_certify i)) (\<lambda>(deps, i'). Ok (deps, st[c := Some i'])))"

definition bm_extend :: "('k::linorder, 'v) bmap \<Rightarrow> ('k, 'v) bmap \<Rightarrow> ('k, 'v) bmap" where
  "bm_extend new m = fold (\<lambda>(k, v). bm_insert k v) new m"

type_synonym cert_layer = "(digest, cert_id) bmap"

definition certify_one ::
  "digest \<times> cert_id \<Rightarrow> cert_store \<times> cert_layer \<times> cert_layer
   \<Rightarrow> (unit, cert_store \<times> cert_layer \<times> cert_layer) outcome" where
  "certify_one e s =
     (case s of (st, includes, witness) \<Rightarrow>
        bindR (certify_as_dep (snd e) st) (\<lambda>(deps, st').
          case deps of
            None \<Rightarrow> Ok (st', includes, witness)
          | Some d \<Rightarrow> Ok (st', bm_extend (cd_includes d) includes, bm_extend (cd_witness d) witness)))"

section \<open>Termination of the traversal\<close>

definition with_deps :: "cert_store \<Rightarrow> cert_id set" where
  "with_deps st = {c. \<exists>i. cert_upgrade st c = Some i \<and> ct_has_deps i}"

lemma finite_with_deps: "finite (with_deps st)"
  by (rule finite_subset [of _ "{..<length st}"])
    (auto simp: with_deps_def cert_upgrade_def split: if_splits)

lemma cert_upgrade_update:
  "cert_upgrade (st[c := x]) d = (if c = d \<and> c < length st then x else cert_upgrade st d)"
  by (auto simp: cert_upgrade_def)

lemma cert_upgrade_lt: "cert_upgrade st c = Some i \<Longrightarrow> c < length st"
  by (auto simp: cert_upgrade_def split: if_splits)

text \<open>What taking the dependencies of one certificate does to the store.\<close>

lemma certify_as_dep_cases:
  assumes "certify_as_dep c st = Ok (res, st')"
  obtains (dropped) "cert_upgrade st c = None" "res = None" "st' = st"
  | (leaf) i where "cert_upgrade st c = Some i" "\<not> ct_has_deps i" "res = None"
      "st' = st[c := Some (i\<lparr>ct_is_certified := True\<rparr>)]"
  | (taken) i d where "cert_upgrade st c = Some i" "ct_has_deps i" "ct_direct_deps i = SetDeps d"
      "res = Some d"
      "st' = st[c := Some (i\<lparr>ct_is_certified := True, ct_has_deps := False, ct_direct_deps := Taken\<rparr>)]"
proof (cases "cert_upgrade st c")
  case None
  show thesis by (rule dropped [OF None]) (use assms None in \<open>simp_all add: certify_as_dep_def\<close>)
next
  case (Some i)
  have eq: "try_certify i = i\<lparr>ct_is_certified := True\<rparr>"
    by (simp add: try_certify_def)
  note unfold = certify_as_dep_def try_take_deps_def eq
  show thesis
  proof (cases "ct_has_deps i")
    case True
    show thesis
    proof (cases "ct_direct_deps i")
      case (SetDeps d)
      show thesis
        by (rule taken [OF Some True SetDeps]) (use assms Some True SetDeps in \<open>simp_all add: unfold\<close>)
    qed (use assms Some True in \<open>simp_all add: unfold\<close>)
  next
    case False
    show thesis by (rule leaf [OF Some False]) (use assms Some False in \<open>simp_all add: unfold\<close>)
  qed
qed

lemma with_deps_as_dep:
  assumes "certify_as_dep c st = Ok (res, st')"
  shows "with_deps st' = with_deps st - (if res = None then {} else {c})"
    and "res \<noteq> None \<Longrightarrow> c \<in> with_deps st"
  using assms
  by (cases rule: certify_as_dep_cases;
      auto simp: with_deps_def cert_upgrade_update dest: cert_upgrade_lt split: if_splits)+

lemma certify_layer_measure:
  assumes "foldR certify_one cur (st, inc, wit) = Ok (st', inc', wit')"
  shows "card (with_deps st') < card (with_deps st)
    \<or> (card (with_deps st') = card (with_deps st) \<and> inc' = inc \<and> wit' = wit)"
  using assms
proof (induction cur arbitrary: st inc wit)
  case (Cons e cur)
  then obtain s1 i1 w1 where 1: "certify_one e (st, inc, wit) = Ok (s1, i1, w1)"
      "foldR certify_one cur (s1, i1, w1) = Ok (st', inc', wit')"
    by (auto simp: outcome_simps)
  from 1(1) obtain res where res: "certify_as_dep (snd e) st = Ok (res, s1)"
      "(i1, w1) = (case res of None \<Rightarrow> (inc, wit)
         | Some d \<Rightarrow> (bm_extend (cd_includes d) inc, bm_extend (cd_witness d) wit))"
    by (auto simp: certify_one_def outcome_simps split: option.splits)
  have "card (with_deps s1) < card (with_deps st)
    \<or> (card (with_deps s1) = card (with_deps st) \<and> i1 = inc \<and> w1 = wit)"
    using with_deps_as_dep [OF res(1)] res(2) card_Diff1_less [OF finite_with_deps, of "snd e" st]
    by (cases res) auto
  with Cons.IH [OF 1(2)] show ?case by auto
qed simp

section \<open>Traversal\<close>

text \<open>
  The loop over the three layers: the first one is drained while the next two grow, then the
  layers rotate. Draining order does not matter, the layers are kept sorted here.
\<close>

definition layers_weight :: "cert_layer \<Rightarrow> cert_layer \<Rightarrow> cert_layer \<Rightarrow> nat" where
  "layers_weight cur inc wit = (if wit \<noteq> [] then 3 else if inc \<noteq> [] then 2 else if cur \<noteq> [] then 1 else 0)"

function traverse_layers ::
  "cert_layer \<Rightarrow> cert_layer \<Rightarrow> cert_layer \<Rightarrow> cert_store \<Rightarrow> (unit, cert_store) outcome" where
  "traverse_layers cur inc wit st =
     (if cur = [] \<and> inc = [] \<and> wit = [] then Ok st
      else case foldR certify_one cur (st, inc, wit) of
        Ok (st', inc', wit') \<Rightarrow> traverse_layers inc' wit' [] st'
      | Err e \<Rightarrow> Err e
      | Panic \<Rightarrow> Panic)"
  by pat_completeness auto
termination
  by (relation "measure (\<lambda>(cur, inc, wit, st). 4 * card (with_deps st) + layers_weight cur inc wit)")
    (auto dest!: certify_layer_measure simp: layers_weight_def)

declare traverse_layers.simps [simp del]

definition traverse_certify :: "cert_deps \<Rightarrow> cert_store \<Rightarrow> (unit, cert_store) outcome" where
  "traverse_certify deps st = traverse_layers (cd_includes deps) (cd_witness deps) [] st"

definition cert_certify :: "cert_id \<Rightarrow> cert_store \<Rightarrow> (unit, cert_store) outcome" where
  "cert_certify c st =
     bindR (certify_as_dep c st) (\<lambda>(deps, st').
       case deps of None \<Rightarrow> Ok st' | Some d \<Rightarrow> traverse_certify d st')"

definition cert_set_deps :: "cert_id \<Rightarrow> cert_deps \<Rightarrow> cert_store \<Rightarrow> (unit, cert_store) outcome" where
  "cert_set_deps c deps st =
     (case cert_upgrade st c of
        None \<Rightarrow> Ok st
      | Some i \<Rightarrow>
          if ct_is_certified i then traverse_certify deps st
          else bindR (inner_set_deps deps i) (\<lambda>i'. Ok (st[c := Some i'])))"

section \<open>Reachability\<close>

definition dep_ids :: "cert_deps \<Rightarrow> cert_id set" where
  "dep_ids d = snd ` set (cd_includes d) \<union> snd ` set (cd_witness d)"

text \<open>The edges the traversal may follow, and the layers' certificates.\<close>

definition dep_edge :: "cert_store \<Rightarrow> (cert_id \<times> cert_id) set" where
  "dep_edge st = {(a, b). \<exists>i d. cert_upgrade st a = Some i \<and> ct_has_deps i
     \<and> ct_direct_deps i = SetDeps d \<and> b \<in> dep_ids d}"

definition layer_ids :: "cert_layer \<Rightarrow> cert_id set" where
  "layer_ids m = snd ` set m"

text \<open>
  Layers are keyed by digest, so the walk relies on a digest naming one certificate: \<open>cert_of\<close>.
\<close>

definition layer_ok :: "(digest \<Rightarrow> cert_id) \<Rightarrow> cert_layer \<Rightarrow> bool" where
  "layer_ok cert_of m \<longleftrightarrow> (\<forall>(dg, c) \<in> set m. c = cert_of dg)"

definition store_ok :: "(digest \<Rightarrow> cert_id) \<Rightarrow> cert_store \<Rightarrow> bool" where
  "store_ok cert_of st \<longleftrightarrow> (\<forall>c i. cert_upgrade st c = Some i \<and> ct_has_deps i \<longrightarrow>
     (\<exists>d. ct_direct_deps i = SetDeps d \<and> layer_ok cert_of (cd_includes d)
        \<and> layer_ok cert_of (cd_witness d)))"

definition settled :: "cert_store \<Rightarrow> cert_id \<Rightarrow> bool" where
  "settled st c \<longleftrightarrow> (\<forall>i. cert_upgrade st c = Some i \<longrightarrow> ct_is_certified i \<and> \<not> ct_has_deps i)"

lemma set_bm_insert_subset: "set (bm_insert k v m) \<subseteq> insert (k, v) (set m)"
  by (induction k v m rule: bm_insert.induct) auto

lemma layer_ids_keys:
  assumes "layer_ok f m"
  shows "layer_ids m = f ` set (map fst m)"
proof -
  have "snd ` set m = (\<lambda>e. f (fst e)) ` set m"
    using assms by (intro image_cong) (auto simp: layer_ok_def)
  then show ?thesis by (simp add: layer_ids_def image_image)
qed

lemma layer_ok_insert: "layer_ok f m \<Longrightarrow> c = f dg \<Longrightarrow> layer_ok f (bm_insert dg c m)"
  using set_bm_insert_subset [of dg c m] by (auto simp: layer_ok_def)

lemma layer_ids_insert:
  assumes "layer_ok f m" "c = f dg"
  shows "layer_ids (bm_insert dg c m) = insert c (layer_ids m)"
  unfolding layer_ids_keys [OF layer_ok_insert [OF assms]] layer_ids_keys [OF assms(1)]
    set_bm_insert_keys using assms(2) by simp

lemma layer_ids_Cons: "layer_ids (e # m) = insert (snd e) (layer_ids m)" "layer_ids [] = {}"
  by (simp_all add: layer_ids_def)

lemma layer_ok_Cons: "layer_ok f (e # m) \<longleftrightarrow> snd e = f (fst e) \<and> layer_ok f m" "layer_ok f []"
  by (auto simp: layer_ok_def)

lemma layer_extend:
  assumes "layer_ok f new" "layer_ok f m"
  shows "layer_ok f (bm_extend new m) \<and> layer_ids (bm_extend new m) = layer_ids new \<union> layer_ids m"
  using assms unfolding bm_extend_def
proof (induction new arbitrary: m)
  case (Cons e new)
  then have e: "snd e = f (fst e)" "layer_ok f new" by (simp_all add: layer_ok_Cons)
  from Cons.IH [OF e(2) layer_ok_insert [OF Cons.prems(2) e(1)]]
  show ?case
    by (simp add: case_prod_unfold layer_ids_insert [OF Cons.prems(2) e(1)] layer_ids_Cons)
qed (simp add: layer_ids_Cons)

text \<open>
  The invariant of the walk from \<open>root\<close>, started in the store \<open>st0\<close>, with the certificates \<open>P\<close>
  still to visit.
\<close>

definition walk_inv :: "cert_store \<Rightarrow> cert_id \<Rightarrow> cert_store \<Rightarrow> cert_id set \<Rightarrow> bool" where
  "walk_inv st0 root st P \<longleftrightarrow>
     (\<forall>c. (cert_upgrade st c = None) = (cert_upgrade st0 c = None))
     \<and> (\<forall>c i. cert_upgrade st c = Some i \<and> ct_has_deps i \<longrightarrow>
          (\<exists>j. cert_upgrade st0 c = Some j \<and> ct_has_deps j \<and> ct_direct_deps j = ct_direct_deps i))
     \<and> (\<forall>c. cert_is_certified st0 c \<longrightarrow> cert_is_certified st c)
     \<and> (\<forall>c. cert_is_certified st c \<longrightarrow> cert_is_certified st0 c \<or> (root, c) \<in> (dep_edge st0)\<^sup>*)
     \<and> (\<forall>c \<in> P. (root, c) \<in> (dep_edge st0)\<^sup>*)
     \<and> (\<forall>(a, b) \<in> dep_edge st0. a \<notin> with_deps st \<longrightarrow> b \<in> P \<or> settled st b)
     \<and> (root \<in> P \<or> settled st root)"

lemma walk_invD:
  assumes "walk_inv st0 root st P"
  shows "(cert_upgrade st c = None) = (cert_upgrade st0 c = None)"
    "cert_upgrade st c = Some i \<Longrightarrow> ct_has_deps i \<Longrightarrow>
      \<exists>j. cert_upgrade st0 c = Some j \<and> ct_has_deps j \<and> ct_direct_deps j = ct_direct_deps i"
    "cert_is_certified st0 c \<Longrightarrow> cert_is_certified st c"
    "cert_is_certified st c \<Longrightarrow> cert_is_certified st0 c \<or> (root, c) \<in> (dep_edge st0)\<^sup>*"
    "c \<in> P \<Longrightarrow> (root, c) \<in> (dep_edge st0)\<^sup>*"
    "(a, b) \<in> dep_edge st0 \<Longrightarrow> a \<notin> with_deps st \<Longrightarrow> b \<in> P \<or> settled st b"
    "root \<in> P \<or> settled st root"
  using assms unfolding walk_inv_def by blast+

text \<open>Settling one certificate of the worklist whose dependencies join the worklist.\<close>

lemma walk_settle:
  assumes inv: "walk_inv st0 root st (insert c P)"
    and c: "cert_upgrade st c = Some i" and j: "ct_is_certified j" "\<not> ct_has_deps j"
    and st': "st' = st[c := Some j]"
    and Q: "\<And>q. q \<in> Q \<Longrightarrow> (c, q) \<in> dep_edge st0"
      "\<And>b. c \<in> with_deps st \<Longrightarrow> (c, b) \<in> dep_edge st0 \<Longrightarrow> b \<in> Q"
  shows "walk_inv st0 root st' (P \<union> Q) \<and> settled st' c"
proof -
  note D = walk_invD [OF inv]
  have up: "cert_upgrade st' x = (if x = c then Some j else cert_upgrade st x)" for x
    using cert_upgrade_lt [OF c] by (auto simp: st' cert_upgrade_update)
  have wd: "with_deps st' = with_deps st - {c}"
    using j by (auto simp: with_deps_def up)
  have cert: "cert_is_certified st' x = (x = c \<or> cert_is_certified st x)" for x
    using j by (simp add: cert_is_certified_def up)
  have settled_c: "settled st' c" using j by (simp add: settled_def up)
  have settled_mono: "settled st x \<Longrightarrow> settled st' x" for x using j by (simp add: settled_def up)
  have root_c: "(root, c) \<in> (dep_edge st0)\<^sup>*" by (rule D(5)) simp
  have "b \<in> P \<union> Q \<or> settled st' b" if "(a, b) \<in> dep_edge st0" "a \<notin> with_deps st'" for a b
  proof (cases "a \<in> with_deps st")
    case True
    with that wd have "a = c" by auto
    with that(1) True Q(2) show ?thesis by blast
  next
    case False
    with D(6) [OF that(1)] settled_mono settled_c show ?thesis by blast
  qed
  moreover have "(root, q) \<in> (dep_edge st0)\<^sup>*" if "q \<in> P \<union> Q" for q
    using that D(5) Q(1) root_c by (meson UnE insertI2 rtrancl.rtrancl_into_rtrancl)
  moreover have "\<exists>k. cert_upgrade st0 x = Some k \<and> ct_has_deps k \<and> ct_direct_deps k = ct_direct_deps m"
    if "cert_upgrade st' x = Some m" "ct_has_deps m" for x m
    using that D(2) j(2) by (metis option.inject up)
  moreover have "(cert_upgrade st' x = None) = (cert_upgrade st0 x = None)" for x
    using D(1) c by (metis option.distinct(1) up)
  moreover have "cert_is_certified st0 x \<Longrightarrow> cert_is_certified st' x" for x using D(3) cert by blast
  moreover have "cert_is_certified st' x \<Longrightarrow> cert_is_certified st0 x \<or> (root, x) \<in> (dep_edge st0)\<^sup>*" for x
    using D(4) [of x] cert [of x] root_c by auto
  moreover have "root \<in> P \<union> Q \<or> settled st' root" using D(7) settled_c settled_mono by blast
  ultimately show ?thesis using settled_c unfolding walk_inv_def by blast
qed

lemma walk_step:
  assumes inv: "walk_inv st0 root st (insert c P)" and ok: "certify_as_dep c st = Ok (res, st')"
  shows "walk_inv st0 root st' (P \<union> (case res of None \<Rightarrow> {} | Some d \<Rightarrow> dep_ids d)) \<and> settled st' c"
  using ok
proof (cases rule: certify_as_dep_cases)
  case dropped
  note D = walk_invD [OF inv]
  from dropped have "settled st c" by (simp add: settled_def)
  with inv dropped show ?thesis unfolding walk_inv_def by auto
next
  case (leaf i)
  then have "c \<notin> with_deps st" by (simp add: with_deps_def)
  with walk_settle [OF inv leaf(1) _ _ leaf(4), of "{}"] leaf show ?thesis by simp
next
  case (taken i d)
  from walk_invD(2) [OF inv taken(1,2)] taken(3)
  have "(c, b) \<in> dep_edge st0 \<longleftrightarrow> b \<in> dep_ids d" for b
    by (auto simp: dep_edge_def)
  with walk_settle [OF inv taken(1) _ _ taken(5), of "dep_ids d"] taken(4) show ?thesis by simp
qed

lemma store_ok_as_dep:
  assumes "store_ok f st"
  shows "\<exists>res st'. certify_as_dep c st = Ok (res, st') \<and> store_ok f st'
    \<and> (\<forall>d. res = Some d \<longrightarrow> layer_ok f (cd_includes d) \<and> layer_ok f (cd_witness d))"
proof (cases "cert_upgrade st c")
  case None
  with assms show ?thesis by (simp add: certify_as_dep_def)
next
  case (Some i)
  note lt = cert_upgrade_lt [OF Some]
  show ?thesis
  proof (cases "ct_has_deps i")
    case True
    with Some assms obtain d where "ct_direct_deps i = SetDeps d" "layer_ok f (cd_includes d)"
      "layer_ok f (cd_witness d)" by (auto simp: store_ok_def)
    with Some True assms lt show ?thesis
      by (auto simp: certify_as_dep_def try_take_deps_def try_certify_def store_ok_def
          cert_upgrade_update)
  next
    case False
    with Some assms lt show ?thesis
      by (auto simp: certify_as_dep_def try_take_deps_def try_certify_def store_ok_def
          cert_upgrade_update)
  qed
qed

lemma walk_layer:
  assumes "store_ok f st" "layer_ok f cur" "layer_ok f inc" "layer_ok f wit"
    and "walk_inv st0 root st (layer_ids cur \<union> (layer_ids inc \<union> layer_ids wit))"
  shows "\<exists>st' inc' wit'. foldR certify_one cur (st, inc, wit) = Ok (st', inc', wit')
    \<and> store_ok f st' \<and> layer_ok f inc' \<and> layer_ok f wit'
    \<and> walk_inv st0 root st' (layer_ids inc' \<union> layer_ids wit')"
  using assms
proof (induction cur arbitrary: st inc wit)
  case Nil
  then show ?case by (simp add: layer_ids_Cons)
next
  case (Cons e cur)
  from store_ok_as_dep [OF Cons.prems(1), of "snd e"] obtain res s1 where
    s1: "certify_as_dep (snd e) st = Ok (res, s1)" "store_ok f s1"
    and deps: "\<And>d. res = Some d \<Longrightarrow> layer_ok f (cd_includes d) \<and> layer_ok f (cd_witness d)" by blast
  define i1 w1 where "i1 = (case res of None \<Rightarrow> inc | Some d \<Rightarrow> bm_extend (cd_includes d) inc)"
    and "w1 = (case res of None \<Rightarrow> wit | Some d \<Rightarrow> bm_extend (cd_witness d) wit)"
  have one: "certify_one e (st, inc, wit) = Ok (s1, i1, w1)"
    by (cases res) (simp_all add: certify_one_def s1 i1_def w1_def)
  have lays: "layer_ok f i1" "layer_ok f w1" "layer_ids i1 \<union> layer_ids w1
      = layer_ids inc \<union> layer_ids wit \<union> (case res of None \<Rightarrow> {} | Some d \<Rightarrow> dep_ids d)"
    using deps Cons.prems(3,4) layer_extend
    by (cases res; auto simp: i1_def w1_def dep_ids_def layer_ids_def [symmetric])+
  have "walk_inv st0 root s1 (layer_ids cur \<union> (layer_ids i1 \<union> layer_ids w1))"
    using walk_step [OF _ s1(1), of st0 root "layer_ids cur \<union> (layer_ids inc \<union> layer_ids wit)"]
      Cons.prems(5) by (simp add: layer_ids_Cons lays(3) Un_assoc)
  with Cons.IH [OF s1(2) _ lays(1,2)] Cons.prems(2) show ?case
    by (simp add: one layer_ok_Cons)
qed

lemma walk_all:
  assumes "store_ok f st" "layer_ok f cur" "layer_ok f inc" "layer_ok f wit"
    and "walk_inv st0 root st (layer_ids cur \<union> (layer_ids inc \<union> layer_ids wit))"
  shows "\<exists>st'. traverse_layers cur inc wit st = Ok st' \<and> store_ok f st' \<and> walk_inv st0 root st' {}"
  using assms
proof (induction cur inc wit st rule: traverse_layers.induct)
  case (1 cur inc wit st)
  show ?case
  proof (cases "cur = [] \<and> inc = [] \<and> wit = []")
    case True
    with 1(2-) show ?thesis by (subst traverse_layers.simps) (simp add: layer_ids_Cons)
  next
    case False
    from walk_layer [OF 1(2-)] obtain st' inc' wit' where
      l: "foldR certify_one cur (st, inc, wit) = Ok (st', inc', wit')" "store_ok f st'"
        "layer_ok f inc'" "layer_ok f wit'" "walk_inv st0 root st' (layer_ids inc' \<union> layer_ids wit')"
      by blast
    from 1(1) [OF False l(1) refl refl l(2,3,4)] l(5) show ?thesis
      by (subst traverse_layers.simps) (simp add: False l(1) layer_ids_Cons layer_ok_Cons)
  qed
qed

lemma walk_start:
  "walk_inv st c st {c}"
  by (auto simp: walk_inv_def dep_edge_def with_deps_def)

text \<open>
  C19. Certification is exactly transitive closure: certifying a point returns without a panic
  and afterwards the certified points are those certified before and those reachable from it over
  recorded dependencies (and still alive), no more and no fewer.
\<close>

theorem certify_reaches_closure:
  assumes "store_ok cert_of st"
  shows "\<exists>st'. cert_certify root st = Ok st' \<and> store_ok cert_of st'
    \<and> (\<forall>c. cert_is_certified st' c \<longleftrightarrow> cert_is_certified st c
         \<or> (root, c) \<in> (dep_edge st)\<^sup>* \<and> cert_upgrade st c \<noteq> None)"
proof -
  from store_ok_as_dep [OF assms, of root] obtain res s1 where
    s1: "certify_as_dep root st = Ok (res, s1)" "store_ok cert_of s1"
    and deps: "\<And>d. res = Some d \<Longrightarrow> layer_ok cert_of (cd_includes d) \<and> layer_ok cert_of (cd_witness d)"
    by blast
  from walk_step [OF _ s1(1), of st root "{}"] walk_start
  have w1: "walk_inv st root s1 (case res of None \<Rightarrow> {} | Some d \<Rightarrow> dep_ids d)" and root: "settled s1 root"
    by auto
  obtain st' where st': "cert_certify root st = Ok st'" "store_ok cert_of st'" "walk_inv st root st' {}"
  proof (cases res)
    case None
    with s1 w1 that show thesis by (simp add: cert_certify_def)
  next
    case (Some d)
    with walk_all [OF s1(2), of "cd_includes d" "cd_witness d" "[]" st root] deps w1
    show thesis
      by (auto simp: cert_certify_def traverse_certify_def s1 layer_ok_Cons layer_ids_Cons
          dep_ids_def layer_ids_def [symmetric] intro: that)
  qed
  have reached: "settled st' c" if "(root, c) \<in> (dep_edge st)\<^sup>*" for c
    using that
  proof induction
    case base
    show ?case using walk_invD(7) [OF st'(3)] by simp
  next
    case (step a b)
    then have "a \<notin> with_deps st'" by (auto simp: settled_def with_deps_def)
    with step walk_invD(6) [OF st'(3)] show ?case by blast
  qed
  have "cert_is_certified st' c \<longleftrightarrow> cert_is_certified st c
      \<or> (root, c) \<in> (dep_edge st)\<^sup>* \<and> cert_upgrade st c \<noteq> None" for c
  proof
    assume "cert_is_certified st' c"
    moreover from this have "cert_upgrade st' c \<noteq> None"
      by (auto simp: cert_is_certified_def split: option.splits)
    ultimately show "cert_is_certified st c \<or> (root, c) \<in> (dep_edge st)\<^sup>* \<and> cert_upgrade st c \<noteq> None"
      using walk_invD(1,4) [OF st'(3), of c] by auto
  next
    assume "cert_is_certified st c \<or> (root, c) \<in> (dep_edge st)\<^sup>* \<and> cert_upgrade st c \<noteq> None"
    then show "cert_is_certified st' c"
    proof
      assume a: "(root, c) \<in> (dep_edge st)\<^sup>* \<and> cert_upgrade st c \<noteq> None"
      then obtain i where "cert_upgrade st' c = Some i" using walk_invD(1) [OF st'(3)] by fastforce
      with reached [of c] a show ?thesis by (simp add: cert_is_certified_def settled_def)
    qed (rule walk_invD(3) [OF st'(3)])
  qed
  with st' show ?thesis by blast
qed

definition ex_store :: cert_store where
  "ex_store = [Some \<lparr>ct_is_certified = False, ct_has_deps = True,
       ct_direct_deps = SetDeps \<lparr>cd_includes = [(11, 1)], cd_witness = []\<rparr>\<rparr>,
     Some cert_default]"

theorem certify_reaches_closure_witness:
  "\<exists>st'. cert_certify 0 ex_store = Ok st' \<and> cert_is_certified st' 1"
proof -
  have ok: "store_ok (\<lambda>dg. if dg = 11 then 1 else 0) ex_store"
    by (auto simp: store_ok_def ex_store_def cert_upgrade_def layer_ok_def cert_default_def
        nth_Cons' split: if_splits)
  have "(0, 1) \<in> dep_edge ex_store"
    by (simp add: dep_edge_def ex_store_def cert_upgrade_def dep_ids_def)
  with certify_reaches_closure [OF ok, of 0] show ?thesis
    by (auto simp: ex_store_def cert_upgrade_def)
qed

end
