(* ===== verification/Dag_Location.thy ===== *)
theory Dag_Location
  imports Point_Status Cert_Graph
begin

text \<open>
  One author's place in one DAG round: \<^verbatim>\<open>consensus/src/models/dag_point.rs\<close> (a resolved point)
  and \<^verbatim>\<open>consensus/src/dag/dag_location.rs\<close> (which version came first and whether the node signed
  it).

  Write-once cells (\<^verbatim>\<open>OnceLock\<close>) are options that only go from \<open>None\<close> to \<open>Some\<close>. Flags shared
  through \<^verbatim>\<open>Arc\<close> are fields that hold the flag's value at the time of the step: \<open>vp_certified\<close> is
  what \<open>is_certified\<close> reads, \<open>vp_is_committed\<close> the commit mark.

  The lemmas show that the state of a location evolves in one direction only, so a decision to
  sign or to reject is final and at most one version is ever signed.
\<close>

section \<open>Resolved points\<close>

datatype point_map = MapEvidence | MapIncludes | MapWitness

datatype ill_formed_reason =
    AfterLoadFromDb
  | TooLargePayload nat
  | LinksAcrossGenesis
  | LinksSameRound
  | SelfLink
  | AnchorLink
  | MustBeEmpty point_map
  | UnknownPeers "peer_id list" point_map
  | LackOfPeers nat peer_count point_map
  | NotDescribed

record valid_point =
  vp_info :: point_info
  vp_first_valid :: bool
  vp_is_first_resolved :: bool
  vp_certified :: bool
  vp_is_committed :: bool

record invalid_point =
  iv_info :: point_info
  iv_is_first_resolved :: bool
  iv_certified :: bool

record ill_formed_point =
  il_id :: point_id
  il_is_first_resolved :: bool
  il_certified :: bool
  il_reason :: ill_formed_reason

record not_found_point =
  nf_id :: point_id
  nf_is_first_resolved :: bool
  nf_certified :: bool

datatype dag_point =
    Valid valid_point
  | Invalid invalid_point
  | IllFormed ill_formed_point
  | NotFound not_found_point

definition dp_new_validated :: "point_info \<Rightarrow> bool \<Rightarrow> status_validated \<Rightarrow> dag_point" where
  "dp_new_validated info certified status =
     (if sv_is_valid status then
        Valid \<lparr>vp_info = info, vp_first_valid = sv_is_first_valid status,
          vp_is_first_resolved = sv_is_first_resolved status, vp_certified = certified,
          vp_is_committed = False\<rparr>
      else
        Invalid \<lparr>iv_info = info, iv_is_first_resolved = sv_is_first_resolved status,
          iv_certified = certified\<rparr>)"

definition dp_new_ill_formed ::
  "point_id \<Rightarrow> bool \<Rightarrow> status_ill_formed \<Rightarrow> ill_formed_reason \<Rightarrow> dag_point" where
  "dp_new_ill_formed pid certified status reason =
     IllFormed \<lparr>il_id = pid, il_is_first_resolved = si_is_first_resolved status,
       il_certified = certified, il_reason = reason\<rparr>"

definition dp_new_not_found :: "round \<Rightarrow> digest \<Rightarrow> bool \<Rightarrow> status_not_found \<Rightarrow> dag_point" where
  "dp_new_not_found round dg certified status =
     NotFound \<lparr>nf_id = \<lparr>pid_author = sn_author status, pid_round = round, pid_digest = dg\<rparr>,
       nf_is_first_resolved = sn_is_first_resolved status, nf_certified = certified\<rparr>"

fun dp_valid :: "dag_point \<Rightarrow> valid_point option" where
  "dp_valid (Valid v) = Some v"
| "dp_valid _ = None"

fun dp_trusted :: "dag_point \<Rightarrow> point_info option" where
  "dp_trusted (Valid v) = Some (vp_info v)"
| "dp_trusted (Invalid i) = (if iv_certified i then Some (iv_info i) else None)"
| "dp_trusted _ = None"

fun dp_id :: "dag_point \<Rightarrow> point_id" where
  "dp_id (Valid v) = pi_id (vp_info v)"
| "dp_id (Invalid i) = pi_id (iv_info i)"
| "dp_id (IllFormed l) = il_id l"
| "dp_id (NotFound n) = nf_id n"

fun dp_author :: "dag_point \<Rightarrow> peer_id" where
  "dp_author (Valid v) = pi_author (vp_info v)"
| "dp_author (Invalid i) = pi_author (iv_info i)"
| "dp_author (IllFormed l) = pid_author (il_id l)"
| "dp_author (NotFound n) = pid_author (nf_id n)"

fun dp_round :: "dag_point \<Rightarrow> round" where
  "dp_round (Valid v) = pi_round (vp_info v)"
| "dp_round (Invalid i) = pi_round (iv_info i)"
| "dp_round (IllFormed l) = pid_round (il_id l)"
| "dp_round (NotFound n) = pid_round (nf_id n)"

fun dp_digest :: "dag_point \<Rightarrow> digest" where
  "dp_digest (Valid v) = pi_digest (vp_info v)"
| "dp_digest (Invalid i) = pi_digest (iv_info i)"
| "dp_digest (IllFormed l) = pid_digest (il_id l)"
| "dp_digest (NotFound n) = pid_digest (nf_id n)"

fun dp_is_first_resolved :: "dag_point \<Rightarrow> bool" where
  "dp_is_first_resolved (Valid v) = vp_is_first_resolved v"
| "dp_is_first_resolved (Invalid i) = iv_is_first_resolved i"
| "dp_is_first_resolved (IllFormed l) = il_is_first_resolved l"
| "dp_is_first_resolved (NotFound n) = nf_is_first_resolved n"

fun dp_is_certified :: "dag_point \<Rightarrow> bool" where
  "dp_is_certified (Valid v) = vp_certified v"
| "dp_is_certified (Invalid i) = iv_certified i"
| "dp_is_certified (IllFormed l) = il_certified l"
| "dp_is_certified (NotFound n) = nf_certified n"

lemma dp_id_parts: "dp_id p = \<lparr>pid_author = dp_author p, pid_round = dp_round p, pid_digest = dp_digest p\<rparr>"
  by (cases p) (simp_all add: pi_id_def)

section \<open>State of a location\<close>

text \<open>
  \<^verbatim>\<open>Result<T, ()>\<close> is \<open>unit + T\<close>; a signed point is the pair of the point and the signature.
\<close>

type_synonym signed = "valid_point \<times> signature"

record signable =
  sg_valid :: valid_point
  sg_signature :: "(unit + signature) option"

datatype first_resolved =
    FrValid digest "(unit + signable) option"
  | FrNotValid digest
  | FrClosed

record inclusion_state =
  in_resolved :: "first_resolved option"
  in_valid :: "digest option"

definition in_new :: inclusion_state where
  "in_new = \<lparr>in_resolved = None, in_valid = None\<rparr>"

text \<open>
  The initialisation of the first resolved cell by a new version. The nested assertion says that
  the first valid version cannot be known before the first resolved one.
\<close>

definition in_init_resolved ::
  "digest \<Rightarrow> status_stored \<Rightarrow> inclusion_state \<Rightarrow> ('e, status_stored \<times> inclusion_state) outcome" where
  "in_init_resolved dg status st =
     (let status = ps_set_first_resolved status
      in if ps_is_valid status then
           (case in_valid st of
              None \<Rightarrow> Ok (ps_set_first_valid status,
                         \<lparr>in_resolved = Some (FrValid dg None), in_valid = Some dg\<rparr>)
            | Some valid \<Rightarrow>
                if valid \<noteq> dg then Panic
                else Ok (status, st\<lparr>in_resolved := Some (FrValid dg None)\<rparr>))
         else Ok (status, st\<lparr>in_resolved := Some (FrNotValid dg)\<rparr>))"

definition in_acquire ::
  "point_id \<Rightarrow> status_stored \<Rightarrow> inclusion_state \<Rightarrow> ('e, status_stored \<times> inclusion_state) outcome" where
  "in_acquire pid status st =
     (if ps_is_first_resolved status then Panic
      else if ps_is_first_valid status then Panic
      else
        bindR (case in_resolved st of
                 Some _ \<Rightarrow> Ok (status, st)
               | None \<Rightarrow> in_init_resolved (pid_digest pid) status st)
          (\<lambda>(status, st).
             if \<not> ps_is_first_resolved status \<and> ps_is_valid status \<and> in_valid st = None
             then Ok (ps_set_first_valid status, st\<lparr>in_valid := Some (pid_digest pid)\<rparr>)
             else Ok (status, st)))"

definition in_restore_resolved ::
  "digest \<Rightarrow> status_stored \<Rightarrow> inclusion_state \<Rightarrow> ('e, inclusion_state) outcome" where
  "in_restore_resolved dg status st =
     (if ps_is_first_resolved status then
        (case in_resolved st of
           None \<Rightarrow> Ok (st\<lparr>in_resolved :=
             Some (if ps_is_valid status then FrValid dg None else FrNotValid dg)\<rparr>)
         | Some (FrValid first _) \<Rightarrow> if dg = first then Ok st else Panic
         | Some (FrNotValid first) \<Rightarrow> if dg = first then Ok st else Panic
         | Some FrClosed \<Rightarrow> Panic)
      else Ok st)"

definition in_restore_valid ::
  "digest \<Rightarrow> status_stored \<Rightarrow> inclusion_state \<Rightarrow> ('e, inclusion_state) outcome" where
  "in_restore_valid dg status st =
     (if ps_is_first_valid status then
        if \<not> ps_is_valid status then Panic
        else (case in_valid st of
                None \<Rightarrow> Ok (st\<lparr>in_valid := Some dg\<rparr>)
              | Some first \<Rightarrow> if dg = first then Ok st else Panic)
      else Ok st)"

definition in_acquire_restore ::
  "point_id \<Rightarrow> status_stored \<Rightarrow> inclusion_state \<Rightarrow> ('e, inclusion_state) outcome" where
  "in_acquire_restore pid status st =
     bindR (in_restore_resolved (pid_digest pid) status st)
       (in_restore_valid (pid_digest pid) status)"

text \<open>
  \<open>resolve\<close> has two parts, as in the code. The first matches the point with the first resolved
  cell and makes it signable; the second matches it with the first valid cell and returns the
  point handed to the threshold counter of the round, if any.
\<close>

definition in_resolve_first :: "dag_point \<Rightarrow> inclusion_state \<Rightarrow> ('e, inclusion_state) outcome" where
  "in_resolve_first dp st =
     (case in_resolved st of
        None \<Rightarrow> if dp_is_first_resolved dp then Panic else Ok st
      | Some (FrValid dg sg) \<Rightarrow>
          if dp_is_first_resolved dp then
            if dg = dp_digest dp then
              (case dp_valid dp of
                 None \<Rightarrow> Panic
               | Some valid \<Rightarrow>
                   (case sg of
                      Some _ \<Rightarrow> Ok st
                    | None \<Rightarrow> Ok (st\<lparr>in_resolved := Some (FrValid dg
                        (Some (Inr \<lparr>sg_valid = valid, sg_signature = None\<rparr>)))\<rparr>)))
            else Panic
          else if dg = dp_digest dp then Panic else Ok st
      | Some (FrNotValid dg) \<Rightarrow>
          if dp_is_first_resolved dp then
            if dg = dp_digest dp \<and> dp_valid dp = None then Ok st else Panic
          else if dg = dp_digest dp then Panic else Ok st
      | Some FrClosed \<Rightarrow> Ok st)"

definition in_resolve_valid :: "dag_point \<Rightarrow> inclusion_state \<Rightarrow> ('e, valid_point option) outcome" where
  "in_resolve_valid dp st =
     (case (case dp_valid dp of
              Some v \<Rightarrow> if vp_first_valid v then Some v else None
            | None \<Rightarrow> None) of
        Some valid \<Rightarrow>
          (case in_valid st of
             None \<Rightarrow> Panic
           | Some first_valid \<Rightarrow>
               if pi_digest (vp_info valid) = first_valid then Ok (Some valid) else Panic)
      | None \<Rightarrow>
          (case in_valid st of
             Some first_valid \<Rightarrow> if dp_digest dp = first_valid then Panic else Ok None
           | None \<Rightarrow> Ok None))"

definition in_resolve ::
  "dag_point \<Rightarrow> inclusion_state \<Rightarrow> ('e, inclusion_state \<times> valid_point option) outcome" where
  "in_resolve dp st =
     bindR (in_resolve_first dp st) (\<lambda>st.
     bindR (in_resolve_valid dp st) (\<lambda>added. Ok (st, added)))"

text \<open>
  \<open>now\<close> is the clock and \<open>mk_sig\<close> the signature made with a key pair. The result is \<open>None\<close> when
  the decision is postponed.
\<close>

definition signable_sign ::
  "('k \<Rightarrow> digest \<Rightarrow> signature) \<Rightarrow> unix_time \<Rightarrow> round \<Rightarrow> 'k option \<Rightarrow> mempool_config \<Rightarrow> signable
   \<Rightarrow> ('e, (unit + signature) option) outcome" where
  "signable_sign mk_sig now at key_pair conf s =
     (case sg_signature s of
        Some ready \<Rightarrow> Ok (Some ready)
      | None \<Rightarrow>
          let info = vp_info (sg_valid s)
          in (case key_pair of
                Some kp \<Rightarrow>
                  if pi_round info > at then Ok None
                  else if time_sub (pi_time info) now \<ge> cc_clock_skew_millis (mc_consensus conf)
                  then Ok None
                  else bindR (round_prev at) (\<lambda>prev.
                    if pi_round info \<ge> prev then Ok (Some (Inr (mk_sig kp (pi_digest info))))
                    else Ok (Some (Inl ())))
              | None \<Rightarrow>
                  if pi_round info \<ge> at then Ok None else Ok (Some (Inl ()))))"

definition signed_of :: "signable \<Rightarrow> unit + signature \<Rightarrow> unit + signed" where
  "signed_of s res = (case res of Inl u \<Rightarrow> Inl u | Inr sig \<Rightarrow> Inr (sg_valid s, sig))"

definition in_sign ::
  "('k \<Rightarrow> digest \<Rightarrow> signature) \<Rightarrow> unix_time \<Rightarrow> round \<Rightarrow> 'k option \<Rightarrow> mempool_config \<Rightarrow> inclusion_state
   \<Rightarrow> ('e, (unit + signed) option \<times> inclusion_state) outcome" where
  "in_sign mk_sig now at key_pair conf st =
     (case in_resolved st of
        None \<Rightarrow> Ok (None, st)
      | Some (FrNotValid _) \<Rightarrow> Ok (Some (Inl ()), st)
      | Some FrClosed \<Rightarrow> Ok (Some (Inl ()), st)
      | Some (FrValid dg None) \<Rightarrow> Ok (None, st)
      | Some (FrValid dg (Some (Inl u))) \<Rightarrow> Ok (Some (Inl ()), st)
      | Some (FrValid dg (Some (Inr s))) \<Rightarrow>
          bindR (signable_sign mk_sig now at key_pair conf s) (\<lambda>res.
            case res of
              None \<Rightarrow> Ok (None, st)
            | Some r \<Rightarrow> Ok (Some (signed_of s r),
                st\<lparr>in_resolved := Some (FrValid dg (Some (Inr (s\<lparr>sg_signature := Some r\<rparr>))))\<rparr>)))"

definition in_get_or_reject :: "inclusion_state \<Rightarrow> (unit + signed) \<times> inclusion_state" where
  "in_get_or_reject st =
     (case in_resolved st of
        None \<Rightarrow> (Inl (), st\<lparr>in_resolved := Some FrClosed\<rparr>)
      | Some (FrNotValid _) \<Rightarrow> (Inl (), st)
      | Some FrClosed \<Rightarrow> (Inl (), st)
      | Some (FrValid dg None) \<Rightarrow> (Inl (), st\<lparr>in_resolved := Some (FrValid dg (Some (Inl ())))\<rparr>)
      | Some (FrValid dg (Some (Inl u))) \<Rightarrow> (Inl (), st)
      | Some (FrValid dg (Some (Inr s))) \<Rightarrow>
          let r = (case sg_signature s of Some r \<Rightarrow> r | None \<Rightarrow> Inl ())
          in (signed_of s r,
              st\<lparr>in_resolved := Some (FrValid dg (Some (Inr (s\<lparr>sg_signature := Some r\<rparr>))))\<rparr>))"

section \<open>Locations\<close>

text \<open>
  A version of a point is a shared future: not yet resolved, cancelled with its task, or ready. The
  future of a download also has the channel of peers that depend on the point, and the write-once
  sender of a broadcast that makes the download unnecessary (\<open>None\<close> until it is used).
\<close>

datatype 'a future = Pending | Cancelled | Ready 'a

datatype download_result =
    DrVerified point
  | DrIllFormed point ill_formed_reason

datatype dag_point_future =
    FutValidate (fut_task: "dag_point future") (fut_cert: cert_id)
  | FutDownload (fut_task: "dag_point future") (fut_cert: cert_id) (fut_dependers: "peer_id list")
      (fut_resolve: "download_result option")

record dag_location =
  dl_state :: inclusion_state
  dl_versions :: "(digest, dag_point_future) bmap"

definition dl_new :: dag_location where
  "dl_new = \<lparr>dl_state = in_new, dl_versions = []\<rparr>"

definition dl_first_valid :: "dag_location \<Rightarrow> dag_point_future option" where
  "dl_first_valid loc =
     (case in_valid (dl_state loc) of None \<Rightarrow> None | Some dg \<Rightarrow> bm_get (dl_versions loc) dg)"

section \<open>Decisions are final\<close>

text \<open>How the cells of a location may change: from empty to filled, never otherwise.\<close>

definition cell_le :: "'a option \<Rightarrow> 'a option \<Rightarrow> bool" where
  "cell_le c d \<longleftrightarrow> c = None \<or> c = d"

definition signable_le :: "(unit + signable) option \<Rightarrow> (unit + signable) option \<Rightarrow> bool" where
  "signable_le c d \<longleftrightarrow> c = None \<or> c = d
     \<or> (\<exists>s t. c = Some (Inr s) \<and> d = Some (Inr t) \<and> sg_valid s = sg_valid t
          \<and> cell_le (sg_signature s) (sg_signature t))"

definition resolved_le :: "first_resolved option \<Rightarrow> first_resolved option \<Rightarrow> bool" where
  "resolved_le c d \<longleftrightarrow> c = None \<or> c = d
     \<or> (\<exists>dg s t. c = Some (FrValid dg s) \<and> d = Some (FrValid dg t) \<and> signable_le s t)"

definition in_le :: "inclusion_state \<Rightarrow> inclusion_state \<Rightarrow> bool" where
  "in_le st st' \<longleftrightarrow> resolved_le (in_resolved st) (in_resolved st') \<and> cell_le (in_valid st) (in_valid st')"

lemmas in_le_defs = in_le_def resolved_le_def signable_le_def cell_le_def

lemma in_le_refl: "in_le st st"
  by (simp add: in_le_defs)

lemma in_le_trans: "in_le a b \<Longrightarrow> in_le b c \<Longrightarrow> in_le a c"
  unfolding in_le_defs by auto

text \<open>The final decision a location holds, if it is made.\<close>

definition decision :: "inclusion_state \<Rightarrow> (unit + signed) option" where
  "decision st =
     (case in_resolved st of
        None \<Rightarrow> None
      | Some (FrNotValid _) \<Rightarrow> Some (Inl ())
      | Some FrClosed \<Rightarrow> Some (Inl ())
      | Some (FrValid _ None) \<Rightarrow> None
      | Some (FrValid _ (Some (Inl _))) \<Rightarrow> Some (Inl ())
      | Some (FrValid _ (Some (Inr s))) \<Rightarrow> map_option (signed_of s) (sg_signature s))"

lemma in_le_cases:
  assumes "in_le st st'"
  obtains (unset) "in_resolved st = None" | (same) "in_resolved st' = in_resolved st"
  | (valid) dg s t where "in_resolved st = Some (FrValid dg s)" "in_resolved st' = Some (FrValid dg t)"
      "signable_le s t"
  using assms by (auto simp: in_le_def resolved_le_def)

lemma decision_mono:
  assumes "in_le st st'" "decision st = Some r"
  shows "decision st' = Some r"
  using assms(1)
proof (cases rule: in_le_cases)
  case unset
  with assms(2) show ?thesis by (simp add: decision_def)
next
  case same
  with assms(2) show ?thesis by (simp add: decision_def)
next
  case valid
  with assms(2) show ?thesis
    by (auto simp: decision_def signable_le_def cell_le_def signed_of_def split: sum.splits)
qed

lemma acquire_le:
  assumes "in_acquire pid status st = Ok (status', st')"
  shows "in_le st st'"
  using assms
  by (auto simp: in_acquire_def in_init_resolved_def in_le_defs Let_def
      split: if_splits option.splits)

lemma restore_resolved_le:
  assumes "in_restore_resolved dg status st = Ok st'"
  shows "in_le st st'"
  using assms
  by (auto simp: in_restore_resolved_def in_le_defs split: if_splits option.splits first_resolved.splits)

lemma restore_valid_le:
  assumes "in_restore_valid dg status st = Ok st'"
  shows "in_le st st'"
  using assms by (auto simp: in_restore_valid_def in_le_defs split: if_splits option.splits)

lemma acquire_restore_le:
  assumes "in_acquire_restore pid status st = Ok st'"
  shows "in_le st st'"
  using assms restore_resolved_le restore_valid_le in_le_trans
  by (fastforce simp: in_acquire_restore_def outcome_simps)

lemma resolve_first_le:
  assumes "in_resolve_first dp st = Ok st'"
  shows "in_le st st'"
  using assms
  by (auto simp: in_resolve_first_def in_le_defs split: if_splits option.splits first_resolved.splits)

lemma resolve_le:
  assumes "in_resolve dp st = Ok (st', added)"
  shows "in_le st st'"
  using assms resolve_first_le by (fastforce simp: in_resolve_def outcome_simps)

text \<open>A request for a signature either leaves the state alone or fills the signature cell.\<close>

lemma in_sign_cases:
  assumes "in_sign mk now at kp conf st = (Ok (res, st') :: ('e, (unit + signed) option \<times> inclusion_state) outcome)"
  obtains (kept) "st' = st" "res = decision st"
  | (made) dg s r where "in_resolved st = Some (FrValid dg (Some (Inr s)))" "sg_signature s = None"
      "signable_sign mk now at kp conf s = (Ok (Some r) :: ('e, (unit + signature) option) outcome)" "res = Some (signed_of s r)"
      "st' = st\<lparr>in_resolved := Some (FrValid dg (Some (Inr (s\<lparr>sg_signature := Some r\<rparr>))))\<rparr>"
proof (cases "\<exists>dg s. in_resolved st = Some (FrValid dg (Some (Inr s))) \<and> sg_signature s = None")
  case True
  then obtain dg s where s: "in_resolved st = Some (FrValid dg (Some (Inr s)))" "sg_signature s = None"
    by blast
  with assms obtain r where r:
      "signable_sign mk now at kp conf s = (Ok r :: ('e, (unit + signature) option) outcome)"
      "(case r of None \<Rightarrow> Ok (None, st) | Some r \<Rightarrow> Ok (Some (signed_of s r),
         st\<lparr>in_resolved := Some (FrValid dg (Some (Inr (s\<lparr>sg_signature := Some r\<rparr>))))\<rparr>))
         = (Ok (res, st') :: ('e, (unit + signed) option \<times> inclusion_state) outcome)"
    by (auto simp: in_sign_def outcome_simps)
  show thesis
  proof (cases r)
    case None
    with r s show thesis by (intro kept) (auto simp: decision_def)
  next
    case (Some x)
    with r s show thesis by (intro made) auto
  qed
next
  case False
  with assms show thesis
    by (intro kept; cases st)
      (auto simp: in_sign_def decision_def signable_sign_def
        split: option.splits first_resolved.splits sum.splits)
qed

lemma sign_le:
  assumes "in_sign mk now at kp conf st = Ok (res, st')"
  shows "in_le st st'"
  using assms by (cases rule: in_sign_cases) (auto simp: in_le_defs)

lemma sign_decides:
  assumes "in_sign mk now at kp conf st = Ok (Some r, st')"
  shows "decision st' = Some r"
  using assms
  by (cases rule: in_sign_cases) (auto simp: decision_def signed_of_def split: sum.splits)

lemma get_or_reject_cases:
  obtains (kept) r where "in_get_or_reject st = (r, st)" "decision st = Some r"
  | (closed) "in_resolved st = None" "in_get_or_reject st = (Inl (), st\<lparr>in_resolved := Some FrClosed\<rparr>)"
  | (unresolved) dg where "in_resolved st = Some (FrValid dg None)"
      "in_get_or_reject st = (Inl (), st\<lparr>in_resolved := Some (FrValid dg (Some (Inl ())))\<rparr>)"
  | (unsigned) dg s where "in_resolved st = Some (FrValid dg (Some (Inr s)))" "sg_signature s = None"
      "in_get_or_reject st = (Inl (), st\<lparr>in_resolved :=
         Some (FrValid dg (Some (Inr (s\<lparr>sg_signature := Some (Inl ())\<rparr>))))\<rparr>)"
proof (cases "decision st")
  case None
  then show thesis
    using closed unresolved unsigned
    by (auto simp: decision_def in_get_or_reject_def Let_def signed_of_def
        split: option.splits first_resolved.splits sum.splits)
next
  case (Some r')
  then have "in_get_or_reject st = (r', st)"
    by (cases st)
      (auto simp: decision_def in_get_or_reject_def Let_def
        split: option.splits first_resolved.splits sum.splits)
  with Some kept show thesis by auto
qed

lemma get_or_reject_le: "in_le st (snd (in_get_or_reject st))"
  by (rule get_or_reject_cases [of st]) (auto simp: in_le_defs)

lemma get_or_reject_decides: "decision (snd (in_get_or_reject st)) = Some (fst (in_get_or_reject st))"
  by (rule get_or_reject_cases [of st]) (auto simp: decision_def signed_of_def)

lemma decided_sign:
  "decision st = Some r \<Longrightarrow> in_sign mk now at kp conf st = Ok (Some r, st)"
  by (cases st)
    (auto simp: in_sign_def decision_def signable_sign_def
      split: option.splits first_resolved.splits sum.splits)

lemma decided_get_or_reject: "decision st = Some r \<Longrightarrow> in_get_or_reject st = (r, st)"
  by (rule get_or_reject_cases [of st]) (auto simp: decision_def)

inductive loc_evolves :: "inclusion_state \<Rightarrow> inclusion_state \<Rightarrow> bool" where
  stay: "loc_evolves st st"
| acquire: "loc_evolves st st1 \<Longrightarrow>
    in_acquire pid status st1 = (Ok (status', st2) :: (unit, status_stored \<times> inclusion_state) outcome)
    \<Longrightarrow> loc_evolves st st2"
| restore: "loc_evolves st st1 \<Longrightarrow>
    in_acquire_restore pid status st1 = (Ok st2 :: (unit, inclusion_state) outcome) \<Longrightarrow> loc_evolves st st2"
| resolve: "loc_evolves st st1 \<Longrightarrow>
    in_resolve dp st1 = (Ok (st2, added) :: (unit, inclusion_state \<times> valid_point option) outcome)
    \<Longrightarrow> loc_evolves st st2"
| sign: "loc_evolves st st1 \<Longrightarrow>
    in_sign mk_sig now at (kp :: peer_id option) conf st1
      = (Ok (res, st2) :: (unit, (unit + signed) option \<times> inclusion_state) outcome)
    \<Longrightarrow> loc_evolves st st2"
| reject: "loc_evolves st st1 \<Longrightarrow> in_get_or_reject st1 = (r, st2) \<Longrightarrow> loc_evolves st st2"

lemma loc_evolves_le: "loc_evolves st st' \<Longrightarrow> in_le st st'"
proof (induction rule: loc_evolves.induct)
  case (reject st st1 r st2)
  then show ?case using get_or_reject_le [of st1] in_le_trans by fastforce
qed (blast intro: in_le_refl in_le_trans acquire_le acquire_restore_le resolve_le sign_le)+

text \<open>
  C17. A signature is irreversible: once a location answered a signature request with a signature
  or a rejection, it gives the same answer for ever after, to every later request and to the
  final collection, whatever other versions are acquired, restored or resolved in between. The
  same holds of the answer of the final collection. So at most one version per location is signed.
\<close>

theorem sign_is_final:
  assumes "in_sign mk now at kp conf st = (Ok (Some r, st1) :: (unit, _) outcome)
      \<or> in_get_or_reject st = (r, st1)"
    and "loc_evolves st1 st2"
  shows "in_sign mk' now' at' kp' conf' st2
      = (Ok (Some r, st2) :: (unit, (unit + signed) option \<times> inclusion_state) outcome)
    \<and> in_get_or_reject st2 = (r, st2)"
proof -
  from assms(1) have "decision st1 = Some r"
    using sign_decides get_or_reject_decides [of st] by fastforce
  then have "decision st2 = Some r"
    using decision_mono [OF loc_evolves_le [OF assms(2)]] by blast
  then show ?thesis by (simp add: decided_sign decided_get_or_reject)
qed

text \<open>
  C25. What gets signed: a fresh signature is made only with a key at hand, over the digest of the
  first resolved version, when its round is the current or the previous one and its time is less
  than the allowed clock skew ahead of the local clock.
\<close>

theorem sign_only_recent:
  assumes "in_sign mk now at kp conf st
      = (Ok (Some (Inr (v, sig)), st') :: (unit, (unit + signed) option \<times> inclusion_state) outcome)"
    and "decision st = None"
  shows "\<exists>key dg. kp = Some key \<and> sig = mk key (pi_digest (vp_info v))
    \<and> in_resolved st = Some (FrValid dg (Some (Inr \<lparr>sg_valid = v, sg_signature = None\<rparr>)))
    \<and> pi_round (vp_info v) \<le> at \<and> at \<le> Suc (pi_round (vp_info v))
    \<and> pi_time (vp_info v) < now + cc_clock_skew_millis (mc_consensus conf)"
proof -
  from assms obtain dg s r where s: "in_resolved st = Some (FrValid dg (Some (Inr s)))"
      "signable_sign mk now at kp conf s = (Ok (Some r) :: (unit, (unit + signature) option) outcome)"
      "signed_of s r = Inr (v, sig)"
    by (cases rule: in_sign_cases) auto
  from assms(2) s(1) have unsigned: "sg_signature s = None" by (simp add: decision_def)
  from s(3) have r: "r = Inr sig" and v: "sg_valid s = v"
    by (auto simp: signed_of_def split: sum.splits)
  from s(2) unsigned r v have "\<exists>key. kp = Some key \<and> sig = mk key (pi_digest (vp_info v))
     \<and> pi_round (vp_info v) \<le> at \<and> at \<le> Suc (pi_round (vp_info v))
     \<and> pi_time (vp_info v) < now + cc_clock_skew_millis (mc_consensus conf)"
    by (auto simp: signable_sign_def Let_def time_sub_def outcome_simps split: option.splits if_splits)
  with s(1) unsigned v show ?thesis by (cases s) auto
qed

section \<open>The life of a location\<close>

text \<open>
  What the tasks of a location do (\<^verbatim>\<open>dag_point_future.rs\<close>): every version acquires the state once
  with a status that has no flags yet, the point built from the updated status resolves later, in
  any order; signature requests and the final collection come at any time. \<open>pend\<close> are the points
  between the two steps, \<open>used\<close> the digests that acquired, \<open>added\<close> the points handed to the
  threshold counter.
\<close>

fun dp_make :: "point_info \<Rightarrow> bool \<Rightarrow> ill_formed_reason \<Rightarrow> status_stored \<Rightarrow> dag_point option" where
  "dp_make info certified reason StExists = None"
| "dp_make info certified reason (StValidated s) = Some (dp_new_validated info certified s)"
| "dp_make info certified reason (StIllFormed s) =
     Some (dp_new_ill_formed (pi_id info) certified s reason)"
| "dp_make info certified reason (StNotFound s) =
     Some (dp_new_not_found (pi_round info) (pi_digest info) certified s)"

inductive loc_life ::
  "inclusion_state \<Rightarrow> dag_point set \<Rightarrow> digest set \<Rightarrow> valid_point list \<Rightarrow> bool" where
  start: "loc_life in_new {} {} []"
| acquire: "\<lbrakk>loc_life st pend used added; pi_digest info \<notin> used;
    \<not> ps_is_first_resolved status; \<not> ps_is_first_valid status;
    in_acquire (pi_id info) status st
      = (Ok (status', st') :: (unit, status_stored \<times> inclusion_state) outcome);
    dp_make info certified reason status' = Some dp\<rbrakk>
    \<Longrightarrow> loc_life st' (insert dp pend) (insert (pi_digest info) used) added"
| resolve: "\<lbrakk>loc_life st pend used added; dp \<in> pend;
    in_resolve dp st = (Ok (st', res) :: (unit, inclusion_state \<times> valid_point option) outcome)\<rbrakk>
    \<Longrightarrow> loc_life st' (pend - {dp}) used (case res of None \<Rightarrow> added | Some v \<Rightarrow> added @ [v])"
| sign: "\<lbrakk>loc_life st pend used added; in_sign mk_sig now at (kp :: peer_id option) conf st
      = (Ok (res, st') :: (unit, (unit + signed) option \<times> inclusion_state) outcome)\<rbrakk>
    \<Longrightarrow> loc_life st' pend used added"
| reject: "\<lbrakk>loc_life st pend used added; in_get_or_reject st = (r, st')\<rbrakk>
    \<Longrightarrow> loc_life st' pend used added"

definition first_valid_point :: "dag_point \<Rightarrow> bool" where
  "first_valid_point dp \<longleftrightarrow> (\<exists>v. dp = Valid v \<and> vp_first_valid v)"

text \<open>A pending point and the state agree on who is first.\<close>

definition pend_ok :: "inclusion_state \<Rightarrow> dag_point \<Rightarrow> bool" where
  "pend_ok st dp \<longleftrightarrow>
     (case in_resolved st of
        None \<Rightarrow> False
      | Some (FrValid dg _) \<Rightarrow> (dp_is_first_resolved dp \<longleftrightarrow> dg = dp_digest dp)
          \<and> (dg = dp_digest dp \<longrightarrow> dp_valid dp \<noteq> None)
      | Some (FrNotValid dg) \<Rightarrow> (dp_is_first_resolved dp \<longleftrightarrow> dg = dp_digest dp)
          \<and> (dg = dp_digest dp \<longrightarrow> dp_valid dp = None)
      | Some FrClosed \<Rightarrow> \<not> dp_is_first_resolved dp)
     \<and> (first_valid_point dp \<longleftrightarrow> in_valid st = Some (dp_digest dp))"

definition loc_digests :: "inclusion_state \<Rightarrow> digest set" where
  "loc_digests st = set_option (in_valid st) \<union>
     (case in_resolved st of Some (FrValid dg _) \<Rightarrow> {dg} | Some (FrNotValid dg) \<Rightarrow> {dg} | _ \<Rightarrow> {})"

definition life_inv ::
  "inclusion_state \<Rightarrow> dag_point set \<Rightarrow> digest set \<Rightarrow> valid_point list \<Rightarrow> bool" where
  "life_inv st pend used added \<longleftrightarrow>
     (\<forall>dp \<in> pend. pend_ok st dp \<and> dp_digest dp \<in> used)
     \<and> inj_on dp_digest pend
     \<and> loc_digests st \<subseteq> used
     \<and> (in_resolved st = None \<longrightarrow> in_valid st = None)
     \<and> length added \<le> 1
     \<and> (\<forall>v \<in> set added. in_valid st = Some (pi_digest (vp_info v))
          \<and> pi_digest (vp_info v) \<notin> dp_digest ` pend)"

lemma dp_make_facts:
  assumes "dp_make info certified reason status = Some dp"
  shows "dp_digest dp = pi_digest info" "dp_is_first_resolved dp = ps_is_first_resolved status"
    "dp_valid dp = None \<longleftrightarrow> \<not> ps_is_valid status"
    "first_valid_point dp \<longleftrightarrow> ps_is_valid status \<and> ps_is_first_valid status"
  using assms
  by (cases status; force simp: dp_new_validated_def dp_new_ill_formed_def dp_new_not_found_def
      pi_id_def first_valid_point_def split: if_splits)+

lemma ps_set_facts [simp]:
  "ps_is_valid (ps_set_first_resolved s) = ps_is_valid s"
  "ps_is_valid (ps_set_first_valid s) = ps_is_valid s"
  "ps_is_first_resolved (ps_set_first_valid s) = ps_is_first_resolved s"
  "ps_is_first_valid (ps_set_first_resolved s) = ps_is_first_valid s"
  "ps_is_valid s \<Longrightarrow> ps_is_first_valid (ps_set_first_valid s)"
  "s \<noteq> StExists \<Longrightarrow> ps_is_first_resolved (ps_set_first_resolved s)"
  "ps_set_first_valid s = StExists \<longleftrightarrow> s = StExists"
  "ps_set_first_resolved s = StExists \<longleftrightarrow> s = StExists"
  by (cases s; simp)+

text \<open>The four ways a new version can find the location.\<close>

lemma acquire_cases:
  assumes "\<not> ps_is_first_resolved status" "\<not> ps_is_first_valid status" "status \<noteq> StExists"
    and "in_resolved st = None \<longrightarrow> in_valid st = None"
  obtains (first_valid) "in_resolved st = None" "in_valid st = None" "ps_is_valid status"
      "in_acquire pid status st = (Ok (ps_set_first_valid (ps_set_first_resolved status),
         \<lparr>in_resolved = Some (FrValid (pid_digest pid) None), in_valid = Some (pid_digest pid)\<rparr>)
         :: (unit, _) outcome)"
  | (first_invalid) "in_resolved st = None" "in_valid st = None" "\<not> ps_is_valid status"
      "in_acquire pid status st = (Ok (ps_set_first_resolved status,
         st\<lparr>in_resolved := Some (FrNotValid (pid_digest pid))\<rparr>) :: (unit, _) outcome)"
  | (later_valid) "in_resolved st \<noteq> None" "in_valid st = None" "ps_is_valid status"
      "in_acquire pid status st = (Ok (ps_set_first_valid status,
         st\<lparr>in_valid := Some (pid_digest pid)\<rparr>) :: (unit, _) outcome)"
  | (later) "in_resolved st \<noteq> None" "in_valid st \<noteq> None \<or> \<not> ps_is_valid status"
      "in_acquire pid status st = (Ok (status, st) :: (unit, _) outcome)"
proof (cases "in_resolved st")
  case None
  show thesis
  proof (cases "ps_is_valid status")
    case True
    with None assms show thesis
      by (intro first_valid) (simp_all add: in_acquire_def in_init_resolved_def)
  next
    case False
    with None assms show thesis
      by (intro first_invalid) (simp_all add: in_acquire_def in_init_resolved_def)
  qed
next
  case (Some a)
  show thesis
  proof (cases "ps_is_valid status \<and> in_valid st = None")
    case True
    with Some assms show thesis by (intro later_valid) (simp_all add: in_acquire_def)
  next
    case False
    with Some assms show thesis by (intro later) (auto simp: in_acquire_def)
  qed
qed

lemma pend_ok_keep:
  assumes "in_le st st'" "in_valid st' = in_valid st" "pend_ok st dp"
  shows "pend_ok st' dp"
  using assms(1) by (cases rule: in_le_cases) (use assms(2,3) in \<open>simp_all add: pend_ok_def\<close>)

lemma life_inv_keep:
  assumes "life_inv st pend used added" "in_le st st'" "in_valid st' = in_valid st"
    and "loc_digests st' \<subseteq> used"
  shows "life_inv st' pend used added"
  using assms pend_ok_keep [OF assms(2,3)] unfolding life_inv_def
  by (auto simp: in_le_def resolved_le_def)

lemma life_inv_acquire:
  assumes inv: "life_inv st pend used added" and new: "pi_digest info \<notin> used"
    and fresh: "\<not> ps_is_first_resolved status" "\<not> ps_is_first_valid status"
    and ok: "in_acquire (pi_id info) status st
      = (Ok (status', st') :: (unit, status_stored \<times> inclusion_state) outcome)"
    and dp: "dp_make info certified reason status' = Some dp"
  shows "life_inv st' (insert dp pend) (insert (pi_digest info) used) added"
proof -
  have none: "in_resolved st = None \<longrightarrow> in_valid st = None" using inv by (simp add: life_inv_def)
  have dgs: "\<forall>q \<in> pend. dp_digest q \<noteq> pi_digest info"
    using inv new by (auto simp: life_inv_def)
  have ex: "status \<noteq> StExists"
    using ok dp none fresh
    by (cases status') (auto simp: in_acquire_def in_init_resolved_def Let_def split: option.splits if_splits)
  have empty: "pend = {} \<and> added = []" if "in_resolved st = None"
    using inv that none by (auto simp: life_inv_def pend_ok_def)
  have id: "pid_digest (pi_id info) = pi_digest info" by (simp add: pi_id_def)
  have inj: "inj_on dp_digest (insert dp pend)"
    using inv dgs dp_make_facts(1) [OF dp] by (auto simp: life_inv_def)
  note facts = dp_make_facts [OF dp]
  show ?thesis
  proof (rule acquire_cases [OF fresh ex none, of "pi_id info"])
    assume "in_resolved st = None" "ps_is_valid status"
      "in_acquire (pi_id info) status st = (Ok (ps_set_first_valid (ps_set_first_resolved status),
         \<lparr>in_resolved = Some (FrValid (pid_digest (pi_id info)) None),
           in_valid = Some (pid_digest (pi_id info))\<rparr>) :: (unit, _) outcome)"
    with ok facts ex empty show ?thesis
      by (auto simp: life_inv_def pend_ok_def loc_digests_def id)
  next
    assume "in_resolved st = None" "\<not> ps_is_valid status" "in_valid st = None"
      "in_acquire (pi_id info) status st = (Ok (ps_set_first_resolved status,
         st\<lparr>in_resolved := Some (FrNotValid (pid_digest (pi_id info)))\<rparr>) :: (unit, _) outcome)"
    with ok facts ex empty show ?thesis
      by (auto simp: life_inv_def pend_ok_def loc_digests_def id)
  next
    assume a: "in_resolved st \<noteq> None" "in_valid st = None" "ps_is_valid status"
      "in_acquire (pi_id info) status st = (Ok (ps_set_first_valid status,
         st\<lparr>in_valid := Some (pid_digest (pi_id info))\<rparr>) :: (unit, _) outcome)"
    then have "st' = st\<lparr>in_valid := Some (pi_digest info)\<rparr>" "status' = ps_set_first_valid status"
      using ok id by auto
    with a inv inj facts fresh new dgs show ?thesis
      by (auto simp: life_inv_def pend_ok_def loc_digests_def split: option.splits first_resolved.splits)
  next
    assume a: "in_resolved st \<noteq> None" "in_valid st \<noteq> None \<or> \<not> ps_is_valid status"
      "in_acquire (pi_id info) status st = (Ok (status, st) :: (unit, _) outcome)"
    then have "st' = st" "status' = status" using ok by auto
    with a inv inj facts fresh new dgs show ?thesis
      by (auto simp: life_inv_def pend_ok_def loc_digests_def split: option.splits first_resolved.splits)
  qed
qed

lemma life_resolve:
  assumes inv: "life_inv st pend used added" and dp: "dp \<in> pend"
  obtains st' res where
    "in_resolve dp st = (Ok (st', res) :: (unit, inclusion_state \<times> valid_point option) outcome)"
    "in_le st st'" "in_valid st' = in_valid st" "loc_digests st' = loc_digests st"
    "res = (if first_valid_point dp then dp_valid dp else None)"
proof -
  from inv dp have ok: "pend_ok st dp" by (simp add: life_inv_def)
  from ok obtain r where r: "in_resolved st = Some r"
    by (auto simp: pend_ok_def split: option.splits)
  have "\<exists>st'. in_resolve_first dp st = (Ok st' :: (unit, inclusion_state) outcome)
      \<and> in_valid st' = in_valid st \<and> loc_digests st' = loc_digests st"
  proof (cases r)
    case (FrValid dg sg)
    with ok r show ?thesis
      by (cases sg) (auto simp: in_resolve_first_def pend_ok_def loc_digests_def)
  qed (use ok r in \<open>auto simp: in_resolve_first_def pend_ok_def loc_digests_def\<close>)
  then obtain st' where st': "in_resolve_first dp st = (Ok st' :: (unit, inclusion_state) outcome)"
      "in_valid st' = in_valid st" "loc_digests st' = loc_digests st" by blast
  moreover have "in_resolve_valid dp st'
      = (Ok (if first_valid_point dp then dp_valid dp else None) :: (unit, valid_point option) outcome)"
    using ok st'(2)
    by (cases dp) (auto simp: in_resolve_valid_def pend_ok_def first_valid_point_def split: option.splits)
  ultimately show thesis
    using resolve_first_le [OF st'(1)]
    by (intro that [of st' "if first_valid_point dp then dp_valid dp else None"])
      (simp_all add: in_resolve_def)
qed

lemma life_inv_resolve:
  assumes inv: "life_inv st pend used added" and dp: "dp \<in> pend"
    and ok: "in_resolve dp st = (Ok (st', res) :: (unit, inclusion_state \<times> valid_point option) outcome)"
  shows "life_inv st' (pend - {dp}) used (case res of None \<Rightarrow> added | Some v \<Rightarrow> added @ [v])"
proof -
  from life_resolve [OF inv dp] ok have st': "in_le st st'" "in_valid st' = in_valid st"
      "loc_digests st' = loc_digests st" and res: "res = (if first_valid_point dp then dp_valid dp else None)"
    by (metis (no_types, lifting) outcome.inject(1) prod.inject)+
  from inv st' have inv': "life_inv st' pend used added"
    by (intro life_inv_keep [OF inv]) (auto simp: life_inv_def)
  then have rest: "life_inv st' (pend - {dp}) used added"
    by (auto simp: life_inv_def intro: inj_on_subset)
  show ?thesis
  proof (cases res)
    case None
    with rest show ?thesis by simp
  next
    case (Some v)
    with res have v: "dp = Valid v" "first_valid_point dp"
      by (auto simp: first_valid_point_def split: if_splits)
    with inv' dp have iv: "in_valid st' = Some (pi_digest (vp_info v))"
      by (auto simp: life_inv_def pend_ok_def)
    have "added = []"
    proof (rule ccontr)
      assume "added \<noteq> []"
      then obtain u where "u \<in> set added" by (cases added) auto
      with inv' have "in_valid st' = Some (pi_digest (vp_info u))"
          "pi_digest (vp_info u) \<notin> dp_digest ` pend" by (auto simp: life_inv_def)
      with iv dp v(1) show False by force
    qed
    moreover have "pi_digest (vp_info v) \<notin> dp_digest ` (pend - {dp})"
      using inv' dp v(1) by (auto simp: life_inv_def inj_on_def)
    ultimately show ?thesis using rest iv Some by (simp add: life_inv_def)
  qed
qed

lemma loc_life_inv: "loc_life st pend used added \<Longrightarrow> life_inv st pend used added"
proof (induction rule: loc_life.induct)
  case start
  show ?case by (simp add: life_inv_def in_new_def loc_digests_def)
next
  case (acquire st pend used added info status status' st' certified reason dp)
  then show ?case by (blast intro: life_inv_acquire)
next
  case (resolve st pend used added dp st' res)
  then show ?case by (blast intro: life_inv_resolve)
next
  case (sign st pend used added mk_sig now at kp conf res st')
  from sign.hyps(2) have "in_valid st' = in_valid st" "loc_digests st' = loc_digests st"
    by (cases rule: in_sign_cases; simp add: loc_digests_def)+
  with sign sign_le [OF sign.hyps(2)] show ?case
    by (intro life_inv_keep [OF sign.IH]) (auto simp: life_inv_def)
next
  case (reject st pend used added r st')
  have "in_valid (snd (in_get_or_reject st)) = in_valid st
      \<and> loc_digests (snd (in_get_or_reject st)) \<subseteq> loc_digests st"
    by (rule get_or_reject_cases [of st]) (auto simp: loc_digests_def)
  with reject get_or_reject_le [of st] show ?case
    by (intro life_inv_keep [OF reject.IH]) (auto simp: life_inv_def)
qed

text \<open>
  C18. No assertion of a location can fail during normal work: at any moment of its life a new
  version can acquire the state and every version that did can resolve, in any order and with
  signature requests in between, and at most one version is counted by the round's threshold: the
  first valid one.
\<close>

theorem location_never_panics:
  assumes life: "loc_life st pend used added"
  shows "(\<forall>dp \<in> pend. \<exists>st' res. in_resolve dp st
        = (Ok (st', res) :: (unit, inclusion_state \<times> valid_point option) outcome))
    \<and> (\<forall>pid status. \<not> ps_is_first_resolved status \<and> \<not> ps_is_first_valid status \<and> status \<noteq> StExists
        \<longrightarrow> (\<exists>status' st'. in_acquire pid status st
              = (Ok (status', st') :: (unit, status_stored \<times> inclusion_state) outcome)))
    \<and> length added \<le> 1
    \<and> (\<forall>v \<in> set added. in_valid st = Some (pi_digest (vp_info v)))"
proof -
  note inv = loc_life_inv [OF life]
  have none: "in_resolved st = None \<longrightarrow> in_valid st = None" using inv by (simp add: life_inv_def)
  have "\<exists>status' st'. in_acquire pid status st
      = (Ok (status', st') :: (unit, status_stored \<times> inclusion_state) outcome)"
    if "\<not> ps_is_first_resolved status" "\<not> ps_is_first_valid status" "status \<noteq> StExists" for pid status
    using acquire_cases [OF that none, of pid] by blast
  moreover have "\<exists>st' res. in_resolve dp st
      = (Ok (st', res) :: (unit, inclusion_state \<times> valid_point option) outcome)" if "dp \<in> pend" for dp
    using life_resolve [OF inv that] by blast
  ultimately show ?thesis using inv by (simp add: life_inv_def)
qed

text \<open>
  C29. A restart can leave a location in a state that its own assertion forbids. When a location
  was closed before its first valid version resolved, the database has a version flagged as first
  valid but none flagged as first resolved; after the restore, a second valid version of the same
  author and round panics when it acquires the location.
\<close>

theorem restored_location_panics:
  assumes "ps_is_valid restored" "ps_is_first_valid restored" "\<not> ps_is_first_resolved restored"
    and "ps_is_valid fresh" "\<not> ps_is_first_valid fresh" "\<not> ps_is_first_resolved fresh"
    and "pid_digest second \<noteq> pid_digest first"
  shows "\<exists>st. in_acquire_restore first restored in_new = (Ok st :: (unit, inclusion_state) outcome)
    \<and> in_acquire second fresh st = (Panic :: (unit, status_stored \<times> inclusion_state) outcome)"
  using assms
  by (auto simp: in_acquire_restore_def in_restore_resolved_def in_restore_valid_def in_new_def
      in_acquire_def in_init_resolved_def Let_def)

section \<open>Examples\<close>

definition ex_valid :: valid_point where
  "ex_valid = \<lparr>vp_info = ex_info, vp_first_valid = True, vp_is_first_resolved = True,
     vp_certified = False, vp_is_committed = False\<rparr>"

definition ex_signable :: inclusion_state where
  "ex_signable = \<lparr>in_resolved = Some (FrValid 60 (Some (Inr \<lparr>sg_valid = ex_valid, sg_signature = None\<rparr>))),
     in_valid = Some 60\<rparr>"

definition ex_loc_conf :: mempool_config where
  "ex_loc_conf = \<lparr>mc_consensus = \<lparr>cc_clock_skew_millis = 10, cc_payload_batch_bytes = 768,
     cc_payload_buffer_bytes = 50000, cc_commit_history_rounds = 20, cc_deduplicate_rounds = 140,
     cc_max_consensus_lag_rounds = 210, cc_sync_support_rounds = 840, cc_download_tasks = 250\<rparr>,
     mc_genesis_round = 2, mc_point_max_bytes = 0\<rparr>"

definition ex_signed :: inclusion_state where
  "ex_signed = \<lparr>in_resolved = Some (FrValid 60
     (Some (Inr \<lparr>sg_valid = ex_valid, sg_signature = Some (Inr 77)\<rparr>))), in_valid = Some 60\<rparr>"

lemma ex_sign:
  "in_sign (\<lambda>_ _. 77) 95 7 (Some (1 :: peer_id)) ex_loc_conf ex_signable
     = (Ok (Some (Inr (ex_valid, 77)), ex_signed) :: (unit, (unit + signed) option \<times> inclusion_state) outcome)"
  by (simp add: in_sign_def ex_signable_def signable_sign_def ex_valid_def ex_info_def pi_time_def
      time_sub_def ex_loc_conf_def ex_signed_def signed_of_def round_prev_def checked_sub_def)

theorem sign_is_final_witness:
  "in_get_or_reject ex_signed = (Inr (ex_valid, 77), ex_signed)"
  using sign_is_final [OF disjI1 [OF ex_sign] loc_evolves.stay,
      of "\<lambda>_ _. 0" 0 0 "None :: peer_id option" ex_loc_conf] by simp

theorem sign_only_recent_witness:
  "\<exists>key dg. Some (1 :: peer_id) = Some key \<and> in_resolved ex_signable
       = Some (FrValid dg (Some (Inr \<lparr>sg_valid = ex_valid, sg_signature = None\<rparr>)))
     \<and> pi_round (vp_info ex_valid) \<le> 7 \<and> pi_time (vp_info ex_valid) < 95 + 10"
  using sign_only_recent [OF ex_sign]
  by (simp add: decision_def ex_signable_def ex_loc_conf_def)

lemma ex_life: "\<exists>st status'. in_acquire (pi_id ex_info) (StValidated (sv_default\<lparr>sv_is_valid := True\<rparr>)) in_new
    = (Ok (status', st) :: (unit, status_stored \<times> inclusion_state) outcome)
    \<and> loc_life st {Valid ex_valid} {60} []"
proof -
  let ?status = "StValidated (sv_default\<lparr>sv_is_valid := True\<rparr>)"
  let ?status' = "StValidated (sv_default\<lparr>sv_is_valid := True, sv_is_first_resolved := True,
    sv_is_first_valid := True\<rparr>)"
  let ?st = "\<lparr>in_resolved = Some (FrValid 60 None), in_valid = Some 60\<rparr>"
  have acq: "in_acquire (pi_id ex_info) ?status in_new
      = (Ok (?status', ?st) :: (unit, status_stored \<times> inclusion_state) outcome)"
    by (simp add: in_acquire_def in_new_def in_init_resolved_def sv_default_def pi_id_def ex_info_def)
  have "loc_life ?st (insert (Valid ex_valid) {}) (insert (pi_digest ex_info) {}) []"
    by (rule loc_life.acquire [OF loc_life.start _ _ _ acq, where certified = False and reason = NotDescribed])
      (simp_all add: sv_default_def dp_new_validated_def ex_valid_def)
  then have "loc_life ?st {Valid ex_valid} {60} []" by (simp add: ex_info_def)
  with acq show ?thesis by blast
qed

theorem location_never_panics_witness:
  "\<exists>st st' res. loc_life st {Valid ex_valid} {60} []
     \<and> in_resolve (Valid ex_valid) st
         = (Ok (st', res) :: (unit, inclusion_state \<times> valid_point option) outcome)"
  using ex_life location_never_panics by (meson singletonI)

theorem restored_location_panics_witness:
  "\<exists>st. in_acquire_restore (pi_id ex_info)
        (StValidated (sv_default\<lparr>sv_is_valid := True, sv_is_first_valid := True\<rparr>)) in_new
        = (Ok st :: (unit, inclusion_state) outcome)
     \<and> in_acquire \<lparr>pid_author = 1, pid_round = 6, pid_digest = 61\<rparr>
         (StValidated (sv_default\<lparr>sv_is_valid := True\<rparr>)) st
         = (Panic :: (unit, status_stored \<times> inclusion_state) outcome)"
  by (rule restored_location_panics) (simp_all add: sv_default_def pi_id_def ex_info_def)

end
