(* ===== verification/Dag_Threshold.thy ===== *)
theory Dag_Threshold
  imports Dag_Location
begin

text \<open>
  Counting the points of a round: \<^verbatim>\<open>consensus/src/dag/threshold.rs\<close>.

  The first valid point of every author is sent through a bounded channel; a reader moves it to the
  ready map, or to a delay queue when its time is too far ahead of the local clock. Four counters
  are packed into one 32-bit atomic. A reader's \<^verbatim>\<open>select!\<close> is a list of events: a point received
  at some clock value, or the expiration of the first delayed point.

  The lemmas show that the packed counters always tell the truth and that none of the checks in
  the code can fail when every author adds one point.
\<close>

section \<open>Packed counters\<close>

record threshold_count =
  tc_target :: byte
  tc_ready :: byte
  tc_delayed :: byte
  tc_in_channel :: byte

definition tc_pack :: "threshold_count \<Rightarrow> 32 word" where
  "tc_pack c = word_of_nat (be_nat [tc_target c, tc_ready c, tc_delayed c, tc_in_channel c])"

definition tc_unpack :: "32 word \<Rightarrow> threshold_count" where
  "tc_unpack packed =
     (case be_bytes 4 packed of
        [target, ready, delayed, in_channel] \<Rightarrow> \<lparr>tc_target = target, tc_ready = ready,
          tc_delayed = delayed, tc_in_channel = in_channel\<rparr>)"

definition tc_total :: "threshold_count \<Rightarrow> (unit, nat) outcome" where
  "tc_total c =
     (case checked_add u8_max (unat (tc_ready c)) (unat (tc_delayed c)) of
        None \<Rightarrow> Panic
      | Some all \<Rightarrow> (case checked_add u8_max all (unat (tc_in_channel c)) of
          None \<Rightarrow> Panic | Some n \<Rightarrow> Ok n))"

section \<open>State and operations\<close>

text \<open>The delay queue is ordered by the time at which an entry expires.\<close>

record threshold =
  th_round :: round
  th_target_count :: nat
  th_clock_skew :: unix_time
  th_count :: "32 word"
  th_capacity :: nat
  th_channel :: "point_info list"
  th_is_reached :: bool
  th_ready :: "(peer_id, point_info) bmap"
  th_delayed :: "(unix_time \<times> point_info) list"

definition th_new :: "round \<Rightarrow> peer_count \<Rightarrow> mempool_config \<Rightarrow> threshold" where
  "th_new round peer_count conf =
     \<lparr>th_round = round, th_target_count = pc_majority peer_count,
       th_clock_skew = cc_clock_skew_millis (mc_consensus conf),
       th_count = tc_pack \<lparr>tc_target = word_of_nat (pc_majority peer_count), tc_ready = 0,
         tc_delayed = 0, tc_in_channel = 0\<rparr>,
       th_capacity = pc_full peer_count, th_channel = [], th_is_reached = False, th_ready = [],
       th_delayed = []\<rparr>"

definition th_count_of :: "threshold \<Rightarrow> threshold_count" where
  "th_count_of t = tc_unpack (th_count t)"

definition add_one_in_channel :: "32 word \<Rightarrow> (unit, 32 word) outcome" where
  "add_one_in_channel packed =
     (let count = tc_unpack packed
      in case checked_add u8_max (unat (tc_in_channel count)) 1 of
           None \<Rightarrow> Panic
         | Some n \<Rightarrow> Ok (tc_pack (count\<lparr>tc_in_channel := word_of_nat n\<rparr>)))"

definition set_decrease :: "nat \<Rightarrow> nat \<Rightarrow> nat \<Rightarrow> 32 word \<Rightarrow> (unit, 32 word) outcome" where
  "set_decrease ready_len delayed_len removed_from_channel packed =
     (if ready_len > u8_max then Panic
      else if delayed_len > u8_max then Panic
      else
        let count = tc_unpack packed
        in case checked_sub (unat (tc_in_channel count)) removed_from_channel of
             None \<Rightarrow> Panic
           | Some n \<Rightarrow> Ok (tc_pack (count\<lparr>tc_ready := word_of_nat ready_len,
               tc_delayed := word_of_nat delayed_len, tc_in_channel := word_of_nat n\<rparr>)))"

definition th_set_decrease :: "nat \<Rightarrow> threshold \<Rightarrow> (unit, threshold) outcome" where
  "th_set_decrease removed t =
     bindR (set_decrease (length (th_ready t)) (length (th_delayed t)) removed (th_count t))
       (\<lambda>count. Ok (t\<lparr>th_count := count\<rparr>))"

definition th_add :: "valid_point \<Rightarrow> threshold \<Rightarrow> (unit, threshold) outcome" where
  "th_add valid t =
     (if pi_round (vp_info valid) \<noteq> th_round t then Panic
      else bindR (add_one_in_channel (th_count t)) (\<lambda>count.
        if length (th_channel t) \<ge> th_capacity t then Panic
        else Ok (t\<lparr>th_count := count, th_channel := th_channel t @ [vp_info valid]\<rparr>)))"

definition th_push_ready :: "point_info \<Rightarrow> threshold \<Rightarrow> (unit, threshold) outcome" where
  "th_push_ready info t =
     (if bm_has (th_ready t) (pi_author info) then Panic
      else Ok (t\<lparr>th_ready := bm_insert (pi_author info) info (th_ready t)\<rparr>))"

definition th_delay :: "unix_time \<Rightarrow> unix_time \<Rightarrow> point_info \<Rightarrow> threshold \<Rightarrow> threshold" where
  "th_delay now to_delay info t =
     t\<lparr>th_delayed := insort_key fst (now + to_delay, info) (th_delayed t)\<rparr>"

datatype th_event = Recv unix_time | Expired

text \<open>
  One turn of the loop of \<^verbatim>\<open>reached\<close>; \<open>max_time\<close> is the loop's cached bound. An event that cannot
  happen (nothing to receive, nothing delayed) leaves the reader waiting.
\<close>

fun th_turn :: "th_event \<Rightarrow> unix_time \<times> threshold \<Rightarrow> (unit, unix_time \<times> threshold) outcome" where
  "th_turn (Recv now) (max_time, t) =
     (case th_channel t of
        [] \<Rightarrow> Ok (max_time, t)
      | info # rest \<Rightarrow>
          let t = t\<lparr>th_channel := rest\<rparr>;
              max_time = (if time_sub (pi_time info) max_time > 0
                          then time_add now (th_clock_skew t) else max_time);
              to_delay = time_sub (pi_time info) max_time
          in if to_delay > 0 then
               bindR (th_set_decrease 1 (th_delay now to_delay info t)) (\<lambda>t. Ok (max_time, t))
             else bindR (th_push_ready info t) (\<lambda>t.
               bindR (th_set_decrease 1 t) (\<lambda>t. Ok (max_time, t))))"
| "th_turn Expired (max_time, t) =
     (case th_delayed t of
        [] \<Rightarrow> Ok (max_time, t)
      | (_, info) # rest \<Rightarrow>
          bindR (th_push_ready info (t\<lparr>th_delayed := rest\<rparr>)) (\<lambda>t.
            bindR (th_set_decrease 0 t) (\<lambda>t. Ok (max_time, t))))"

fun th_loop :: "th_event list \<Rightarrow> unix_time \<times> threshold \<Rightarrow> (unit, threshold) outcome" where
  "th_loop events (max_time, t) =
     (if length (th_ready t) < th_target_count t then
        (case events of
           [] \<Rightarrow> Ok t
         | e # es \<Rightarrow> bindR (th_turn e (max_time, t)) (\<lambda>s. th_loop es s))
      else Ok (t\<lparr>th_is_reached := True\<rparr>))"

definition th_reached :: "unix_time \<Rightarrow> th_event list \<Rightarrow> threshold \<Rightarrow> (unit, threshold) outcome" where
  "th_reached now events t =
     (if th_is_reached t then Ok t else th_loop events (time_add now (th_clock_skew t), t))"

text \<open>The three loops of \<^verbatim>\<open>get_reached\<close>: expired delayed points, then the channel.\<close>

function th_pop_delayed :: "unix_time \<Rightarrow> unix_time \<Rightarrow> threshold \<Rightarrow> (unit, threshold) outcome" where
  "th_pop_delayed now max_time t =
     (case th_delayed t of
        [] \<Rightarrow> Ok t
      | (_, info) # rest \<Rightarrow>
          let t' = t\<lparr>th_delayed := rest\<rparr>;
              to_delay = time_sub (pi_time info) max_time
          in if to_delay > 0 then Ok (th_delay now to_delay info t')
             else if bm_has (th_ready t') (pi_author info) then Panic
             else th_pop_delayed now max_time
                    (t'\<lparr>th_ready := bm_insert (pi_author info) info (th_ready t')\<rparr>))"
  by pat_completeness auto
termination
  by (relation "measure (\<lambda>(_, _, t). length (th_delayed t))") auto

declare th_pop_delayed.simps [simp del]

definition th_drain_one ::
  "unix_time \<Rightarrow> unix_time \<Rightarrow> point_info \<Rightarrow> threshold \<Rightarrow> (unit, threshold) outcome" where
  "th_drain_one now max_time info t =
     (let to_delay = time_sub (pi_time info) max_time
      in if to_delay > 0 then Ok (th_delay now to_delay info t) else th_push_ready info t)"

definition th_get_reached :: "unix_time \<Rightarrow> threshold \<Rightarrow> (unit, point_info list \<times> threshold) outcome" where
  "th_get_reached now t =
     (if \<not> th_is_reached t then Panic
      else
        let max_time = time_add now (th_clock_skew t)
        in bindR (th_pop_delayed now max_time t) (\<lambda>t.
           if length (th_channel t) > u8_max then Panic
           else bindR (foldR (th_drain_one now max_time) (th_channel t) (t\<lparr>th_channel := []\<rparr>)) (\<lambda>t'.
             bindR (th_set_decrease (length (th_channel t)) t') (\<lambda>t'.
               Ok (map snd (th_ready t'), t')))))"

section \<open>The counters tell the truth\<close>

lemma be_nat_inj: "length as = length bs \<Longrightarrow> be_nat as = be_nat bs \<Longrightarrow> as = bs"
proof (induction as bs rule: list_induct2)
  case (Cons a as b bs)
  have "unat c = be_nat (c # cs) div 256 ^ length cs" for c and cs :: "byte list"
    using be_nat_less [of cs] by (simp add: be_nat_Cons)
  from this [of a as] this [of b bs] Cons.prems Cons.hyps have "unat a = unat b" by simp
  with Cons show ?case by (simp add: be_nat_Cons unsigned_word_eqI)
qed simp

lemma tc_unpack_pack: "tc_unpack (tc_pack c) = c"
proof -
  let ?bs = "[tc_target c, tc_ready c, tc_delayed c, tc_in_channel c]"
  have "be_nat ?bs < 2 ^ 32" using be_nat_less [of ?bs] by simp
  then have "be_nat (be_bytes 4 (word_of_nat (be_nat ?bs) :: 32 word)) = be_nat ?bs"
    by (simp add: be_nat_be_bytes unat_of_nat)
  then have "be_bytes 4 (word_of_nat (be_nat ?bs) :: 32 word) = ?bs"
    by (intro be_nat_inj) simp_all
  then show ?thesis by (simp add: tc_unpack_def tc_pack_def)
qed

definition counts_ok :: "nat \<Rightarrow> threshold \<Rightarrow> bool" where
  "counts_ok k t \<longleftrightarrow> tc_unpack (th_count t) =
     \<lparr>tc_target = word_of_nat (th_target_count t), tc_ready = word_of_nat (length (th_ready t)),
       tc_delayed = word_of_nat (length (th_delayed t)),
       tc_in_channel = word_of_nat (length (th_channel t) + k)\<rparr>"

definition chan_ok :: "nat \<Rightarrow> threshold \<Rightarrow> bool" where
  "chan_ok k t \<longleftrightarrow> tc_target (tc_unpack (th_count t)) = word_of_nat (th_target_count t)
     \<and> tc_in_channel (tc_unpack (th_count t)) = word_of_nat (length (th_channel t) + k)"

lemma chan_ok_counts: "counts_ok k t \<Longrightarrow> chan_ok k t"
  by (simp add: counts_ok_def chan_ok_def)

lemma unat_byte: "n \<le> 255 \<Longrightarrow> unat (word_of_nat n :: byte) = n"
  by (simp add: unat_of_nat)

lemma th_set_decrease_ok:
  assumes "chan_ok k t" "length (th_channel t) + k \<le> 255" "length (th_ready t) \<le> 255"
    "length (th_delayed t) \<le> 255"
  obtains c where "th_set_decrease k t = Ok (t\<lparr>th_count := c\<rparr>)" "counts_ok 0 (t\<lparr>th_count := c\<rparr>)"
proof -
  let ?n = "length (th_channel t)"
  have "unat (tc_in_channel (tc_unpack (th_count t))) = ?n + k"
    using assms(1,2) by (simp only: chan_ok_def unat_byte)
  then have "th_set_decrease k t = Ok (t\<lparr>th_count := tc_pack ((tc_unpack (th_count t))
      \<lparr>tc_ready := word_of_nat (length (th_ready t)), tc_delayed := word_of_nat (length (th_delayed t)),
        tc_in_channel := word_of_nat ?n\<rparr>)\<rparr>)"
    using assms(3,4) by (simp add: th_set_decrease_def set_decrease_def checked_sub_def u8_max_def)
  moreover have "counts_ok 0 (t\<lparr>th_count := tc_pack ((tc_unpack (th_count t))
      \<lparr>tc_ready := word_of_nat (length (th_ready t)), tc_delayed := word_of_nat (length (th_delayed t)),
        tc_in_channel := word_of_nat ?n\<rparr>)\<rparr>)"
    using assms(1) by (simp add: counts_ok_def chan_ok_def tc_unpack_pack)
  ultimately show thesis by (rule that)
qed

section \<open>Every author once\<close>

definition th_authors :: "threshold \<Rightarrow> peer_id multiset" where
  "th_authors t = mset (map fst (th_ready t)) + mset (map (\<lambda>e. pi_author (snd e)) (th_delayed t))
     + mset (map pi_author (th_channel t))"

definition th_core :: "peer_id set \<Rightarrow> threshold \<Rightarrow> bool" where
  "th_core A t \<longleftrightarrow> finite A \<and> card A \<le> 253 \<and> th_authors t = mset_set A \<and> counts_ok 0 t"

definition th_frame :: "threshold \<Rightarrow> threshold \<Rightarrow> bool" where
  "th_frame t t' \<longleftrightarrow> th_round t' = th_round t \<and> th_target_count t' = th_target_count t
     \<and> th_capacity t' = th_capacity t \<and> th_is_reached t' = th_is_reached t
     \<and> length (th_ready t) \<le> length (th_ready t')"

lemma th_inv_sizes:
  assumes "finite A" "th_authors t = mset_set A"
  shows "length (th_ready t) + length (th_delayed t) + length (th_channel t) = card A"
proof -
  have "size (th_authors t) = card A" using assms by simp
  then show ?thesis by (simp add: th_authors_def)
qed

lemma mset_bm_insert:
  "\<not> bm_has m k \<Longrightarrow> mset (bm_insert k v m) = add_mset (k, v) (mset m)"
  by (induction k v m rule: bm_insert.induct) (auto simp: bm_has_def)

text \<open>Moving a waiting point of an author who is waiting nowhere else.\<close>

lemma not_ready_yet:
  assumes "finite A" "th_authors t + {#a#} = mset_set A"
  shows "\<not> bm_has (th_ready t) a"
proof
  assume "bm_has (th_ready t) a"
  then have "a \<in># mset (map fst (th_ready t))" by (simp add: bm_has_def)
  then have "1 \<le> count (mset (map fst (th_ready t))) a" by (simp add: Suc_le_eq)
  then have "2 \<le> count (th_authors t + {#a#}) a"
    unfolding th_authors_def count_union by (simp only: count_single simp_thms if_True)
  with assms show False by (simp add: count_mset_set' split: if_splits)
qed

lemma th_push_ready_ok:
  assumes "finite A" "th_authors t + {#pi_author info#} = mset_set A"
  obtains t' where "th_push_ready info t = Ok t'" "th_authors t' = mset_set A"
    "length (th_ready t') = Suc (length (th_ready t))"
    "t' = t\<lparr>th_ready := bm_insert (pi_author info) info (th_ready t)\<rparr>"
proof -
  note new = not_ready_yet [OF assms]
  have m: "mset (bm_insert (pi_author info) info (th_ready t)) = add_mset (pi_author info, info) (mset (th_ready t))"
    by (rule mset_bm_insert [OF new])
  then have "length (bm_insert (pi_author info) info (th_ready t)) = Suc (length (th_ready t))"
    by (metis size_add_mset size_mset)
  moreover have "mset (map fst (bm_insert (pi_author info) info (th_ready t)))
      = add_mset (pi_author info) (mset (map fst (th_ready t)))"
    using m by simp
  ultimately show thesis
    using assms(2) new by (intro that) (simp_all add: th_push_ready_def th_authors_def)
qed

lemma mset_insort_key: "mset (insort_key f x xs) = add_mset x (mset xs)"
  by (induction xs) auto

lemma th_delay_authors:
  "th_authors (th_delay now d info t) = th_authors t + {#pi_author info#}"
  "length (th_delayed (th_delay now d info t)) = Suc (length (th_delayed t))"
  by (simp_all add: th_authors_def th_delay_def mset_insort_key)

lemma th_delay_frame:
  "th_frame t (th_delay now d info t)" "th_channel (th_delay now d info t) = th_channel t"
  "th_count (th_delay now d info t) = th_count t"
  by (simp_all add: th_frame_def th_delay_def)

text \<open>After a point was moved, the counters are brought up to date.\<close>

lemma th_settle:
  assumes "finite A" "card A \<le> 253" "th_authors t = mset_set A" "chan_ok k t"
    "length (th_channel t) + k \<le> 253"
  obtains t' where "th_set_decrease k t = Ok t'" "th_core A t'" "th_ready t' = th_ready t"
    "th_frame t t'"
proof -
  from th_inv_sizes [OF assms(1,3)] assms(2,5) have
    "length (th_channel t) + k \<le> 255" "length (th_ready t) \<le> 255" "length (th_delayed t) \<le> 255"
    by linarith+
  from th_set_decrease_ok [OF assms(4) this] obtain c where
    c: "th_set_decrease k t = Ok (t\<lparr>th_count := c\<rparr>)" "counts_ok 0 (t\<lparr>th_count := c\<rparr>)" .
  from c assms show thesis
    by (intro that [OF c(1)]) (simp_all add: th_core_def th_authors_def th_frame_def)
qed

lemma th_turn_ok:
  assumes core: "th_core A t"
  shows "\<exists>m' t'. th_turn e (m, t) = Ok (m', t') \<and> th_core A t' \<and> th_frame t t'"
proof -
  from core have fin: "finite A" "card A \<le> 253" and auth: "th_authors t = mset_set A"
    and cnt: "counts_ok 0 t" by (simp_all add: th_core_def)
  note sizes = th_inv_sizes [OF fin(1) auth]
  show ?thesis
  proof (cases e)
    case (Recv now)
    show ?thesis
    proof (cases "th_channel t")
      case Nil
      with core Recv show ?thesis by (simp add: th_frame_def)
    next
      case (Cons info rest)
      let ?t = "t\<lparr>th_channel := rest\<rparr>"
      let ?m = "if time_sub (pi_time info) m > 0 then time_add now (th_clock_skew t) else m"
      have moved: "th_authors ?t + {#pi_author info#} = mset_set A"
        using auth Cons by (simp add: th_authors_def)
      have chan: "chan_ok 1 ?t" "length rest + 1 \<le> 253"
        using cnt Cons sizes fin by (auto simp: counts_ok_def chan_ok_def)
      show ?thesis
      proof (cases "time_sub (pi_time info) ?m > 0")
        case True
        let ?d = "th_delay now (time_sub (pi_time info) ?m) info ?t"
        have "chan_ok 1 ?d" using chan(1) by (simp add: chan_ok_def th_delay_def)
        moreover have "th_channel ?d = rest" by (simp add: th_delay_def)
        ultimately obtain t' where "th_set_decrease 1 ?d = Ok t'" "th_core A t'" "th_frame ?d t'"
          using th_settle [OF fin, of ?d 1] moved chan(2) by (auto simp: th_delay_authors)
        then show ?thesis
          using Recv Cons True
          by (auto simp: Let_def th_frame_def th_delay_def split: if_splits)
      next
        case False
        obtain t1 where t1: "th_push_ready info ?t = Ok t1" "th_authors t1 = mset_set A"
            "t1 = ?t\<lparr>th_ready := bm_insert (pi_author info) info (th_ready ?t)\<rparr>"
            "length (th_ready t1) = Suc (length (th_ready ?t))"
          using th_push_ready_ok [OF fin(1) moved] by metis
        have "chan_ok 1 t1" using chan(1) by (simp add: chan_ok_def t1(3))
        moreover have "length (th_channel t1) + 1 \<le> 253" using chan(2) by (simp add: t1(3))
        ultimately obtain t' where "th_set_decrease 1 t1 = Ok t'" "th_core A t'" "th_frame t1 t'"
          using th_settle [OF fin t1(2)] by metis
        then show ?thesis
          using Recv Cons False t1
          by (auto simp: Let_def th_frame_def split: if_splits)
      qed
    qed
  next
    case Expired
    show ?thesis
    proof (cases "th_delayed t")
      case Nil
      with core Expired show ?thesis by (simp add: th_frame_def)
    next
      case (Cons x rest)
      obtain d info where x: "x = (d, info)" by fastforce
      let ?t = "t\<lparr>th_delayed := rest\<rparr>"
      have moved: "th_authors ?t + {#pi_author info#} = mset_set A"
        using auth Cons x by (simp add: th_authors_def)
      obtain t1 where t1: "th_push_ready info ?t = Ok t1" "th_authors t1 = mset_set A"
          "t1 = ?t\<lparr>th_ready := bm_insert (pi_author info) info (th_ready ?t)\<rparr>"
          "length (th_ready t1) = Suc (length (th_ready ?t))"
        using th_push_ready_ok [OF fin(1) moved] by metis
      have "chan_ok 0 t1" using cnt by (simp add: chan_ok_def counts_ok_def t1(3))
      moreover have "length (th_channel t1) + 0 \<le> 253" using sizes fin(2) by (simp add: t1(3))
      ultimately obtain t' where "th_set_decrease 0 t1 = Ok t'" "th_core A t'" "th_frame t1 t'"
        using th_settle [OF fin t1(2)] by metis
      then show ?thesis using Expired Cons x t1 by (auto simp: th_frame_def)
    qed
  qed
qed

lemma th_frame_trans: "th_frame a b \<Longrightarrow> th_frame b c \<Longrightarrow> th_frame a c"
  by (auto simp: th_frame_def)

lemma th_loop_ok:
  assumes "th_core A t" "\<not> th_is_reached t"
  shows "\<exists>t'. th_loop es (m, t) = Ok t' \<and> th_core A t'
    \<and> th_target_count t' = th_target_count t \<and> th_round t' = th_round t \<and> th_capacity t' = th_capacity t
    \<and> (th_is_reached t' \<longrightarrow> th_target_count t' \<le> length (th_ready t'))"
  using assms
proof (induction es arbitrary: m t)
  case Nil
  then show ?case by (auto simp: th_core_def counts_ok_def th_authors_def)
next
  case (Cons e es)
  from th_turn_ok [OF Cons.prems(1), of e m] obtain m' t1 where
    t1: "th_turn e (m, t) = Ok (m', t1)" "th_core A t1" "th_frame t t1" by blast
  with Cons.prems(2) have "\<not> th_is_reached t1" by (simp add: th_frame_def)
  from Cons.IH [OF t1(2) this, of m'] t1 Cons.prems(1) show ?case
    by (auto simp: th_frame_def th_core_def counts_ok_def th_authors_def)
qed

lemma th_pop_delayed_ok:
  assumes "finite A" "th_authors t = mset_set A"
  shows "\<exists>t'. th_pop_delayed now m t = Ok t' \<and> th_authors t' = mset_set A \<and> th_frame t t'
    \<and> th_channel t' = th_channel t \<and> th_count t' = th_count t"
  using assms
proof (induction now m t rule: th_pop_delayed.induct)
  case (1 now m t)
  show ?case
  proof (cases "th_delayed t")
    case Nil
    with 1(3) show ?thesis by (subst th_pop_delayed.simps) (simp add: th_frame_def)
  next
    case (Cons x rest)
    obtain d info where x: "x = (d, info)" by fastforce
    let ?t = "t\<lparr>th_delayed := rest\<rparr>"
    have moved: "th_authors ?t + {#pi_author info#} = mset_set A"
      using 1(3) Cons x by (simp add: th_authors_def)
    show ?thesis
    proof (cases "time_sub (pi_time info) m > 0")
      case True
      with moved Cons x show ?thesis
        using th_delay_frame(1) [of ?t now "time_sub (pi_time info) m" info]
        by (subst th_pop_delayed.simps) (simp add: th_delay_authors th_delay_frame th_frame_def)
    next
      case False
      from th_push_ready_ok [OF 1(2) moved] obtain t1 where
        t1: "th_authors t1 = mset_set A" "length (th_ready t1) = Suc (length (th_ready ?t))"
          "t1 = ?t\<lparr>th_ready := bm_insert (pi_author info) info (th_ready ?t)\<rparr>" by metis
      note new = not_ready_yet [OF 1(2) moved]
      from 1(1) [OF Cons x [symmetric] refl refl False new 1(2) t1(1) [unfolded t1(3)]]
      show ?thesis
        using t1 new by (subst th_pop_delayed.simps) (auto simp: Cons x False Let_def th_frame_def)
    qed
  qed
qed

lemma th_drain_ok:
  assumes "finite A" "th_authors t + mset (map pi_author infos) = mset_set A"
  shows "\<exists>t'. foldR (th_drain_one now m) infos t = Ok t' \<and> th_authors t' = mset_set A \<and> th_frame t t'
    \<and> th_channel t' = th_channel t \<and> th_count t' = th_count t"
  using assms
proof (induction infos arbitrary: t)
  case Nil
  then show ?case by (simp add: th_frame_def)
next
  case (Cons info infos)
  have sub: "th_authors t + {#pi_author info#} + mset (map pi_author infos) = mset_set A"
    using Cons.prems(2) by simp
  have new: "\<not> bm_has (th_ready t) (pi_author info)"
  proof
    assume "bm_has (th_ready t) (pi_author info)"
    then have "1 \<le> count (mset (map fst (th_ready t))) (pi_author info)"
      by (simp add: bm_has_def Suc_le_eq)
    then have "2 \<le> count (th_authors t + {#pi_author info#} + mset (map pi_author infos)) (pi_author info)"
      unfolding th_authors_def count_union by (simp only: count_single simp_thms if_True)
    with sub Cons.prems(1) show False by (simp add: count_mset_set' split: if_splits)
  qed
  obtain t1 where t1: "th_drain_one now m info t = Ok t1"
      "th_authors t1 + mset (map pi_author infos) = mset_set A" "th_frame t t1"
      "th_channel t1 = th_channel t" "th_count t1 = th_count t"
  proof (cases "time_sub (pi_time info) m > 0")
    case True
    with sub show thesis
      by (intro that [of "th_delay now (time_sub (pi_time info) m) info t"])
        (simp_all add: th_drain_one_def th_delay_authors th_delay_frame)
  next
    case False
    with sub new mset_bm_insert [OF new, of info] show thesis
      by (intro that [of "t\<lparr>th_ready := bm_insert (pi_author info) info (th_ready t)\<rparr>"])
        (simp_all add: th_drain_one_def th_push_ready_def th_authors_def th_frame_def
          flip: size_mset)
  qed
  from Cons.IH [OF Cons.prems(1) t1(2)] t1 show ?case
    by (auto intro: th_frame_trans)
qed

lemma th_get_reached_ok:
  assumes core: "th_core A t" and reached: "th_is_reached t"
  shows "\<exists>ps t'. th_get_reached now t = Ok (ps, t') \<and> th_core A t' \<and> th_frame t t'
    \<and> length ps = length (th_ready t')"
proof -
  from core have fin: "finite A" "card A \<le> 253" and auth: "th_authors t = mset_set A"
    and cnt: "counts_ok 0 t" by (simp_all add: th_core_def)
  let ?m = "time_add now (th_clock_skew t)"
  from th_pop_delayed_ok [OF fin(1) auth, of now ?m] obtain t1 where
    t1: "th_pop_delayed now ?m t = Ok t1" "th_authors t1 = mset_set A" "th_frame t t1"
      "th_channel t1 = th_channel t" "th_count t1 = th_count t" by blast
  let ?n = "length (th_channel t1)"
  have n: "?n \<le> 253" using th_inv_sizes [OF fin(1) t1(2)] fin(2) by linarith
  have "th_authors (t1\<lparr>th_channel := []\<rparr>) + mset (map pi_author (th_channel t1)) = mset_set A"
    using t1(2) by (simp add: th_authors_def)
  from th_drain_ok [OF fin(1) this, of now ?m] obtain t2 where
    t2: "foldR (th_drain_one now ?m) (th_channel t1) (t1\<lparr>th_channel := []\<rparr>) = Ok t2"
      "th_authors t2 = mset_set A" "th_frame (t1\<lparr>th_channel := []\<rparr>) t2" "th_channel t2 = []"
      "th_count t2 = th_count t1" by auto
  have "chan_ok ?n t2"
    using cnt t1 t2 by (simp add: chan_ok_def counts_ok_def th_frame_def)
  from th_settle [OF fin t2(2) this] t2(4) n obtain t3 where
    t3: "th_set_decrease ?n t2 = Ok t3" "th_core A t3" "th_ready t3 = th_ready t2" "th_frame t2 t3"
    by auto
  have "th_frame t t3" using t1(3) t2(3) t3(4) by (auto simp: th_frame_def)
  with reached t1 t2 t3 n show ?thesis by (simp add: th_get_reached_def u8_max_def)
qed

section \<open>The life of a counter\<close>

text \<open>
  \<open>A\<close> are the authors whose first valid point was added (a location adds at most one, see
  \<open>location_never_panics\<close>), \<open>peers\<close> the validators of the round.
\<close>

inductive th_life :: "peer_id set \<Rightarrow> peer_id set \<Rightarrow> threshold \<Rightarrow> bool" where
  fresh: "\<lbrakk>pc_try_from (card peers) = Ok f; finite peers\<rbrakk> \<Longrightarrow> th_life peers {} (th_new r f conf)"
| add: "\<lbrakk>th_life peers A t; pi_author (vp_info v) \<in> peers - A; th_add v t = Ok t'\<rbrakk>
    \<Longrightarrow> th_life peers (insert (pi_author (vp_info v)) A) t'"
| reached: "\<lbrakk>th_life peers A t; th_reached now es t = Ok t'\<rbrakk> \<Longrightarrow> th_life peers A t'"
| get: "\<lbrakk>th_life peers A t; th_get_reached now t = Ok (ps, t')\<rbrakk> \<Longrightarrow> th_life peers A t'"

definition th_inv :: "peer_id set \<Rightarrow> peer_id set \<Rightarrow> threshold \<Rightarrow> bool" where
  "th_inv peers A t \<longleftrightarrow> finite peers \<and> A \<subseteq> peers \<and> card peers \<le> th_capacity t \<and> th_capacity t \<le> 253
     \<and> th_core A t \<and> (th_is_reached t \<longrightarrow> th_target_count t \<le> length (th_ready t))"

lemma th_inv_new:
  assumes "pc_try_from (card peers) = Ok f" "finite peers"
  shows "th_inv peers {} (th_new r f conf)"
proof -
  note pc_try_from_Ok [OF assms(1)]
  then have "card peers \<le> pc_full f" "pc_full f \<le> 253" by (auto simp: bound_simps u8_max_def)
  with assms(2) show ?thesis
    by (simp add: th_inv_def th_core_def th_new_def th_authors_def counts_ok_def tc_unpack_pack)
qed

lemma th_add_ok:
  assumes inv: "th_inv peers A t" and a: "pi_author (vp_info v) \<in> peers - A"
    and r: "pi_round (vp_info v) = th_round t"
  shows "\<exists>t'. th_add v t = Ok t' \<and> th_inv peers (insert (pi_author (vp_info v)) A) t'
    \<and> th_target_count t' = th_target_count t"
proof -
  let ?a = "pi_author (vp_info v)"
  have fin: "finite A" and core: "th_core A t"
    using inv by (auto simp: th_inv_def th_core_def)
  then have sizes: "length (th_ready t) + length (th_delayed t) + length (th_channel t) = card A"
    by (intro th_inv_sizes) (simp_all add: th_core_def)
  have lt: "card A < card peers"
    using a inv by (intro psubset_card_mono) (auto simp: th_inv_def)
  then have room: "length (th_channel t) < th_capacity t" "length (th_channel t) < 253"
    and card: "card (insert ?a A) \<le> 253"
    using sizes inv a fin by (auto simp: th_inv_def)
  have "unat (tc_in_channel (tc_unpack (th_count t))) = length (th_channel t)"
    using core room(2) by (simp add: th_core_def counts_ok_def unat_byte)
  then obtain c where c: "add_one_in_channel (th_count t) = Ok c"
      "tc_unpack c = (tc_unpack (th_count t))\<lparr>tc_in_channel := word_of_nat (length (th_channel t) + 1)\<rparr>"
    using room(2) by (simp add: add_one_in_channel_def checked_add_def u8_max_def tc_unpack_pack Let_def)
  moreover have "mset_set (insert ?a A) = add_mset ?a (mset_set A)" using a fin by simp
  ultimately show ?thesis
    using inv a r room card core fin
    by (auto simp: th_add_def th_inv_def th_core_def th_authors_def counts_ok_def)
qed

lemma th_life_inv: "th_life peers A t \<Longrightarrow> th_inv peers A t"
proof (induction rule: th_life.induct)
  case (add peers A t v t')
  then have "pi_round (vp_info v) = th_round t" by (auto simp: th_add_def split: if_splits)
  with add th_add_ok [of peers A t v] show ?case by auto
next
  case (reached peers A t now es t')
  then show ?case
    using th_loop_ok [of A t es "time_add now (th_clock_skew t)"]
    by (cases "th_is_reached t") (auto simp: th_reached_def th_inv_def)
next
  case (get peers A t now ps t')
  then have "th_is_reached t" by (auto simp: th_get_reached_def split: if_splits)
  with get th_get_reached_ok [of A t now] show ?case
    by (auto simp: th_inv_def th_frame_def)
qed (simp add: th_inv_new)



end
