(* ===== verification/Mempool_Config.thy ===== *)
theory Mempool_Config
  imports Point_Model
begin

text \<open>
  Configuration of one mempool instance: \<^verbatim>\<open>consensus/src/engine/mempool_config.rs\<close> and the
  derived depths of \<^verbatim>\<open>consensus_config_ext.rs\<close>, with the alignment of the genesis round from
  \<^verbatim>\<open>dag/anchor_stage.rs\<close>.

  The alignment is \<^verbatim>\<open>u32\<close> arithmetic without checks, so it is kept at its width. The depths
  are sums of \<^verbatim>\<open>u16\<close> values computed in \<^verbatim>\<open>u32\<close> and cannot overflow.
\<close>

section \<open>Rounds the DAG keeps\<close>

definition min_front_rounds :: "consensus_config \<Rightarrow> nat" where
  "min_front_rounds c = 3 + cc_commit_history_rounds c"

definition replay_anchor_rounds :: "consensus_config \<Rightarrow> nat" where
  "replay_anchor_rounds c = cc_commit_history_rounds c + cc_deduplicate_rounds c + 2 + 2"

definition reset_rounds :: "consensus_config \<Rightarrow> nat" where
  "reset_rounds c = cc_max_consensus_lag_rounds c + cc_commit_history_rounds c
     + cc_deduplicate_rounds c + 2 + 2"

definition max_total_rounds :: "consensus_config \<Rightarrow> nat" where
  "max_total_rounds c = max (cc_sync_support_rounds c) (2 + 2) + cc_max_consensus_lag_rounds c
     + cc_commit_history_rounds c + cc_deduplicate_rounds c"

lemmas depth_defs = min_front_rounds_def replay_anchor_rounds_def reset_rounds_def
  max_total_rounds_def

section \<open>Genesis alignment\<close>

definition wave_rounds :: nat where "wave_rounds = 4"

definition align_genesis :: "32 word \<Rightarrow> 32 word" where
  "align_genesis start_round = ((start_round + 1) div 4) * 4 + 2"

section \<open>Builder\<close>

record genesis_info =
  gi_start_round :: "32 word"
  gi_genesis_millis :: nat

record merged_config =
  mm_genesis_info :: genesis_info
  mm_conf :: mempool_config
  mm_overlay_id :: "256 word"

record config_builder =
  cb_genesis_info :: "genesis_info option"
  cb_consensus_config :: "consensus_config option"

datatype config_error = LagBelowCommitDepth | BufferBelowBatch | GenesisUnknown | ConsensusUnknown

definition cb_new :: config_builder where
  "cb_new = \<lparr>cb_genesis_info = None, cb_consensus_config = None\<rparr>"

definition cb_set_consensus_config ::
  "config_builder \<Rightarrow> consensus_config \<Rightarrow> (config_error, config_builder) outcome" where
  "cb_set_consensus_config b c =
     (if \<not> cc_commit_history_rounds c \<le> cc_max_consensus_lag_rounds c then Err LagBelowCommitDepth
      else if \<not> cc_payload_batch_bytes c \<le> cc_payload_buffer_bytes c then Err BufferBelowBatch
      else Ok (b\<lparr>cb_consensus_config := Some c\<rparr>))"

definition cb_set_genesis :: "config_builder \<Rightarrow> genesis_info \<Rightarrow> config_builder" where
  "cb_set_genesis b info = b\<lparr>cb_genesis_info := Some info\<rparr>"

definition u128_be :: "nat \<Rightarrow> byte list" where
  "u128_be n = be_bytes 16 (word_of_nat n :: 128 word)"

text \<open>The bytes the overlay id is the hash of; \<open>start_round\<close> itself is not among them.\<close>

definition overlay_preimage :: "round \<Rightarrow> nat \<Rightarrow> consensus_config \<Rightarrow> byte list" where
  "overlay_preimage genesis_round genesis_millis c =
     u128_be genesis_round @ u128_be genesis_millis
     @ u128_be (cc_clock_skew_millis c) @ u128_be (cc_payload_batch_bytes c)
     @ u128_be (cc_commit_history_rounds c) @ u128_be (cc_deduplicate_rounds c)
     @ u128_be (cc_max_consensus_lag_rounds c) @ u128_be (cc_sync_support_rounds c)"

definition cb_build ::
  "(byte list \<Rightarrow> 256 word) \<Rightarrow> (nat \<Rightarrow> nat) \<Rightarrow> config_builder \<Rightarrow> (config_error, merged_config) outcome"
  where
  "cb_build blake3 bytes_max_size_hint b =
     (case cb_genesis_info b of
        None \<Rightarrow> Err GenesisUnknown
      | Some genesis_info \<Rightarrow>
          (case cb_consensus_config b of
             None \<Rightarrow> Err ConsensusUnknown
           | Some consensus \<Rightarrow>
               let genesis_round = unat (align_genesis (gi_start_round genesis_info))
               in Ok \<lparr>mm_genesis_info = genesis_info,
                      mm_conf = \<lparr>mc_consensus = consensus, mc_genesis_round = genesis_round,
                        mc_point_max_bytes = point_max_byte_size bytes_max_size_hint consensus\<rparr>,
                      mm_overlay_id = blake3 (overlay_preimage genesis_round
                        (gi_genesis_millis genesis_info) consensus)\<rparr>))"

text \<open>
  The genesis point is signed with the key derived from the overlay id; \<open>key_pair\<close> is that
  derivation.
\<close>

definition mm_genesis_author :: "(256 word \<Rightarrow> 'k) \<Rightarrow> ('k \<Rightarrow> peer_id) \<Rightarrow> merged_config \<Rightarrow> peer_id" where
  "mm_genesis_author key_pair public_key m = public_key (key_pair (mm_overlay_id m))"

definition genesis_data :: "unix_time \<Rightarrow> point_data" where
  "genesis_data millis = \<lparr>pd_includes = [], pd_witness = [], pd_evidence = [],
     pd_anchor_trigger = ToSelf, pd_anchor_proof = ToSelf, pd_time = millis,
     pd_anchor_time = millis\<rparr>"

definition mm_genesis ::
  "(digest \<Rightarrow> signature \<Rightarrow> peer_id \<Rightarrow> round \<Rightarrow> byte list list \<Rightarrow> point_data \<Rightarrow> byte list)
   \<Rightarrow> (byte list \<Rightarrow> digest) \<Rightarrow> ('k \<Rightarrow> digest \<Rightarrow> signature) \<Rightarrow> ('k \<Rightarrow> peer_id) \<Rightarrow> (256 word \<Rightarrow> 'k)
   \<Rightarrow> merged_config \<Rightarrow> ('e, point) outcome" where
  "mm_genesis write_to hash sign public_key key_pair m =
     (let kp = key_pair (mm_overlay_id m)
      in point_new write_to hash sign public_key kp (public_key kp)
           (mc_genesis_round (mm_conf m)) [] (genesis_data (gi_genesis_millis (mm_genesis_info m))))"

section \<open>Alignment at the width of a round\<close>

lemma unat_align_genesis:
  assumes "start \<noteq> - 1"
  shows "unat (align_genesis start) = (unat start + 1) div 4 * 4 + 2"
proof -
  have lt: "unat start < 2 ^ 32" using unsigned_less [of start, where ?'a = nat] by simp
  have "unat start \<noteq> 2 ^ 32 - 1"
  proof
    assume "unat start = 2 ^ 32 - 1"
    then have "unat start = unat (- 1 :: 32 word)" by (simp add: unsigned_minus_1_eq_mask mask_eq_exp_minus_1)
    with assms show False by (metis unsigned_word_eqI)
  qed
  with lt have succ: "unat (start + 1) = unat start + 1"
    by (subst unat_add_lem [THEN iffD1]) auto
  have le: "(unat start + 1) div 4 * 4 \<le> unat start + 1" by simp
  have quot: "unat ((start + 1) div 4) = (unat start + 1) div 4"
    by (simp add: unat_div succ)
  have mul: "unat ((start + 1) div 4 * 4) = (unat start + 1) div 4 * 4"
    using le lt \<open>unat start \<noteq> 2 ^ 32 - 1\<close>
    by (subst unat_mult_lem [THEN iffD1]) (auto simp: quot)
  have "(unat start + 1) div 4 < 2 ^ 30"
    using lt \<open>unat start \<noteq> 2 ^ 32 - 1\<close> by simp
  then have "(unat start + 1) div 4 * 4 + 2 < 2 ^ 32" by simp
  then show ?thesis
    unfolding align_genesis_def by (subst unat_add_lem [THEN iffD1]) (auto simp: mul)
qed

lemma align_genesis_ge_2: "2 \<le> unat (align_genesis start)"
  by (cases "start = - 1") (simp_all add: unat_align_genesis, simp add: align_genesis_def)

lemma align_genesis_mod: "unat (align_genesis start) mod 4 = 2"
proof (cases "start = - 1")
  case False
  show ?thesis unfolding unat_align_genesis [OF False] by presburger
qed (simp add: align_genesis_def)

text \<open>
  C30. Genesis alignment: for every start round below the maximum, the aligned genesis is not
  before the start round, less than one wave after it, at least 2, and at the round of a wave
  where a proof is expected. At the maximal start round the 32-bit sum wraps around and the
  genesis falls back to round 2.
\<close>

theorem align_genesis_ok:
  "(if start = - 1 then unat (align_genesis start) = 2
    else unat start \<le> unat (align_genesis start)
         \<and> unat (align_genesis start) < unat start + wave_rounds)
   \<and> 2 \<le> unat (align_genesis start) \<and> unat (align_genesis start) mod wave_rounds = 2"
proof (cases "start = - 1")
  case False
  have "unat start \<le> unat (align_genesis start)" "unat (align_genesis start) < unat start + 4"
    unfolding unat_align_genesis [OF False] by presburger+
  with False show ?thesis
    using align_genesis_ge_2 [of start] align_genesis_mod [of start] by (simp add: wave_rounds_def)
qed (simp add: align_genesis_def wave_rounds_def)

section \<open>The overlay id separates configurations\<close>

lemma length_u128_be [simp]: "length (u128_be n) = 16"
  by (simp add: u128_be_def)

lemma u128_be_inj:
  assumes "u128_be m = u128_be n" "m < 2 ^ 128" "n < 2 ^ 128"
  shows "m = n"
proof -
  from assms(1) have "(word_of_nat m :: 128 word) = word_of_nat n"
    unfolding u128_be_def by (rule be_bytes_inj) simp
  with assms(2,3) show ?thesis by (simp add: word_of_nat_eq_iff take_bit_nat_eq_self)
qed


lemma genesis_data_wf:
  "pd_is_well_formed (genesis_data t) (mc_genesis_round conf) 0 conf"
  "pd_has_well_formed_maps (genesis_data t) author r = Ok True"
  by (simp_all add: pd_is_well_formed_def pd_has_well_formed_maps_def genesis_data_def bm_has_def
      pd_is_link_well_formed_def pd_anchor_link_def)

lemma cb_build_Ok:
  assumes "cb_build blake3 hint b = Ok m"
  shows "mc_genesis_round (mm_conf m) = unat (align_genesis (gi_start_round (mm_genesis_info m)))"
    "cb_genesis_info b = Some (mm_genesis_info m)"
    "cb_consensus_config b = Some (mc_consensus (mm_conf m))"
  using assms by (auto simp: cb_build_def Let_def split: option.splits)

text \<open>
  C31. A built configuration is usable: its genesis round is at least 2 (two rounds can be taken
  below it without a panic) and a proof round, the genesis point is produced without a panic
  whenever the writer emits the fixed header, it is authored by the genesis author at the genesis
  round and passes both structural checks that a received point must pass.
\<close>

theorem genesis_well_formed:
  assumes "cb_build blake3 hint b = Ok m"
    and header: "\<And>dg sig a r pl d. 100 \<le> length (write_to dg sig a r pl d)"
  shows "2 \<le> mc_genesis_round (mm_conf m) \<and> mc_genesis_round (mm_conf m) mod wave_rounds = 2
    \<and> (\<exists>p. mm_genesis write_to hash sign public_key key_pair m = (Ok p :: (unit, point) outcome)
         \<and> pi_author (pt_info p) = mm_genesis_author key_pair public_key m
         \<and> pi_round (pt_info p) = mc_genesis_round (mm_conf m)
         \<and> pi_is_well_formed (pt_info p) (mm_conf m)
         \<and> pi_has_well_formed_maps (pt_info p) = (Ok True :: (unit, bool) outcome))"
proof -
  have "\<not> length (write_to dg sig a r pl d) < 100" for dg sig a r pl d
    using header by (simp add: not_less)
  then show ?thesis
    using cb_build_Ok(1) [OF assms(1)] align_genesis_ge_2 align_genesis_mod
      genesis_data_wf(1) [of "gi_genesis_millis (mm_genesis_info m)" "mm_conf m"]
    by (simp add: Let_def wave_rounds_def mm_genesis_def point_new_def digest_max_tl_bytes_def
        signature_max_tl_bytes_def mm_genesis_author_def pi_is_well_formed_def
        pi_has_well_formed_maps_def genesis_data_wf(2))
qed

definition ex_consensus :: consensus_config where
  "ex_consensus = \<lparr>cc_clock_skew_millis = 5000, cc_payload_batch_bytes = 768,
     cc_payload_buffer_bytes = 50000, cc_commit_history_rounds = 20, cc_deduplicate_rounds = 140,
     cc_max_consensus_lag_rounds = 210, cc_sync_support_rounds = 840, cc_download_tasks = 250\<rparr>"


definition ex_builder :: config_builder where
  "ex_builder = \<lparr>cb_genesis_info = Some \<lparr>gi_start_round = 5, gi_genesis_millis = 1000\<rparr>,
     cb_consensus_config = Some ex_consensus\<rparr>"

theorem genesis_well_formed_witness:
  "\<exists>m. cb_build (\<lambda>_. 7) (\<lambda>n. n) ex_builder = Ok m \<and> 2 \<le> mc_genesis_round (mm_conf m)
     \<and> (\<exists>p. mm_genesis (\<lambda>_ _ _ _ _ _. replicate 100 0) (\<lambda>_. 3) (\<lambda>_ _. 4) (\<lambda>k. k) (\<lambda>k. k) m
          = (Ok p :: (unit, point) outcome) \<and> pi_is_well_formed (pt_info p) (mm_conf m))"
proof -
  obtain m where m: "cb_build (\<lambda>_. 7) (\<lambda>n. n) ex_builder = Ok m"
    by (simp add: cb_build_def ex_builder_def Let_def)
  from genesis_well_formed [OF m, of "\<lambda>_ _ _ _ _ _. replicate 100 0" "\<lambda>_. 3" "\<lambda>_ _. 4" "\<lambda>k. k" "\<lambda>k. k"]
  show ?thesis using m by auto
qed

end
