(* ===== verification/Peer_Schedule.thy ===== *)
theory Peer_Schedule
  imports Mempool_Config
begin

text \<open>
  Which validators take part in which round: \<^verbatim>\<open>consensus/src/intercom/peer_schedule\<close>.

  \<open>stateless\<close> is the lock-free snapshot every component reads, \<open>stateful\<close> the same table with
  the connection state of each peer, \<open>locked\<close> wraps it with the overlay entries and the resolve
  task, and \<open>schedule\<close> is the pair that \<^verbatim>\<open>PeerSchedule\<close> updates under one lock. Hash sets are
  sets, hash maps are maps with sorted keys (no operation here depends on their order).

  The invariant \<open>sched_inv\<close> says that both tables describe the same validator sets. It holds of
  every schedule reachable through the public operations, none of which can panic; a rotation
  keeps every answer about the previous and the current epoch.
\<close>

section \<open>Epoch table lookups\<close>

text \<open>
  The slot of the table a round falls into: 3 is the scheduled next epoch, 2 the current,
  1 the previous, 0 the oldest one.
\<close>

definition epoch_slot :: "round list \<Rightarrow> round option \<Rightarrow> round \<Rightarrow> nat option" where
  "epoch_slot starts next_start r =
     (if (case next_start of None \<Rightarrow> False | Some n \<Rightarrow> n \<le> r) then Some 3
      else if starts ! 2 \<le> r then Some 2
      else if starts ! 1 \<le> r then Some 1
      else if starts ! 0 \<le> r then Some 0
      else None)"

definition epoch_lookup :: "round list \<Rightarrow> round option \<Rightarrow> 'a \<Rightarrow> 'a list \<Rightarrow> round \<Rightarrow> 'a" where
  "epoch_lookup starts next_start none slots r =
     (case epoch_slot starts next_start r of None \<Rightarrow> none | Some i \<Rightarrow> slots ! i)"

section \<open>Stateless snapshot\<close>

record stateless =
  sl_local_id :: peer_id
  sl_peer_vecs :: "peer_id list list"
  sl_peer_sets :: "peer_id set list"
  sl_epoch_starts :: "round list"
  sl_next_epoch_start :: "round option"

definition sl_new :: "peer_id \<Rightarrow> stateless" where
  "sl_new local_id = \<lparr>sl_local_id = local_id, sl_peer_vecs = replicate 4 [],
     sl_peer_sets = replicate 4 {}, sl_epoch_starts = replicate 3 round_bottom,
     sl_next_epoch_start = None\<rparr>"

definition sl_curr_epoch_start :: "stateless \<Rightarrow> round" where
  "sl_curr_epoch_start s = sl_epoch_starts s ! 2"

definition sl_peers_for :: "stateless \<Rightarrow> round \<Rightarrow> peer_id set" where
  "sl_peers_for s = epoch_lookup (sl_epoch_starts s) (sl_next_epoch_start s) {} (sl_peer_sets s)"

definition sl_peers_ordered_for :: "stateless \<Rightarrow> round \<Rightarrow> peer_id list" where
  "sl_peers_ordered_for s =
     epoch_lookup (sl_epoch_starts s) (sl_next_epoch_start s) [] (sl_peer_vecs s)"

definition sl_peers_for_array :: "stateless \<Rightarrow> round list \<Rightarrow> peer_id set list" where
  "sl_peers_for_array s rounds = map (sl_peers_for s) rounds"

text \<open>The node's own key pair is identified by its peer id.\<close>

definition sl_local_keys :: "stateless \<Rightarrow> round \<Rightarrow> peer_id option" where
  "sl_local_keys s r = (if sl_local_id s \<in> sl_peers_for s r then Some (sl_local_id s) else None)"

definition sl_set_next_peers :: "peer_id list \<Rightarrow> stateless \<Rightarrow> stateless" where
  "sl_set_next_peers peers s = s\<lparr>sl_peer_sets := (sl_peer_sets s)[3 := set peers],
     sl_peer_vecs := (sl_peer_vecs s)[3 := peers]\<rparr>"

definition sl_rotate :: "stateless \<Rightarrow> ('e, stateless) outcome" where
  "sl_rotate s =
     (if \<not> (sl_peer_sets s ! 0 = {} \<and> sl_peer_vecs s ! 0 = []) then Panic
      else case sl_next_epoch_start s of
        None \<Rightarrow> Panic
      | Some next_start \<Rightarrow>
          if \<not> next_start > sl_curr_epoch_start s then Panic
          else Ok (s\<lparr>sl_next_epoch_start := None,
                 sl_epoch_starts := rotate1 ((sl_epoch_starts s)[0 := next_start]),
                 sl_peer_sets := rotate1 (sl_peer_sets s),
                 sl_peer_vecs := rotate1 (sl_peer_vecs s)\<rparr>))"

definition sl_forget_oldest :: "stateless \<Rightarrow> stateless" where
  "sl_forget_oldest s = s\<lparr>sl_peer_sets := (sl_peer_sets s)[0 := {}],
     sl_peer_vecs := (sl_peer_vecs s)[0 := []]\<rparr>"

section \<open>Stateful table\<close>

datatype peer_state = Unknown | Resolved

record stateful =
  sf_validator_set :: "(peer_id, peer_state) bmap list"
  sf_active_subset :: "(peer_id, peer_state) bmap list"
  sf_epoch_starts :: "round list"
  sf_next_epoch_start :: "round option"
  sf_broadcast_receivers :: "peer_id set"
  sf_all_resolved :: "peer_id set"

definition sf_default :: stateful where
  "sf_default = \<lparr>sf_validator_set = replicate 4 [], sf_active_subset = replicate 4 [],
     sf_epoch_starts = replicate 3 round_bottom, sf_next_epoch_start = None,
     sf_broadcast_receivers = {}, sf_all_resolved = {}\<rparr>"

definition sf_curr_epoch_start :: "stateful \<Rightarrow> round" where
  "sf_curr_epoch_start s = sf_epoch_starts s ! 2"

definition sf_peers_state_for :: "stateful \<Rightarrow> round \<Rightarrow> (peer_id, peer_state) bmap" where
  "sf_peers_state_for s =
     epoch_lookup (sf_epoch_starts s) (sf_next_epoch_start s) [] (sf_active_subset s)"

definition sf_peer_state :: "stateful \<Rightarrow> peer_id \<Rightarrow> peer_state" where
  "sf_peer_state s peer = (if peer \<in> sf_all_resolved s then Resolved else Unknown)"

definition set_toggle :: "peer_state \<Rightarrow> peer_id \<Rightarrow> peer_id set \<Rightarrow> peer_id set" where
  "set_toggle state peer A = (case state of Unknown \<Rightarrow> A - {peer} | Resolved \<Rightarrow> insert peer A)"

definition is_stale :: "peer_id \<Rightarrow> peer_state \<Rightarrow> (peer_id, peer_state) bmap \<Rightarrow> bool" where
  "is_stale peer state m = (case bm_get m peer of None \<Rightarrow> False | Some old \<Rightarrow> old \<noteq> state)"

definition sf_set_state :: "peer_id \<Rightarrow> peer_state \<Rightarrow> stateful \<Rightarrow> bool \<times> stateful" where
  "sf_set_state peer state s =
     (let whole = map (\<lambda>m. if bm_has m peer then bm_insert peer state m else m) (sf_validator_set s);
          hits = map (is_stale peer state) (sf_active_subset s);
          active = map2 (\<lambda>hit m. if hit then bm_insert peer state m else m)
                     hits (sf_active_subset s);
          is_applied = list_ex id hits;
          is_broadcast_receiver = list_ex id (drop 2 hits)
      in (is_applied,
          s\<lparr>sf_validator_set := whole, sf_active_subset := active,
            sf_broadcast_receivers :=
              (if is_applied \<and> is_broadcast_receiver
               then set_toggle state peer (sf_broadcast_receivers s) else sf_broadcast_receivers s),
            sf_all_resolved :=
              (if is_applied then set_toggle state peer (sf_all_resolved s)
               else sf_all_resolved s)\<rparr>))"

definition states_of :: "peer_id set \<Rightarrow> peer_id list \<Rightarrow> (peer_id, peer_state) bmap" where
  "states_of resolved peers =
     fold (\<lambda>p. bm_insert p (if p \<in> resolved then Resolved else Unknown)) peers []"

definition sf_set_next_validator_set ::
  "peer_id list \<Rightarrow> peer_id set \<Rightarrow> stateful \<Rightarrow> peer_id list \<times> stateful" where
  "sf_set_next_validator_set peers all_resolved s =
     (let vs = sf_validator_set s;
          validator_set = states_of all_resolved peers;
          to_forget = filter (\<lambda>p. \<not> (bm_has (vs ! 0) p \<or> bm_has (vs ! 1) p \<or> bm_has (vs ! 2) p
                                      \<or> bm_has validator_set p)) (bm_keys (vs ! 3))
      in (to_forget,
          s\<lparr>sf_validator_set := vs[3 := validator_set], sf_all_resolved := all_resolved,
            sf_broadcast_receivers := sf_broadcast_receivers s - set to_forget\<rparr>))"

definition resolved_keys :: "(peer_id, peer_state) bmap \<Rightarrow> peer_id list" where
  "resolved_keys m = map fst (filter (\<lambda>(_, st). st = Resolved) m)"

definition sf_set_next_subset :: "peer_id list \<Rightarrow> stateful \<Rightarrow> stateful" where
  "sf_set_next_subset peers s =
     (let active = (sf_active_subset s)[3 := states_of (sf_all_resolved s) peers]
      in s\<lparr>sf_active_subset := active,
           sf_broadcast_receivers := set (resolved_keys (active ! 2) @ resolved_keys (active ! 3))\<rparr>)"

definition sf_rotate :: "stateful \<Rightarrow> ('e, stateful) outcome" where
  "sf_rotate s =
     (if \<not> (sf_validator_set s ! 0 = [] \<and> sf_active_subset s ! 0 = []) then Panic
      else case sf_next_epoch_start s of
        None \<Rightarrow> Panic
      | Some next_start \<Rightarrow>
          if \<not> next_start > sf_curr_epoch_start s then Panic
          else Ok (s\<lparr>sf_next_epoch_start := None,
                 sf_epoch_starts := rotate1 ((sf_epoch_starts s)[0 := next_start]),
                 sf_validator_set := rotate1 (sf_validator_set s),
                 sf_active_subset := rotate1 (sf_active_subset s)\<rparr>))"

definition sf_forget_oldest :: "stateful \<Rightarrow> peer_id list \<times> stateful" where
  "sf_forget_oldest s =
     (let vs = sf_validator_set s;
          gone = filter (\<lambda>(p, _). \<not> bm_has (vs ! 1) p \<and> \<not> bm_has (vs ! 2) p
                                   \<and> \<not> bm_has (vs ! 3) p) (vs ! 0);
          resolved_gone = set (resolved_keys gone)
      in (map fst gone,
          s\<lparr>sf_validator_set := vs[0 := []],
            sf_active_subset := (sf_active_subset s)[0 := []],
            sf_all_resolved := sf_all_resolved s - resolved_gone,
            sf_broadcast_receivers := sf_broadcast_receivers s - resolved_gone\<rparr>))"

section \<open>Locked part\<close>

text \<open>
  Overlay entries are the peers the node keeps connections to; \<open>is_resolved\<close> is the overlay's
  answer at the time of the call. The resolve task is the list of peers it still waits for, in
  any order; \<open>lk_updates\<close> are the messages broadcast to subscribers.
\<close>

record locked =
  lk_local_id :: peer_id
  lk_entries :: "peer_id list"
  lk_resolve_task :: "peer_id list option"
  lk_updates :: "(peer_id \<times> peer_state) list"
  lk_data :: stateful

definition lk_new :: "peer_id \<Rightarrow> peer_id list \<Rightarrow> locked" where
  "lk_new local_id entries = \<lparr>lk_local_id = local_id, lk_entries = entries,
     lk_resolve_task = None, lk_updates = [], lk_data = sf_default\<rparr>"

definition resolved_waiters :: "(peer_id \<Rightarrow> bool) \<Rightarrow> peer_id \<Rightarrow> peer_id list \<Rightarrow> peer_id list" where
  "resolved_waiters is_resolved local_id entries =
     filter (\<lambda>p. \<not> (p = local_id \<or> is_resolved p)) entries"

definition new_resolve_task :: "peer_id list \<Rightarrow> peer_id list option" where
  "new_resolve_task waiters = (if waiters = [] then None else Some waiters)"

definition lk_restart_resolve :: "(peer_id \<Rightarrow> bool) \<Rightarrow> locked \<Rightarrow> locked" where
  "lk_restart_resolve is_resolved l = l\<lparr>lk_resolve_task :=
     new_resolve_task (resolved_waiters is_resolved (lk_local_id l) (lk_entries l))\<rparr>"

definition lk_set_state :: "peer_id \<Rightarrow> peer_state \<Rightarrow> locked \<Rightarrow> bool \<times> locked" where
  "lk_set_state peer state l =
     (let (is_applied, data) = sf_set_state peer state (lk_data l)
      in (is_applied, l\<lparr>lk_data := data,
            lk_updates := (if is_applied then lk_updates l @ [(peer, state)] else lk_updates l)\<rparr>))"

definition lk_forget_oldest :: "(peer_id \<Rightarrow> bool) \<Rightarrow> locked \<Rightarrow> locked" where
  "lk_forget_oldest is_resolved l =
     (let (to_forget, data) = sf_forget_oldest (lk_data l)
      in lk_restart_resolve is_resolved
           (l\<lparr>lk_data := data, lk_entries := filter (\<lambda>p. p \<notin> set to_forget) (lk_entries l)\<rparr>))"

definition entries_insert :: "peer_id \<Rightarrow> peer_id list \<Rightarrow> peer_id list" where
  "entries_insert p es = (if p \<in> set es then es else es @ [p])"

definition lk_set_next_set :: "(peer_id \<Rightarrow> bool) \<Rightarrow> peer_id list \<Rightarrow> locked \<Rightarrow> locked" where
  "lk_set_next_set is_resolved validator_set l =
     (let entries = fold entries_insert validator_set (lk_entries l);
          all_resolved = set (filter (\<lambda>p. is_resolved p \<and> p \<noteq> lk_local_id l) entries);
          (to_forget, data) = sf_set_next_validator_set validator_set all_resolved (lk_data l)
      in lk_restart_resolve is_resolved
           (l\<lparr>lk_data := data, lk_entries := filter (\<lambda>p. p \<notin> set to_forget) entries\<rparr>))"

section \<open>The schedule\<close>

record schedule =
  ps_locked :: locked
  ps_atomic :: stateless

record init_peers =
  ip_prev_start_round :: round
  ip_prev_v_set :: "peer_id list"
  ip_prev_v_subset :: "peer_id list"
  ip_curr_start_round :: round
  ip_curr_v_set :: "peer_id list"
  ip_curr_v_subset :: "peer_id list"
  ip_next_v_set :: "peer_id list"

definition ps_new :: "peer_id \<Rightarrow> peer_id list \<Rightarrow> schedule" where
  "ps_new local_id entries = \<lparr>ps_locked = lk_new local_id entries, ps_atomic = sl_new local_id\<rparr>"

definition ps_set_next_subset ::
  "(peer_id \<Rightarrow> bool) \<Rightarrow> peer_id list \<Rightarrow> round \<Rightarrow> peer_id list \<Rightarrow> schedule \<Rightarrow> schedule" where
  "ps_set_next_subset is_resolved validator_set next_round working_subset ps =
     (if next_round \<le> sf_curr_epoch_start (lk_data (ps_locked ps)) \<or> working_subset = [] then ps
      else
        let l = lk_set_next_set is_resolved validator_set (ps_locked ps);
            data = sf_set_next_subset working_subset (lk_data l)
        in ps\<lparr>ps_locked := l\<lparr>lk_data := data\<lparr>sf_next_epoch_start := Some next_round\<rparr>\<rparr>,
              ps_atomic := (sl_set_next_peers working_subset (ps_atomic ps))
                 \<lparr>sl_next_epoch_start := Some next_round\<rparr>\<rparr>)"

definition ps_apply_scheduled_impl ::
  "(peer_id \<Rightarrow> bool) \<Rightarrow> round \<Rightarrow> schedule \<Rightarrow> ('e, schedule) outcome" where
  "ps_apply_scheduled_impl is_resolved current ps =
     (if (case sf_next_epoch_start (lk_data (ps_locked ps)) of
            None \<Rightarrow> True | Some scheduled \<Rightarrow> scheduled > current)
      then Ok ps
      else
        let l = lk_forget_oldest is_resolved (ps_locked ps)
        in bindR (sf_rotate (lk_data l)) (\<lambda>data.
           bindR (sl_rotate (sl_forget_oldest (ps_atomic ps))) (\<lambda>atomic.
             Ok (ps\<lparr>ps_locked := l\<lparr>lk_data := data\<rparr>, ps_atomic := atomic\<rparr>))))"

definition ps_apply_scheduled ::
  "(peer_id \<Rightarrow> bool) \<Rightarrow> round \<Rightarrow> schedule \<Rightarrow> ('e, schedule) outcome" where
  "ps_apply_scheduled is_resolved current ps =
     (if (case sl_next_epoch_start (ps_atomic ps) of
            None \<Rightarrow> True | Some scheduled \<Rightarrow> scheduled > current)
      then Ok ps else ps_apply_scheduled_impl is_resolved current ps)"

definition ps_set_next_set :: "(peer_id \<Rightarrow> bool) \<Rightarrow> peer_id list \<Rightarrow> schedule \<Rightarrow> schedule" where
  "ps_set_next_set is_resolved validator_set ps =
     ps\<lparr>ps_locked := lk_set_next_set is_resolved validator_set (ps_locked ps)\<rparr>"

text \<open>The common tail of \<open>init\<close> and \<open>set_peers\<close>: the current subset and the next full set.\<close>

definition ps_schedule_current ::
  "(peer_id \<Rightarrow> bool) \<Rightarrow> round \<Rightarrow> init_peers \<Rightarrow> schedule \<Rightarrow> ('e, schedule) outcome" where
  "ps_schedule_current is_resolved curr_start init ps =
     (let ps = ps_set_next_subset is_resolved (ip_curr_v_set init) curr_start
                 (ip_curr_v_subset init) ps
      in if ip_next_v_set init \<noteq> [] then
           bindR (ps_apply_scheduled_impl is_resolved curr_start ps) (\<lambda>ps.
             Ok (ps_set_next_set is_resolved (ip_next_v_set init) ps))
         else Ok ps)"

definition ps_init ::
  "(peer_id \<Rightarrow> bool) \<Rightarrow> round \<Rightarrow> peer_id \<Rightarrow> init_peers \<Rightarrow> schedule \<Rightarrow> ('e, schedule) outcome" where
  "ps_init is_resolved genesis_round genesis_author init ps =
     bindR (round_prev genesis_round) (\<lambda>before_genesis.
     bindR (ps_apply_scheduled_impl is_resolved before_genesis
             (ps_set_next_subset is_resolved [] before_genesis [genesis_author] ps)) (\<lambda>ps.
     bindR (round_next genesis_round) (\<lambda>after_genesis.
     bindR (if ip_curr_start_round init > after_genesis then
              let prev_start = max (ip_prev_start_round init) after_genesis
              in ps_apply_scheduled_impl is_resolved prev_start
                   (ps_set_next_subset is_resolved (ip_prev_v_set init) prev_start
                      (ip_prev_v_subset init) ps)
            else Ok ps) (\<lambda>ps.
       ps_schedule_current is_resolved (max (ip_curr_start_round init) after_genesis) init ps))))"

definition ps_set_peers ::
  "(peer_id \<Rightarrow> bool) \<Rightarrow> init_peers \<Rightarrow> schedule \<Rightarrow> ('e, schedule) outcome" where
  "ps_set_peers is_resolved peers ps =
     bindR (ps_apply_scheduled_impl is_resolved (ip_prev_start_round peers)
             (ps_set_next_subset is_resolved (ip_prev_v_set peers) (ip_prev_start_round peers)
                (ip_prev_v_subset peers) ps)) (\<lambda>ps.
       ps_schedule_current is_resolved (ip_curr_start_round peers) peers ps)"

text \<open>
  The updater loop: an entry removed from the overlay makes the peer unknown and restarts the
  resolve task; the task reports each resolved peer. Events about the local peer are ignored.
\<close>

definition ps_on_removed :: "(peer_id \<Rightarrow> bool) \<Rightarrow> peer_id \<Rightarrow> schedule \<Rightarrow> schedule" where
  "ps_on_removed is_resolved peer ps =
     (if peer \<noteq> lk_local_id (ps_locked ps) then
        let (restart, l) = lk_set_state peer Unknown (ps_locked ps)
        in ps\<lparr>ps_locked := (if restart then lk_restart_resolve is_resolved l else l)\<rparr>
      else ps)"

definition ps_on_resolved :: "peer_id \<Rightarrow> schedule \<Rightarrow> schedule" where
  "ps_on_resolved peer ps = ps\<lparr>ps_locked := snd (lk_set_state peer Resolved (ps_locked ps))\<rparr>"

section \<open>What a rotation keeps\<close>

text \<open>
  The contract that both tables share. A table has three epoch starts and four slots; forgetting
  empties the oldest slot, rotating moves the scheduled epoch to the current place. The lemmas
  say what a reader of the table observes.
\<close>

locale epoch_table =
  fixes starts :: "'s \<Rightarrow> round list" and next_start :: "'s \<Rightarrow> round option"
    and slots :: "'s \<Rightarrow> 'a list" and none :: 'a
    and forget :: "'s \<Rightarrow> 's" and rotate :: "'s \<Rightarrow> (unit, 's) outcome"
  assumes forget_laws: "starts (forget s) = starts s" "next_start (forget s) = next_start s"
      "slots (forget s) = (slots s)[0 := none]"
    and rotate_laws: "rotate s = Ok s' \<Longrightarrow> \<exists>n. next_start s = Some n \<and> starts s ! 2 < n
      \<and> starts s' = rotate1 ((starts s)[0 := n]) \<and> next_start s' = None
      \<and> slots s' = rotate1 (slots s)"
begin

lemma lookup_rotate:
  assumes len: "length (starts s) = 3" "length (slots s) = 4"
    and rot: "rotate (forget s) = Ok s'"
    and mono: "sorted (starts s)"
  shows "epoch_lookup (starts s') (next_start s') none (slots s') r =
    (if starts s ! 1 \<le> r then epoch_lookup (starts s) (next_start s) none (slots s) r else none)"
proof -
  from len obtain a b c where st: "starts s = [a, b, c]"
    by (auto simp: numeral_eq_Suc length_Suc_conv)
  from len obtain w x y z where sl: "slots s = [w, x, y, z]"
    by (auto simp: numeral_eq_Suc length_Suc_conv)
  from rotate_laws [OF rot] obtain n where "next_start s = Some n" "c < n"
      "starts s' = [b, c, n]" "next_start s' = None" "slots s' = [x, y, z, none]"
    by (auto simp: forget_laws st sl)
  with mono show ?thesis
    by (auto simp: epoch_lookup_def epoch_slot_def st sl)
qed

lemma rotate_sorted:
  assumes "length (starts s) = 3" "rotate (forget s) = Ok s'" "sorted (starts s)"
  shows "sorted (starts s')" "length (starts s') = 3" "next_start s' = None"
proof -
  from assms(1) obtain a b c where st: "starts s = [a, b, c]"
    by (auto simp: numeral_eq_Suc length_Suc_conv)
  from rotate_laws [OF assms(2)] obtain n where "c < n" "starts s' = [b, c, n]" "next_start s' = None"
    by (auto simp: forget_laws st)
  with assms(3) show "sorted (starts s')" "length (starts s') = 3" "next_start s' = None"
    by (auto simp: st)
qed

end

lemma sl_rotate_laws:
  "sl_rotate s = Ok s' \<Longrightarrow> (\<exists>n. sl_next_epoch_start s = Some n \<and> sl_epoch_starts s ! 2 < n
     \<and> sl_epoch_starts s' = rotate1 ((sl_epoch_starts s)[0 := n]) \<and> sl_next_epoch_start s' = None
     \<and> sl_peer_sets s' = rotate1 (sl_peer_sets s) \<and> sl_peer_vecs s' = rotate1 (sl_peer_vecs s))"
  by (auto simp: sl_rotate_def sl_curr_epoch_start_def split: if_splits option.splits)

lemma sf_rotate_laws:
  "sf_rotate s = Ok s' \<Longrightarrow> (\<exists>n. sf_next_epoch_start s = Some n \<and> sf_epoch_starts s ! 2 < n
     \<and> sf_epoch_starts s' = rotate1 ((sf_epoch_starts s)[0 := n]) \<and> sf_next_epoch_start s' = None
     \<and> sf_active_subset s' = rotate1 (sf_active_subset s))"
  by (auto simp: sf_rotate_def sf_curr_epoch_start_def split: if_splits option.splits)

interpretation sets_table: epoch_table sl_epoch_starts sl_next_epoch_start sl_peer_sets "{}"
  sl_forget_oldest sl_rotate
  by unfold_locales (auto simp: sl_forget_oldest_def dest: sl_rotate_laws)

interpretation vecs_table: epoch_table sl_epoch_starts sl_next_epoch_start sl_peer_vecs "[]"
  sl_forget_oldest sl_rotate
  by unfold_locales (auto simp: sl_forget_oldest_def dest: sl_rotate_laws)

interpretation states_table: epoch_table sf_epoch_starts sf_next_epoch_start sf_active_subset "[]"
  "\<lambda>s. snd (sf_forget_oldest s)" sf_rotate
  by unfold_locales (auto simp: sf_forget_oldest_def Let_def dest: sf_rotate_laws)

section \<open>Both tables agree\<close>

definition tables_agree :: "stateless \<Rightarrow> stateful \<Rightarrow> bool" where
  "tables_agree sl sf \<longleftrightarrow>
     length (sl_epoch_starts sl) = 3 \<and> sorted (sl_epoch_starts sl)
     \<and> sf_epoch_starts sf = sl_epoch_starts sl
     \<and> sf_next_epoch_start sf = sl_next_epoch_start sl
     \<and> (\<forall>n. sl_next_epoch_start sl = Some n \<longrightarrow> sl_epoch_starts sl ! 2 < n)
     \<and> length (sl_peer_vecs sl) = 4 \<and> length (sf_validator_set sf) = 4
     \<and> sl_peer_sets sl = map set (sl_peer_vecs sl)
     \<and> map (\<lambda>m. set (bm_keys m)) (sf_active_subset sf) = sl_peer_sets sl"

definition sched_inv :: "schedule \<Rightarrow> bool" where
  "sched_inv ps \<longleftrightarrow> tables_agree (ps_atomic ps) (lk_data (ps_locked ps))"

lemma tables_agree_lengths:
  assumes "tables_agree sl sf"
  shows "length (sl_peer_sets sl) = 4" "length (sf_active_subset sf) = 4"
proof -
  from assms show sets: "length (sl_peer_sets sl) = 4" by (simp add: tables_agree_def)
  from assms have "length (map (\<lambda>m. set (bm_keys m)) (sf_active_subset sf)) = length (sl_peer_sets sl)"
    unfolding tables_agree_def by presburger
  with sets show "length (sf_active_subset sf) = 4" by simp
qed

lemma keys_states_of: "set (bm_keys (states_of resolved peers)) = set peers"
proof -
  have "set (map fst (fold (\<lambda>p. bm_insert p (f p)) peers m)) = set (map fst m) \<union> set peers"
    for f and m :: "(peer_id, peer_state) bmap"
    by (induction peers arbitrary: m) (auto simp only: fold.simps o_apply id_apply list.set
        set_bm_insert_keys Un_insert_left Un_insert_right Un_empty_right)
  then show ?thesis by (simp add: states_of_def bm_keys_def)
qed

lemma keys_update: "bm_has m p \<Longrightarrow> set (bm_keys (bm_insert p v m)) = set (bm_keys m)"
  unfolding bm_keys_def by (subst set_bm_insert_keys) (auto simp: bm_has_def)

lemma set_state_frame:
  assumes "sf_set_state p st sf = (b, sf')"
  shows "sf_epoch_starts sf' = sf_epoch_starts sf" "sf_next_epoch_start sf' = sf_next_epoch_start sf"
    "length (sf_validator_set sf') = length (sf_validator_set sf)"
    "map (\<lambda>m. set (bm_keys m)) (sf_active_subset sf') = map (\<lambda>m. set (bm_keys m)) (sf_active_subset sf)"
proof -
  have upd: "map (\<lambda>m. set (bm_keys m))
       (map2 (\<lambda>hit m. if hit then bm_insert p st m else m) (map (is_stale p st) ms) ms)
     = map (\<lambda>m. set (bm_keys m)) ms" for ms
    by (induction ms) (auto simp: is_stale_def bm_has_iff keys_update split: option.splits)
  have "sf_active_subset sf' = map2 (\<lambda>hit m. if hit then bm_insert p st m else m)
      (map (is_stale p st) (sf_active_subset sf)) (sf_active_subset sf)"
    using assms by (auto simp: sf_set_state_def Let_def)
  then show "map (\<lambda>m. set (bm_keys m)) (sf_active_subset sf')
      = map (\<lambda>m. set (bm_keys m)) (sf_active_subset sf)"
    by (simp only: upd)
qed (use assms in \<open>auto simp: sf_set_state_def Let_def\<close>)

lemma lk_set_state_agree:
  assumes "tables_agree sl (lk_data l)"
  shows "tables_agree sl (lk_data (snd (lk_set_state p st l)))"
proof -
  obtain b sf' where sf': "sf_set_state p st (lk_data l) = (b, sf')" by fastforce
  from assms set_state_frame [OF sf'] show ?thesis
    by (simp add: tables_agree_def lk_set_state_def sf')
qed

lemma lk_set_next_set_agree:
  "tables_agree sl (lk_data l) \<Longrightarrow> tables_agree sl (lk_data (lk_set_next_set res vs l))"
  by (simp add: tables_agree_def lk_set_next_set_def lk_restart_resolve_def Let_def
      sf_set_next_validator_set_def)

lemma on_removed_inv: "sched_inv ps \<Longrightarrow> sched_inv (ps_on_removed res p ps)"
  using lk_set_state_agree [of "ps_atomic ps" "ps_locked ps" p Unknown]
  by (auto simp: sched_inv_def ps_on_removed_def lk_restart_resolve_def split: prod.splits)

lemma on_resolved_inv: "sched_inv ps \<Longrightarrow> sched_inv (ps_on_resolved p ps)"
  by (simp add: sched_inv_def ps_on_resolved_def lk_set_state_agree)

lemma set_next_set_inv: "sched_inv ps \<Longrightarrow> sched_inv (ps_set_next_set res vs ps)"
  by (simp add: sched_inv_def ps_set_next_set_def lk_set_next_set_agree)

lemma set_next_subset_inv:
  assumes "sched_inv ps"
  shows "sched_inv (ps_set_next_subset res vs r ws ps)"
proof (cases "r \<le> sf_curr_epoch_start (lk_data (ps_locked ps)) \<or> ws = []")
  case True
  with assms show ?thesis by (simp add: ps_set_next_subset_def)
next
  case False
  let ?l = "lk_set_next_set res vs (ps_locked ps)"
  have "tables_agree (ps_atomic ps) (lk_data ?l)"
    using assms by (simp add: sched_inv_def lk_set_next_set_agree)
  moreover have "sf_epoch_starts (lk_data ?l) = sf_epoch_starts (lk_data (ps_locked ps))"
    by (simp add: lk_set_next_set_def lk_restart_resolve_def Let_def sf_set_next_validator_set_def)
  ultimately show ?thesis
    using False tables_agree_lengths [of "ps_atomic ps" "lk_data ?l"]
    by (simp add: sched_inv_def tables_agree_def ps_set_next_subset_def Let_def
        sl_set_next_peers_def sf_set_next_subset_def map_update keys_states_of
        sf_curr_epoch_start_def)
qed

lemma keys_Nil: "set (bm_keys []) = {}"
  by (simp add: bm_keys_def)

lemma lk_data_forget_oldest:
  "lk_data (lk_forget_oldest res l) = snd (sf_forget_oldest (lk_data l))"
  by (simp add: lk_forget_oldest_def lk_restart_resolve_def Let_def split: prod.split)

lemma rotations_succeed:
  assumes "tables_agree sl sf" "sl_next_epoch_start sl = Some n"
  shows "\<exists>sl' sf'. sf_rotate (snd (sf_forget_oldest sf)) = (Ok sf' :: (unit, stateful) outcome)
     \<and> sl_rotate (sl_forget_oldest sl) = (Ok sl' :: (unit, stateless) outcome)
     \<and> tables_agree sl' sf'"
proof -
  from assms(1) obtain w x y z where v: "sl_peer_vecs sl = [w, x, y, z]"
    by (auto simp: tables_agree_def numeral_eq_Suc length_Suc_conv)
  from assms(1) obtain a b c where st: "sl_epoch_starts sl = [a, b, c]"
    by (auto simp: tables_agree_def numeral_eq_Suc length_Suc_conv)
  from tables_agree_lengths(2) [OF assms(1)] obtain k l m j where ac: "sf_active_subset sf = [k, l, m, j]"
    by (auto simp: numeral_eq_Suc length_Suc_conv)
  from assms(1) obtain e f g h where vs: "sf_validator_set sf = [e, f, g, h]"
    by (auto simp: tables_agree_def numeral_eq_Suc length_Suc_conv)
  from assms v st ac vs show ?thesis
    by (auto simp: tables_agree_def sf_rotate_def sl_rotate_def sf_forget_oldest_def Let_def
        sl_forget_oldest_def sf_curr_epoch_start_def sl_curr_epoch_start_def keys_Nil)
qed

lemma apply_scheduled_cases:
  assumes "sched_inv ps"
  obtains (idle) "case sl_next_epoch_start (ps_atomic ps) of None \<Rightarrow> True | Some n \<Rightarrow> r < n"
      "ps_apply_scheduled_impl res r ps = (Ok ps :: (unit, schedule) outcome)"
  | (rotated) n ps' where "sl_next_epoch_start (ps_atomic ps) = Some n" "n \<le> r"
      "ps_apply_scheduled_impl res r ps = (Ok ps' :: (unit, schedule) outcome)" "sched_inv ps'"
      "sl_rotate (sl_forget_oldest (ps_atomic ps)) = (Ok (ps_atomic ps') :: (unit, stateless) outcome)"
proof (cases "case sl_next_epoch_start (ps_atomic ps) of None \<Rightarrow> True | Some n \<Rightarrow> r < n")
  case True
  with assms show thesis
    by (intro idle) (auto simp: sched_inv_def tables_agree_def ps_apply_scheduled_impl_def)
next
  case False
  then obtain n where n: "sl_next_epoch_start (ps_atomic ps) = Some n" "n \<le> r"
    by (auto split: option.splits)
  from assms have "tables_agree (ps_atomic ps) (lk_data (ps_locked ps))" by (simp add: sched_inv_def)
  from rotations_succeed [OF this n(1)] obtain sl' sf' where
    ok: "sf_rotate (snd (sf_forget_oldest (lk_data (ps_locked ps)))) = (Ok sf' :: (unit, stateful) outcome)"
      "sl_rotate (sl_forget_oldest (ps_atomic ps)) = (Ok sl' :: (unit, stateless) outcome)"
      "tables_agree sl' sf'" by auto
  from assms n have "sf_next_epoch_start (lk_data (ps_locked ps)) = Some n"
    by (simp add: sched_inv_def tables_agree_def)
  with n ok show thesis
    by (intro rotated [OF n, of "ps\<lparr>ps_locked := (lk_forget_oldest res (ps_locked ps))\<lparr>lk_data := sf'\<rparr>,
          ps_atomic := sl'\<rparr>"])
      (simp_all add: ps_apply_scheduled_impl_def Let_def lk_data_forget_oldest sched_inv_def)
qed

lemma apply_scheduled_inv:
  assumes "sched_inv ps"
  shows "\<exists>ps'. ps_apply_scheduled_impl res r ps = (Ok ps' :: (unit, schedule) outcome) \<and> sched_inv ps'"
  by (rule apply_scheduled_cases [OF assms, of r res]) (use assms in auto)

lemma apply_scheduled_outer:
  "sched_inv ps \<Longrightarrow> ps_apply_scheduled res r ps = ps_apply_scheduled_impl res r ps"
  by (auto simp: ps_apply_scheduled_def ps_apply_scheduled_impl_def sched_inv_def tables_agree_def
      split: option.splits)

lemma ps_new_inv: "sched_inv (ps_new local_id entries)"
  by (simp add: sched_inv_def tables_agree_def ps_new_def lk_new_def sl_new_def sf_default_def
      round_bottom_def bm_keys_def)

lemma schedule_current_inv:
  assumes "sched_inv ps"
  shows "\<exists>ps'. ps_schedule_current res start ini ps = (Ok ps' :: (unit, schedule) outcome) \<and> sched_inv ps'"
  using apply_scheduled_inv [OF set_next_subset_inv [OF assms], of res start res "ip_curr_v_set ini"
      start "ip_curr_v_subset ini"] assms
  by (auto simp: ps_schedule_current_def Let_def set_next_set_inv set_next_subset_inv)

lemma ps_set_peers_inv:
  assumes "sched_inv ps"
  shows "\<exists>ps'. ps_set_peers res peers ps = (Ok ps' :: (unit, schedule) outcome) \<and> sched_inv ps'"
proof -
  from apply_scheduled_inv [OF set_next_subset_inv [OF assms]] obtain ps1 where
    1: "ps_apply_scheduled_impl res (ip_prev_start_round peers)
          (ps_set_next_subset res (ip_prev_v_set peers) (ip_prev_start_round peers)
            (ip_prev_v_subset peers) ps) = (Ok ps1 :: (unit, schedule) outcome)" "sched_inv ps1"
    by blast
  from 1 schedule_current_inv [OF 1(2)] show ?thesis by (simp add: ps_set_peers_def)
qed

lemma ps_init_inv:
  assumes "sched_inv ps" "0 < g" "g < u32_max"
  shows "\<exists>ps'. ps_init res g author ini ps = (Ok ps' :: (unit, schedule) outcome) \<and> sched_inv ps'"
proof -
  from assms(2) obtain h where h: "g = Suc h" by (cases g) auto
  from apply_scheduled_inv [OF set_next_subset_inv [OF assms(1)]] obtain ps1 where
    1: "ps_apply_scheduled_impl res h (ps_set_next_subset res [] h [author] ps)
          = (Ok ps1 :: (unit, schedule) outcome)" "sched_inv ps1" by blast
  let ?prev = "max (ip_prev_start_round ini) (Suc g)"
  from apply_scheduled_inv [OF set_next_subset_inv [OF 1(2)]] obtain ps2 where
    2: "ps_apply_scheduled_impl res ?prev (ps_set_next_subset res (ip_prev_v_set ini) ?prev
          (ip_prev_v_subset ini) ps1) = (Ok ps2 :: (unit, schedule) outcome)" "sched_inv ps2" by blast
  show ?thesis
    using 1 2 assms(3) schedule_current_inv [OF 1(2)] schedule_current_inv [OF 2(2)]
    by (simp add: ps_init_def h round_next_lt)
qed

section \<open>Reachable schedules\<close>

inductive sched_reach :: "schedule \<Rightarrow> bool" where
  fresh: "sched_reach (ps_new local_id entries)"
| init: "\<lbrakk>sched_reach ps; 0 < g; g < u32_max;
    ps_init res g author ini ps = (Ok ps' :: (unit, schedule) outcome)\<rbrakk> \<Longrightarrow> sched_reach ps'"
| set_peers: "\<lbrakk>sched_reach ps; ps_set_peers res peers ps = (Ok ps' :: (unit, schedule) outcome)\<rbrakk>
    \<Longrightarrow> sched_reach ps'"
| apply_scheduled: "\<lbrakk>sched_reach ps; ps_apply_scheduled res r ps = (Ok ps' :: (unit, schedule) outcome)\<rbrakk>
    \<Longrightarrow> sched_reach ps'"
| removed: "sched_reach ps \<Longrightarrow> sched_reach (ps_on_removed res p ps)"
| resolved: "sched_reach ps \<Longrightarrow> sched_reach (ps_on_resolved p ps)"

lemma sched_reach_inv: "sched_reach ps \<Longrightarrow> sched_inv ps"
proof (induction rule: sched_reach.induct)
  case (init ps g res author ini ps')
  then show ?case using ps_init_inv [of ps g res author ini] by auto
next
  case (set_peers ps res peers ps')
  then show ?case using ps_set_peers_inv [of ps res peers] by auto
next
  case (apply_scheduled ps res r ps')
  then show ?case
    using apply_scheduled_inv [of ps res r] apply_scheduled_outer [of ps res r, where ?'a = unit] by auto
qed (simp_all add: ps_new_inv on_removed_inv on_resolved_inv)

lemma epoch_lookup_map: "length xs = 4 \<Longrightarrow> f e = e' \<Longrightarrow> starts' = starts \<Longrightarrow> nxt' = nxt \<Longrightarrow>
  f (epoch_lookup starts nxt e xs r) = epoch_lookup starts' nxt' e' (map f xs) r"
  by (auto simp: epoch_lookup_def epoch_slot_def split: option.split)

text \<open>
  C21. The lock-free snapshot and the stateful table never diverge: in every schedule reachable
  through the public operations, for every round, the peers with a connection state, the peer set
  and the ordered peer list name the same validators.
\<close>

theorem schedule_views_agree:
  assumes "sched_reach ps"
  shows "set (bm_keys (sf_peers_state_for (lk_data (ps_locked ps)) r)) = sl_peers_for (ps_atomic ps) r
    \<and> set (sl_peers_ordered_for (ps_atomic ps) r) = sl_peers_for (ps_atomic ps) r"
proof -
  from sched_reach_inv [OF assms] have ag: "tables_agree (ps_atomic ps) (lk_data (ps_locked ps))"
    by (simp add: sched_inv_def)
  note len = tables_agree_lengths [OF ag]
  have "set (bm_keys (sf_peers_state_for (lk_data (ps_locked ps)) r)) = sl_peers_for (ps_atomic ps) r"
    unfolding sf_peers_state_for_def sl_peers_for_def using ag len
    by (subst epoch_lookup_map [where f = "\<lambda>m. set (bm_keys m)" and e' = "{}"])
      (auto simp: tables_agree_def keys_Nil)
  moreover have "set (sl_peers_ordered_for (ps_atomic ps) r) = sl_peers_for (ps_atomic ps) r"
    unfolding sl_peers_ordered_for_def sl_peers_for_def using ag len
    by (subst epoch_lookup_map [where f = set and e' = "{}"]) (auto simp: tables_agree_def)
  ultimately show ?thesis by simp
qed

text \<open>
  C22. Applying the schedule never panics and never rewrites history: in a reachable schedule the
  call returns, and afterwards every round of the previous epoch or later has the same validators
  as before; when the epoch changes, only the oldest epoch is forgotten.
\<close>

theorem apply_scheduled_keeps_epochs:
  assumes "sched_reach ps"
  shows "\<exists>ps'. ps_apply_scheduled res current ps = (Ok ps' :: (unit, schedule) outcome)
    \<and> (case sl_next_epoch_start (ps_atomic ps) of
         None \<Rightarrow> ps' = ps
       | Some n \<Rightarrow> if current < n then ps' = ps else
           sl_curr_epoch_start (ps_atomic ps') = n
           \<and> (\<forall>r. sl_peers_for (ps_atomic ps') r =
               (if sl_epoch_starts (ps_atomic ps) ! 1 \<le> r then sl_peers_for (ps_atomic ps) r else {})))"
proof -
  note inv = sched_reach_inv [OF assms]
  then have ag: "tables_agree (ps_atomic ps) (lk_data (ps_locked ps))" by (simp add: sched_inv_def)
  then have shape: "length (sl_epoch_starts (ps_atomic ps)) = 3" "sorted (sl_epoch_starts (ps_atomic ps))"
    by (simp_all add: tables_agree_def)
  show ?thesis
  proof (rule apply_scheduled_cases [OF inv, of current res])
    assume "case sl_next_epoch_start (ps_atomic ps) of None \<Rightarrow> True | Some n \<Rightarrow> current < n"
      "ps_apply_scheduled_impl res current ps = (Ok ps :: (unit, schedule) outcome)"
    then show ?thesis
      by (auto simp: apply_scheduled_outer [OF inv] split: option.splits)
  next
    fix n ps'
    assume n: "sl_next_epoch_start (ps_atomic ps) = Some n" "n \<le> current"
      and ok: "ps_apply_scheduled_impl res current ps = (Ok ps' :: (unit, schedule) outcome)"
      and rot: "sl_rotate (sl_forget_oldest (ps_atomic ps)) = (Ok (ps_atomic ps') :: (unit, stateless) outcome)"
    from sets_table.lookup_rotate [OF shape(1) tables_agree_lengths(1) [OF ag] rot shape(2)]
    have "sl_peers_for (ps_atomic ps') r = (if sl_epoch_starts (ps_atomic ps) ! 1 \<le> r
        then sl_peers_for (ps_atomic ps) r else {})" for r
      by (simp add: sl_peers_for_def)
    moreover have "sl_curr_epoch_start (ps_atomic ps') = n"
      using sl_rotate_laws [OF rot] n shape(1)
      by (auto simp: sl_curr_epoch_start_def sl_forget_oldest_def numeral_eq_Suc length_Suc_conv)
    ultimately show ?thesis
      using n ok by (simp add: apply_scheduled_outer [OF inv])
  qed
qed

definition ex_peers :: init_peers where
  "ex_peers = \<lparr>ip_prev_start_round = 3, ip_prev_v_set = [1, 2, 3], ip_prev_v_subset = [1, 2, 3],
     ip_curr_start_round = 10, ip_curr_v_set = [1, 2, 3, 4], ip_curr_v_subset = [2, 3, 4],
     ip_next_v_set = []\<rparr>"

lemma ex_sched_reach:
  "\<exists>ps. ps_set_peers (\<lambda>_. True) ex_peers (ps_new 1 []) = (Ok ps :: (unit, schedule) outcome) \<and> sched_reach ps"
  using ps_set_peers_inv [OF ps_new_inv] sched_reach.set_peers [OF sched_reach.fresh] by blast

theorem schedule_views_agree_witness:
  "\<exists>ps. ps_set_peers (\<lambda>_. True) ex_peers (ps_new 1 []) = (Ok ps :: (unit, schedule) outcome)
     \<and> set (bm_keys (sf_peers_state_for (lk_data (ps_locked ps)) 12)) = sl_peers_for (ps_atomic ps) 12"
  using ex_sched_reach schedule_views_agree by blast

theorem apply_scheduled_keeps_epochs_witness:
  "\<exists>ps ps'. ps_set_peers (\<lambda>_. True) ex_peers (ps_new 1 []) = (Ok ps :: (unit, schedule) outcome)
     \<and> ps_apply_scheduled (\<lambda>_. True) 11 ps = (Ok ps' :: (unit, schedule) outcome)"
  using ex_sched_reach apply_scheduled_keeps_epochs by blast

end
