(* ===== verification/Anchor_Stage.thy ===== *)
theory Anchor_Stage
  imports Peer_Schedule
begin

text \<open>
  Leaders of the DAG: \<^verbatim>\<open>consensus/src/dag/anchor_stage.rs\<close>. Every four rounds one leader is drawn
  from the ordered validators with a generator seeded by the wave's first round; the leader's
  points at the third and fourth round of the wave are the proof and the trigger of its anchor.

  \<open>gen_range seed n\<close> is the value that the seeded generator draws below \<open>n\<close>.
\<close>

record anchor_stage =
  as_role :: anchor_role
  as_leader :: peer_id
  as_is_used :: bool

definition stage_role :: "round \<Rightarrow> anchor_role option" where
  "stage_role r = (if r mod wave_rounds = 2 then Some Proof
                   else if r mod wave_rounds = 3 then Some Trigger else None)"

definition anchor_candidate_round :: "round \<Rightarrow> mempool_config \<Rightarrow> round" where
  "anchor_candidate_round r conf = max ((r div wave_rounds) * wave_rounds) (mc_genesis_round conf)"

definition anchor_stage_of ::
  "(nat \<Rightarrow> nat \<Rightarrow> nat) \<Rightarrow> round \<Rightarrow> stateless \<Rightarrow> mempool_config \<Rightarrow> ('e, anchor_stage option) outcome"
  where
  "anchor_stage_of gen_range r peer_schedule conf =
     (let candidate = anchor_candidate_round r conf;
          ordered_peers = sl_peers_ordered_for peer_schedule candidate;
          current_peers = sl_peers_for peer_schedule r
      in if ordered_peers = [] then Panic
         else
           let leader_index = gen_range candidate (length ordered_peers)
           in if \<not> leader_index < length ordered_peers then Panic
              else
                let leader = ordered_peers ! leader_index
                in if leader \<notin> current_peers then Ok None
                   else Ok (map_option (\<lambda>role. \<lparr>as_role = role, as_leader = leader,
                              as_is_used = (r = mc_genesis_round conf)\<rparr>) (stage_role r)))"

lemma anchor_stage_of_Some:
  assumes "anchor_stage_of gen r sl conf = Ok (Some st)"
  shows "stage_role r = Some (as_role st)" "as_leader st \<in> sl_peers_for sl r"
    "as_is_used st \<longleftrightarrow> r = mc_genesis_round conf"
    "as_leader st = sl_peers_ordered_for sl (anchor_candidate_round r conf)
       ! gen (anchor_candidate_round r conf)
           (length (sl_peers_ordered_for sl (anchor_candidate_round r conf)))"
    "as_leader st \<in> set (sl_peers_ordered_for sl (anchor_candidate_round r conf))"
  using assms by (auto simp: anchor_stage_of_def Let_def split: if_splits)

lemma stage_role_same_wave:
  assumes "r div wave_rounds = r' div wave_rounds"
  shows "stage_role r = Some x \<Longrightarrow> stage_role r' = Some x \<Longrightarrow> r = r'"
    "stage_role r = Some Proof \<Longrightarrow> stage_role r' = Some Trigger \<Longrightarrow> r' = Suc r"
proof -
  from assms have "r div 4 = r' div 4" by (simp add: wave_rounds_def)
  with div_mult_mod_eq [of r 4] div_mult_mod_eq [of r' 4]
  have "r mod 4 = r' mod 4 \<Longrightarrow> r = r'" "r mod 4 = 2 \<Longrightarrow> r' mod 4 = 3 \<Longrightarrow> r' = Suc r"
    by linarith+
  then show "stage_role r = Some x \<Longrightarrow> stage_role r' = Some x \<Longrightarrow> r = r'"
    "stage_role r = Some Proof \<Longrightarrow> stage_role r' = Some Trigger \<Longrightarrow> r' = Suc r"
    by (auto simp: stage_role_def wave_rounds_def split: if_splits)
qed

text \<open>
  C26. Every node derives the same leader for a whole wave: two anchor stages of rounds in one
  wave name the same leader, the leader is a validator of both rounds, the roles are fixed by the
  position in the wave, and the only stage born used is the genesis.
\<close>

theorem wave_has_one_leader:
  assumes "anchor_stage_of gen r sl conf = Ok (Some st)"
    and "anchor_stage_of gen r' sl conf = Ok (Some st')"
    and "r div wave_rounds = r' div wave_rounds"
  shows "as_leader st = as_leader st'
    \<and> as_leader st \<in> sl_peers_for sl r \<inter> sl_peers_for sl r'
    \<and> (as_role st = as_role st' \<longleftrightarrow> r = r')
    \<and> (as_role st = Proof \<and> as_role st' = Trigger \<longrightarrow> r' = Suc r)
    \<and> (as_is_used st \<longrightarrow> r = mc_genesis_round conf)"
proof -
  have "anchor_candidate_round r conf = anchor_candidate_round r' conf"
    using assms(3) by (simp add: anchor_candidate_round_def)
  then have leader: "as_leader st = as_leader st'"
    using anchor_stage_of_Some(4) [OF assms(1)] anchor_stage_of_Some(4) [OF assms(2)] by simp
  have roles: "(as_role st = as_role st') = (r = r')"
    "as_role st = Proof \<and> as_role st' = Trigger \<longrightarrow> r' = Suc r"
    using stage_role_same_wave [OF assms(3)] anchor_stage_of_Some(1) [OF assms(1)]
      anchor_stage_of_Some(1) [OF assms(2)] by auto
  with leader show ?thesis
    using anchor_stage_of_Some(2,3) [OF assms(1)] anchor_stage_of_Some(2) [OF assms(2)] by auto
qed

definition ex_stateless :: stateless where
  "ex_stateless = \<lparr>sl_local_id = 1, sl_peer_vecs = [[], [], [1, 2, 3], []],
     sl_peer_sets = [{}, {}, {1, 2, 3}, {}], sl_epoch_starts = [0, 0, 3],
     sl_next_epoch_start = None\<rparr>"

definition ex_conf :: mempool_config where
  "ex_conf = \<lparr>mc_consensus = ex_consensus, mc_genesis_round = 2, mc_point_max_bytes = 0\<rparr>"

lemma ex_stages:
  "anchor_stage_of (\<lambda>_ _. 1) 6 ex_stateless ex_conf
     = (Ok (Some \<lparr>as_role = Proof, as_leader = 2, as_is_used = False\<rparr>) :: (unit, anchor_stage option) outcome)"
  "anchor_stage_of (\<lambda>_ _. 1) 7 ex_stateless ex_conf
     = (Ok (Some \<lparr>as_role = Trigger, as_leader = 2, as_is_used = False\<rparr>) :: (unit, anchor_stage option) outcome)"
  by (simp_all add: anchor_stage_of_def anchor_candidate_round_def ex_stateless_def ex_conf_def
      sl_peers_ordered_for_def sl_peers_for_def epoch_lookup_def epoch_slot_def wave_rounds_def
      stage_role_def)

theorem wave_has_one_leader_witness:
  "as_leader \<lparr>as_role = Proof, as_leader = 2, as_is_used = False\<rparr>
     \<in> sl_peers_for ex_stateless 6 \<inter> sl_peers_for ex_stateless 7"
  using wave_has_one_leader [OF ex_stages] by (simp add: wave_rounds_def)

end
