(* ===== verification/Dag_Round.thy ===== *)
theory Dag_Round
  imports Dag_Threshold Anchor_Stage
begin

text \<open>
  DAG rounds: \<^verbatim>\<open>consensus/src/dag/dag_round.rs\<close> and the parts of \<^verbatim>\<open>dag_point_future.rs\<close> that run
  while a location is locked.

  A round refers to its predecessor by a weak pointer. A round with everything it can still reach
  is a list, newest first: \<^verbatim>\<open>prev().upgrade()\<close> is the rest of the list, which is empty when the
  predecessor was freed. The concurrent map of locations is a sorted map. New certificates are
  allocated in the certificate store.

  The lemmas show that a round has a location for every scheduled peer and no other, that rounds
  made one from another have no gaps, and that the backward scan then finds what is kept and
  never panics for a round that is not in the future.
\<close>

section \<open>Rounds\<close>

record dag_round =
  dr_round :: round
  dr_peer_count :: peer_count
  dr_anchor_stage :: "anchor_stage option"
  dr_locations :: "(peer_id, dag_location) bmap"
  dr_threshold :: threshold

definition dr_count_peers :: "peer_id set \<Rightarrow> round \<Rightarrow> mempool_config \<Rightarrow> (unit, peer_count) outcome" where
  "dr_count_peers peers round conf =
     (if round > mc_genesis_round conf then
        (case pc_try_from (card peers) of Ok n \<Rightarrow> Ok n | Err _ \<Rightarrow> Panic | Panic \<Rightarrow> Panic)
      else bindR (round_prev (mc_genesis_round conf)) (\<lambda>pre_genesis.
        if round \<ge> pre_genesis then Ok pc_genesis else Panic))"

definition dr_new ::
  "(nat \<Rightarrow> nat \<Rightarrow> nat) \<Rightarrow> round \<Rightarrow> stateless \<Rightarrow> mempool_config \<Rightarrow> (unit, dag_round) outcome" where
  "dr_new gen_range round peer_schedule conf =
     (let peers = sl_peers_for peer_schedule round
      in bindR (dr_count_peers peers round conf) (\<lambda>peer_count.
         bindR (anchor_stage_of gen_range round peer_schedule conf) (\<lambda>stage.
           Ok \<lparr>dr_round = round, dr_peer_count = peer_count, dr_anchor_stage = stage,
             dr_locations = map (\<lambda>peer. (peer, dl_new)) (sorted_list_of_set peers),
             dr_threshold = th_new round peer_count conf\<rparr>)))"

text \<open>\<open>new_bottom\<close> starts a chain, \<open>new_next\<close> puts a round in front of one.\<close>

definition dr_new_bottom ::
  "(nat \<Rightarrow> nat \<Rightarrow> nat) \<Rightarrow> round \<Rightarrow> stateless \<Rightarrow> mempool_config \<Rightarrow> (unit, dag_round list) outcome" where
  "dr_new_bottom gen_range round peer_schedule conf =
     bindR (dr_new gen_range round peer_schedule conf) (\<lambda>d. Ok [d])"

definition dr_new_next ::
  "(nat \<Rightarrow> nat \<Rightarrow> nat) \<Rightarrow> stateless \<Rightarrow> mempool_config \<Rightarrow> dag_round \<Rightarrow> dag_round list
   \<Rightarrow> (unit, dag_round list) outcome" where
  "dr_new_next gen_range peer_schedule conf d older =
     bindR (round_next (dr_round d)) (\<lambda>next.
     bindR (dr_new gen_range next peer_schedule conf) (\<lambda>n. Ok (n # d # older)))"

definition dr_edit ::
  "peer_id \<Rightarrow> (dag_location \<Rightarrow> (unit, 'r \<times> dag_location) outcome) \<Rightarrow> dag_round
   \<Rightarrow> (unit, 'r \<times> dag_round) outcome" where
  "dr_edit author edit d =
     (case bm_get (dr_locations d) author of
        None \<Rightarrow> Panic
      | Some loc \<Rightarrow> bindR (edit loc) (\<lambda>(r, loc').
          Ok (r, d\<lparr>dr_locations := bm_insert author loc' (dr_locations d)\<rparr>)))"

definition dr_view :: "peer_id \<Rightarrow> (dag_location \<Rightarrow> 'r) \<Rightarrow> dag_round \<Rightarrow> 'r option" where
  "dr_view author view d = map_option view (bm_get (dr_locations d) author)"

definition dr_select :: "(peer_id \<times> dag_location \<Rightarrow> 'r option) \<Rightarrow> dag_round \<Rightarrow> 'r list" where
  "dr_select filter_map d = List.map_filter filter_map (dr_locations d)"

fun dr_scan_back :: "round \<Rightarrow> dag_round list \<Rightarrow> (unit, dag_round list option) outcome" where
  "dr_scan_back round [] = Ok None"
| "dr_scan_back round (d # older) =
     (if dr_round d < round then Panic
      else if dr_round d = round then Ok (Some (d # older))
      else dr_scan_back round older)"

definition dr_scan :: "round \<Rightarrow> dag_round \<Rightarrow> dag_round list \<Rightarrow> (unit, dag_round list option) outcome" where
  "dr_scan round d older =
     (if \<not> round \<le> dr_round d then Panic
      else if dr_round d = round then Ok (Some (d # older))
      else dr_scan_back round older)"

section \<open>Adding points\<close>

definition cert_new :: "cert_store \<Rightarrow> cert_id \<times> cert_store" where
  "cert_new certs = (length certs, certs @ [Some cert_default])"

fun fut_add_depender :: "peer_id \<Rightarrow> dag_point_future \<Rightarrow> dag_point_future" where
  "fut_add_depender depender (FutDownload task cert dependers res) =
     FutDownload task cert (dependers @ [depender]) res"
| "fut_add_depender depender (FutValidate task cert) = FutValidate task cert"

fun fut_resolve_download ::
  "point \<Rightarrow> ill_formed_reason option \<Rightarrow> dag_point_future \<Rightarrow> dag_point_future" where
  "fut_resolve_download broadcast reason (FutDownload task cert dependers None) =
     FutDownload task cert dependers (Some (case reason of
         None \<Rightarrow> DrVerified broadcast
       | Some reason \<Rightarrow> DrIllFormed broadcast reason))"
| "fut_resolve_download broadcast reason fut = fut"

definition fut_weak_cert :: "dag_point_future \<Rightarrow> cert_id" where
  "fut_weak_cert fut = fut_cert fut"

text \<open>
  What the constructors of a future do at once; the rest of them is the body of the spawned task.
\<close>

definition fut_new_validate :: "cert_store \<Rightarrow> dag_point_future \<times> cert_store" where
  "fut_new_validate certs = (let (c, certs) = cert_new certs in (FutValidate Pending c, certs))"

definition fut_new_download ::
  "peer_id \<Rightarrow> peer_id option \<Rightarrow> cert_store \<Rightarrow> dag_point_future \<times> cert_store" where
  "fut_new_download author first_depender certs =
     (let (c, certs) = cert_new certs
      in (FutDownload Pending c
            (author # (case first_depender of None \<Rightarrow> [] | Some depender \<Rightarrow> [depender])) None,
          certs))"

text \<open>
  \<^verbatim>\<open>entry(digest).and_modify(f).or_insert_with(new)\<close>: the future under the digest afterwards, and the
  certificate store.
\<close>

definition dl_entry ::
  "digest \<Rightarrow> (dag_point_future \<Rightarrow> (unit, dag_point_future) outcome)
   \<Rightarrow> (cert_store \<Rightarrow> dag_point_future \<times> cert_store) \<Rightarrow> cert_store \<Rightarrow> dag_location
   \<Rightarrow> (unit, (dag_point_future \<times> cert_store) \<times> dag_location) outcome" where
  "dl_entry dg modify new certs loc =
     bindR (case bm_get (dl_versions loc) dg of
              Some first \<Rightarrow> bindR (modify first) (\<lambda>fut. Ok (fut, certs))
            | None \<Rightarrow> Ok (new certs))
       (\<lambda>(fut, certs). Ok ((fut, certs), loc\<lparr>dl_versions := bm_insert dg fut (dl_versions loc)\<rparr>))"

definition dr_add_local ::
  "point \<Rightarrow> cert_store \<Rightarrow> dag_round \<Rightarrow> (unit, (dag_point_future \<times> cert_store) \<times> dag_round) outcome" where
  "dr_add_local point certs d =
     (if pi_round (pt_info point) \<noteq> dr_round d then Panic
      else dr_edit (pi_author (pt_info point))
        (dl_entry (pi_digest (pt_info point)) (\<lambda>_. Panic) fut_new_validate certs) d)"

definition dr_add_ill_formed_broadcast ::
  "point \<Rightarrow> ill_formed_reason \<Rightarrow> cert_store \<Rightarrow> dag_round
   \<Rightarrow> (unit, (dag_point_future \<times> cert_store) \<times> dag_round) outcome" where
  "dr_add_ill_formed_broadcast point reason certs d =
     (if pi_round (pt_info point) \<noteq> dr_round d then Panic
      else dr_edit (pi_author (pt_info point))
        (dl_entry (pi_digest (pt_info point)) (\<lambda>fut. Ok (fut_resolve_download point (Some reason) fut))
          fut_new_validate certs) d)"

definition dr_add_broadcast ::
  "point \<Rightarrow> cert_store \<Rightarrow> dag_round \<Rightarrow> (unit, (dag_point_future \<times> cert_store) \<times> dag_round) outcome" where
  "dr_add_broadcast point certs d =
     (if pi_round (pt_info point) \<noteq> dr_round d then Panic
      else dr_edit (pi_author (pt_info point))
        (dl_entry (pi_digest (pt_info point)) (\<lambda>fut. Ok (fut_resolve_download point None fut))
          fut_new_validate certs) d)"

definition dr_add_pruned_broadcast ::
  "peer_id \<Rightarrow> digest \<Rightarrow> cert_store \<Rightarrow> dag_round
   \<Rightarrow> (unit, (dag_point_future \<times> cert_store) \<times> dag_round) outcome" where
  "dr_add_pruned_broadcast author dg certs d =
     dr_edit author (dl_entry dg Ok (fut_new_download author None) certs) d"

definition dr_add_dependency ::
  "peer_id \<Rightarrow> digest \<Rightarrow> peer_id \<Rightarrow> cert_store \<Rightarrow> dag_round
   \<Rightarrow> (unit, (dag_point_future \<times> cert_store) \<times> dag_round) outcome" where
  "dr_add_dependency author dg depender certs d =
     dr_edit author (dl_entry dg (\<lambda>fut. Ok (fut_add_depender depender fut))
       (fut_new_download author (Some depender)) certs) d"

section \<open>Head\<close>

text \<open>
  \<^verbatim>\<open>consensus/src/dag/head.rs\<close>: the next round, the current one and the one before, with the older
  rounds still reachable, and the keys the node may use. The key pair is identified by its peer id.
\<close>

record key_group =
  kg_to_produce :: "peer_id option"
  kg_to_include :: "peer_id option"
  kg_to_witness :: "peer_id option"

definition kg_new :: "round \<Rightarrow> stateless \<Rightarrow> (unit, key_group) outcome" where
  "kg_new current peer_schedule =
     bindR (round_next current) (\<lambda>next.
       let to_include = sl_local_keys peer_schedule next;
           to_produce = sl_local_keys peer_schedule current
       in Ok \<lparr>kg_to_produce = to_produce, kg_to_include = to_include,
            kg_to_witness = (case to_include of None \<Rightarrow> None | Some _ \<Rightarrow> to_produce)\<rparr>)"

record dag_head =
  dh_keys :: key_group
  dh_prev :: dag_round
  dh_older :: "dag_round list"
  dh_current :: dag_round
  dh_next :: dag_round
  dh_last_back_bottom :: round

definition dh_new :: "stateless \<Rightarrow> dag_round \<Rightarrow> dag_round list \<Rightarrow> round \<Rightarrow> (unit, dag_head) outcome" where
  "dh_new peer_schedule top_round older last_back_bottom =
     (case older of
        current # prev # rest \<Rightarrow>
          bindR (kg_new (dr_round current) peer_schedule) (\<lambda>keys.
            Ok \<lparr>dh_keys = keys, dh_prev = prev, dh_older = rest, dh_current = current,
              dh_next = top_round, dh_last_back_bottom = last_back_bottom\<rparr>)
      | _ \<Rightarrow> Panic)"

section \<open>Chains without gaps\<close>

fun chain_ok :: "dag_round list \<Rightarrow> bool" where
  "chain_ok [] = True"
| "chain_ok [d] = True"
| "chain_ok (d # e # older) = (dr_round d = Suc (dr_round e) \<and> chain_ok (e # older))"

lemma chain_ok_Cons: "chain_ok (d # older) \<Longrightarrow> chain_ok older"
  by (cases older) simp_all

lemma chain_ok_nth:
  assumes "chain_ok ds" "i < length ds"
  shows "dr_round (ds ! i) + i = dr_round (hd ds)"
  using assms
proof (induction ds arbitrary: i rule: chain_ok.induct)
  case (3 d e older)
  then show ?case by (cases i) auto
qed auto

lemma dr_new_round: "dr_new g r ps conf = Ok d \<Longrightarrow> dr_round d = r"
  by (auto simp: dr_new_def Let_def outcome_simps)

lemma dr_new_locations:
  assumes "dr_new g r ps conf = Ok d" "finite (sl_peers_for ps r)"
  shows "set (bm_keys (dr_locations d)) = sl_peers_for ps r" and "bm_wf (dr_locations d)"
  using assms by (auto simp: dr_new_def Let_def outcome_simps bm_keys_def bm_wf_def comp_def image_image)

lemma dr_new_next_chain:
  assumes "chain_ok (d # older)" "dr_new_next g ps conf d older = Ok ds"
  shows "chain_ok ds"
  using assms by (auto simp: dr_new_next_def outcome_simps dest: dr_new_round)

text \<open>Editing a location keeps the shape of the round.\<close>

lemma dr_edit_frame:
  assumes "dr_edit a f d = Ok (r, d')"
  shows "dr_round d' = dr_round d" "dr_anchor_stage d' = dr_anchor_stage d"
    "dr_peer_count d' = dr_peer_count d"
  using assms by (auto simp: dr_edit_def outcome_simps split: option.splits)

lemma dr_edit_keys:
  assumes "dr_edit a f d = Ok (r, d')" "bm_wf (dr_locations d)"
  shows "set (bm_keys (dr_locations d')) = set (bm_keys (dr_locations d))" "bm_wf (dr_locations d')"
  using assms
  by (auto simp: dr_edit_def outcome_simps set_bm_keys_insert
      intro: bm_wf_insert dest: bm_get_keys split: option.splits)

lemma dr_scan_back_exact:
  assumes "chain_ok (d # older)" "r < dr_round d"
  shows "dr_scan_back r older = Ok (if r + length older < dr_round d then None
     else Some (drop (dr_round d - r - 1) older))"
  using assms
proof (induction older arbitrary: d)
  case (Cons e older)
  then have e: "dr_round d = Suc (dr_round e)" "chain_ok (e # older)" by simp_all
  show ?case
  proof (cases "dr_round e = r")
    case False
    with Cons.prems e have lt: "r < dr_round e" by simp
    then have "dr_round e - r = Suc (dr_round e - r - 1)" by simp
    with lt Cons.IH [OF e(2) lt] e show ?thesis by simp
  qed (use e in simp)
qed simp

end
