(* ===== verification/Verifier.thy ===== *)
theory Verifier
  imports Dag_Round
begin

text \<open>
  Checks of a received point: \<^verbatim>\<open>consensus/src/dag/verifier.rs\<close>.

  \<open>verify\<close> needs only the point and the peer schedule: it bounds the dependency maps by the
  scheduled validators. \<open>validate\<close> looks into the DAG: the point's links against the leaders of
  the rounds, then its direct dependencies and the other versions of the author's previous point.
  Dependencies resolve in any order; the results are a list in the order of their arrival, an
  element is \<open>None\<close> when the task that should resolve it is cancelled.

  The lemmas show that a verified point names only scheduled validators and at least a majority of
  them, so that two verified points of one round share a reliable minority of included authors,
  that the answer of \<open>validate\<close> does not depend on the order of arrival, and what a valid point
  and its dependencies agree on.
\<close>

section \<open>Verification against the schedule\<close>

datatype verify_fail_reason =
    BeforeGenesis
  | Uninit nat round point_map
  | UnknownAuthor

datatype verify_error =
    VerifyFail verify_fail_reason
  | VerifyIllFormed ill_formed_reason

datatype validate_result =
    ResValid
  | ResInvalid
  | ResIllFormed ill_formed_reason

text \<open>\<^verbatim>\<open>Result<PeerCount, Round>\<close> with the scheduled peers.\<close>

type_synonym counted_peers = "(round + peer_count) \<times> peer_id set"

definition peer_count_genesis :: "peer_id set \<Rightarrow> round \<Rightarrow> counted_peers" where
  "peer_count_genesis peers round =
     (if card peers = pc_full pc_genesis then Inr pc_genesis else Inl round, peers)"

definition peer_count_or_round :: "peer_id set \<Rightarrow> round \<Rightarrow> (unit, counted_peers) outcome" where
  "peer_count_or_round peers round =
     (case pc_try_from (card peers) of
        Ok n \<Rightarrow> Ok (Inr n, peers)
      | Err _ \<Rightarrow> Ok (Inl round, peers)
      | Panic \<Rightarrow> Panic)"

text \<open>
  The validators of the point's round and of the two rounds before, as far as the genesis lets
  them exist; \<open>None\<close> for a point before the genesis.
\<close>

definition verify_peers ::
  "stateless \<Rightarrow> mempool_config \<Rightarrow> round
   \<Rightarrow> (unit, (counted_peers \<times> counted_peers option \<times> counted_peers option) option) outcome" where
  "verify_peers peer_schedule conf round =
     bindR (round_prev (mc_genesis_round conf)) (\<lambda>pre_genesis.
       let depth = round_sub round pre_genesis;
           peers = sl_peers_for peer_schedule
       in if depth = 0 then Ok None
          else if depth = 1 then Ok (Some (peer_count_genesis (peers round) round, None, None))
          else if depth = 2 then
            bindR (round_prev round) (\<lambda>r1.
            bindR (peer_count_or_round (peers round) round) (\<lambda>a.
              Ok (Some (a, Some (peer_count_genesis (peers r1) r1), None))))
          else
            bindR (round_prev round) (\<lambda>r1.
            bindR (round_prev r1) (\<lambda>r2.
            bindR (if depth = 3 then Ok (peer_count_genesis (peers r2) r2)
                   else peer_count_or_round (peers r2) r2) (\<lambda>c.
            bindR (peer_count_or_round (peers round) round) (\<lambda>a.
            bindR (peer_count_or_round (peers r1) r1) (\<lambda>b.
              Ok (Some (a, Some b, Some c))))))))"

definition links_across_genesis ::
  "point_info \<Rightarrow> mempool_config \<Rightarrow> (unit, ill_formed_reason option) outcome" where
  "links_across_genesis info conf =
     bindR (pi_anchor_round info Proof) (\<lambda>proof_round.
     bindR (pi_anchor_round info Trigger) (\<lambda>trigger_round.
       let g = mc_genesis_round conf
       in Ok (if proof_round < g \<or> trigger_round < g then Some LinksAcrossGenesis
              else if proof_round > g \<and> trigger_round > g \<and> proof_round = trigger_round
              then Some LinksSameRound
              else None)))"

definition unknown_peers :: "('p, 'v) bmap \<Rightarrow> 'p set \<Rightarrow> 'p list" where
  "unknown_peers m scheduled = filter (\<lambda>peer. peer \<notin> scheduled) (bm_keys m)"

definition verify_same_round :: "point_info \<Rightarrow> counted_peers \<Rightarrow> verify_error option" where
  "verify_same_round info counted =
     (case counted of
        (Inl round, scheduled) \<Rightarrow> Some (VerifyFail (Uninit (card scheduled) round MapEvidence))
      | (Inr n, scheduled) \<Rightarrow>
          if pi_author info \<notin> scheduled then Some (VerifyFail UnknownAuthor)
          else let evidence = pi_evidence info; unknown = unknown_peers evidence scheduled
               in if evidence = [] then None
                  else if n = pc_genesis then Some (VerifyIllFormed (MustBeEmpty MapEvidence))
                  else if unknown \<noteq> [] then Some (VerifyIllFormed (UnknownPeers unknown MapEvidence))
                  else if length evidence < pc_majority_of_others n
                  then Some (VerifyIllFormed (LackOfPeers (length evidence) n MapEvidence))
                  else None)"

definition verify_includes :: "point_info \<Rightarrow> counted_peers option \<Rightarrow> verify_error option" where
  "verify_includes info counted =
     (case counted of
        Some (Inl round, scheduled) \<Rightarrow> Some (VerifyFail (Uninit (card scheduled) round MapIncludes))
      | None \<Rightarrow> if pi_includes info \<noteq> [] then Some (VerifyIllFormed (MustBeEmpty MapIncludes)) else None
      | Some (Inr n, scheduled) \<Rightarrow>
          let includes = pi_includes info; unknown = unknown_peers includes scheduled
          in if unknown \<noteq> [] then Some (VerifyIllFormed (UnknownPeers unknown MapIncludes))
             else if length includes < pc_majority n
             then Some (VerifyIllFormed (LackOfPeers (length includes) n MapIncludes))
             else None)"

definition verify_witness :: "point_info \<Rightarrow> counted_peers option \<Rightarrow> verify_error option" where
  "verify_witness info counted =
     (case counted of
        Some (Inl round, scheduled) \<Rightarrow> Some (VerifyFail (Uninit (card scheduled) round MapWitness))
      | None \<Rightarrow> if pi_witness info \<noteq> [] then Some (VerifyIllFormed (MustBeEmpty MapWitness)) else None
      | Some (Inr _, scheduled) \<Rightarrow>
          let unknown = unknown_peers (pi_witness info) scheduled
          in if pi_witness info \<noteq> [] \<and> unknown \<noteq> []
             then Some (VerifyIllFormed (UnknownPeers unknown MapWitness))
             else None)"

definition or_else :: "'a option \<Rightarrow> 'a option \<Rightarrow> 'a option" where
  "or_else a b = (case a of Some x \<Rightarrow> Some x | None \<Rightarrow> b)"

definition verify_impl ::
  "point_info \<Rightarrow> stateless \<Rightarrow> mempool_config \<Rightarrow> (unit, verify_error option) outcome" where
  "verify_impl info peer_schedule conf =
     bindR (verify_peers peer_schedule conf (pi_round info)) (\<lambda>peers.
       case peers of
         None \<Rightarrow> Ok (Some (VerifyFail BeforeGenesis))
       | Some (same_round_peers, includes_peers, witness_peers) \<Rightarrow>
           bindR (links_across_genesis info conf) (\<lambda>links.
             case links of
               Some reason \<Rightarrow> Ok (Some (VerifyIllFormed reason))
             | None \<Rightarrow>
                 if pi_payload_bytes info > cc_payload_batch_bytes (mc_consensus conf)
                 then Ok (Some (VerifyIllFormed (TooLargePayload (pi_payload_bytes info))))
                 else if \<not> pi_is_well_formed info conf
                 then Ok (Some (VerifyIllFormed NotDescribed))
                 else Ok (or_else (verify_same_round info same_round_peers)
                            (or_else (verify_includes info includes_peers)
                              (verify_witness info witness_peers)))))"

definition verify ::
  "point_info \<Rightarrow> stateless \<Rightarrow> mempool_config \<Rightarrow> (unit, verify_error + unit) outcome" where
  "verify info peer_schedule conf =
     bindR (verify_impl info peer_schedule conf) (\<lambda>result.
       Ok (case result of None \<Rightarrow> Inr () | Some e \<Rightarrow> Inl e))"

section \<open>Validation against the DAG\<close>

definition is_self_links_ok :: "point_info \<Rightarrow> dag_round \<Rightarrow> (unit, bool) outcome" where
  "is_self_links_ok info d =
     (case dr_anchor_stage d of
        Some stage \<Rightarrow>
          if as_leader stage = pi_author info then
            bindR (if as_role stage = Proof then Ok True
                   else bindR (pi_anchor_round info Proof) (\<lambda>proof_round.
                        bindR (round_prev (pi_round info)) (\<lambda>prev. Ok (proof_round = prev))))
              (\<lambda>follows.
                 if follows
                 then Ok ((pi_prev_digest info \<noteq> None) = (pi_anchor_link info (as_role stage) = ToSelf))
                 else Ok (pi_anchor_link info (as_role stage) \<noteq> ToSelf))
          else Ok (pi_anchor_link info Proof \<noteq> ToSelf \<and> pi_anchor_link info Trigger \<noteq> ToSelf)
      | None \<Rightarrow> Ok (pi_anchor_link info Proof \<noteq> ToSelf \<and> pi_anchor_link info Trigger \<noteq> ToSelf))"

definition is_anchor_link_ok ::
  "anchor_role \<Rightarrow> point_info \<Rightarrow> dag_round \<Rightarrow> dag_round list \<Rightarrow> mempool_config \<Rightarrow> (unit, bool) outcome" where
  "is_anchor_link_ok link_field info d older conf =
     bindR (pi_anchor_id info link_field) (\<lambda>linked_id.
     bindR (dr_scan (pid_round linked_id) d older) (\<lambda>found.
       Ok (case found of
             Some (r # _) \<Rightarrow>
               dr_round r = mc_genesis_round conf
               \<or> (case dr_anchor_stage r of
                    Some stage \<Rightarrow> as_role stage = link_field \<and> as_leader stage = pid_author linked_id
                  | None \<Rightarrow> False)
           | _ \<Rightarrow> True)))"

definition other_versions :: "dag_location \<Rightarrow> digest option \<Rightarrow> dag_point_future list" where
  "other_versions loc excluded =
     map snd (filter (\<lambda>e. excluded \<noteq> Some (fst e)) (dl_versions loc))"

text \<open>
  Direct dependencies are added to the locations of the previous rounds; their certificates become
  the dependencies of the point's own certificate.
\<close>

definition spawn_one ::
  "peer_id \<Rightarrow> peer_id \<times> digest
   \<Rightarrow> dag_point_future list \<times> cert_layer \<times> cert_store \<times> dag_round
   \<Rightarrow> (unit, dag_point_future list \<times> cert_layer \<times> cert_store \<times> dag_round) outcome" where
  "spawn_one curr_author dep s =
     (case s of (dependencies, certs_of, certs, d) \<Rightarrow>
        bindR (dr_add_dependency (fst dep) (snd dep) curr_author certs d) (\<lambda>((fut, certs), d).
          Ok (dependencies @ [fut], bm_insert (snd dep) (fut_weak_cert fut) certs_of, certs, d)))"

definition spawn_direct_deps ::
  "point_info \<Rightarrow> dag_round \<Rightarrow> dag_round option \<Rightarrow> cert_store
   \<Rightarrow> (unit, (dag_point_future list \<times> cert_deps) \<times> cert_store \<times> dag_round \<times> dag_round option) outcome" where
  "spawn_direct_deps info r_1 r_2_opt certs =
     bindR (foldR (spawn_one (pi_author info)) (pi_includes info) ([], [], certs, r_1))
       (\<lambda>(deps, includes, certs, r_1).
          case r_2_opt of
            None \<Rightarrow> Ok ((deps, \<lparr>cd_includes = includes, cd_witness = []\<rparr>), certs, r_1, None)
          | Some r_2 \<Rightarrow>
              bindR (foldR (spawn_one (pi_author info)) (pi_witness info) (deps, [], certs, r_2))
                (\<lambda>(deps, witness, certs, r_2).
                   Ok ((deps, \<lparr>cd_includes = includes, cd_witness = witness\<rparr>), certs, r_1, Some r_2)))"

definition is_proof_ok :: "point_info \<Rightarrow> point_info \<Rightarrow> (unit, bool) outcome" where
  "is_proof_ok info proven =
     (if pi_author info \<noteq> pi_author proven then Panic
      else bindR (round_prev (pi_round info)) (\<lambda>prev.
        if prev \<noteq> pi_round proven then Panic
        else case pi_prev_digest info of
          None \<Rightarrow> Panic
        | Some prev_digest \<Rightarrow>
            if prev_digest \<noteq> pi_digest proven then Panic
            else if pi_time info \<le> pi_time proven then Ok False
            else if pi_anchor_link info Proof = ToSelf \<and> pi_anchor_time info \<noteq> pi_time proven
            then Ok False
            else Ok True))"

text \<open>What \<open>is_valid\<close> computes of the point before it waits for the dependencies.\<close>

record valid_targets =
  vt_prev_round :: round
  vt_trigger_id :: point_id
  vt_proof_id :: point_id
  vt_trigger_link_id :: point_id
  vt_proof_link_id :: point_id
  vt_max_dep_time :: unix_time

definition valid_targets_of :: "point_info \<Rightarrow> mempool_config \<Rightarrow> (unit, valid_targets) outcome" where
  "valid_targets_of info conf =
     bindR (round_prev (pi_round info)) (\<lambda>prev_round.
     bindR (pi_anchor_id info Trigger) (\<lambda>trigger_id.
     bindR (pi_anchor_id info Proof) (\<lambda>proof_id.
     bindR (pi_anchor_link_id info Trigger) (\<lambda>trigger_link_id.
     bindR (pi_anchor_link_id info Proof) (\<lambda>proof_link_id.
       Ok \<lparr>vt_prev_round = prev_round, vt_trigger_id = trigger_id, vt_proof_id = proof_id,
         vt_trigger_link_id = trigger_link_id, vt_proof_link_id = proof_link_id,
         vt_max_dep_time = time_add (pi_time info) (cc_clock_skew_millis (mc_consensus conf))\<rparr>)))))"

definition is_prev_ok :: "point_info \<Rightarrow> dag_point \<Rightarrow> (unit, bool) outcome" where
  "is_prev_ok info dp =
     (if pi_prev_digest info = Some (dp_digest dp) then
        (case dp_trusted dp of None \<Rightarrow> Ok False | Some proven \<Rightarrow> is_proof_ok info proven)
      else Ok (case dp of NotFound nf \<Rightarrow> \<not> nf_certified nf | _ \<Rightarrow> False))"

definition is_dep_ok :: "valid_targets \<Rightarrow> point_info \<Rightarrow> dag_point \<Rightarrow> (unit, bool) outcome" where
  "is_dep_ok vt info dp =
     (case dp_trusted dp of
        None \<Rightarrow> Ok False
      | Some dep \<Rightarrow>
          if pi_time dep > vt_max_dep_time vt then Ok False
          else bindR (pi_anchor_round dep Trigger) (\<lambda>dep_trigger.
          if dep_trigger > pid_round (vt_trigger_id vt) then Ok False
          else bindR (pi_anchor_round dep Proof) (\<lambda>dep_proof.
          if dep_proof > pid_round (vt_proof_id vt) then Ok False
          else bindR (if pi_id dep = vt_trigger_link_id vt
                      then bindR (pi_anchor_id dep Trigger) (\<lambda>to. Ok (to = vt_trigger_id vt))
                      else Ok True) (\<lambda>trigger_ok.
          if \<not> trigger_ok then Ok False
          else if pi_id dep = vt_proof_link_id vt
          then bindR (pi_anchor_id dep Proof) (\<lambda>to.
            Ok (to = vt_proof_id vt \<and> pi_anchor_time dep = pi_anchor_time info))
          else Ok True))))"

definition is_dag_point_ok :: "valid_targets \<Rightarrow> point_info \<Rightarrow> dag_point \<Rightarrow> (unit, bool) outcome" where
  "is_dag_point_ok vt info dp =
     (if dp_round dp = vt_prev_round vt \<and> dp_author dp = pi_author info then is_prev_ok info dp
      else is_dep_ok vt info dp)"

text \<open>The loop over the resolved dependencies; the outer \<open>None\<close> is the cancellation of a task.\<close>

fun is_valid_loop ::
  "valid_targets \<Rightarrow> point_info \<Rightarrow> dag_point option list \<Rightarrow> (unit, bool option) outcome" where
  "is_valid_loop vt info [] = Ok (Some True)"
| "is_valid_loop vt info (None # rest) = Ok None"
| "is_valid_loop vt info (Some dp # rest) =
     bindR (is_dag_point_ok vt info dp) (\<lambda>ok.
       if ok then is_valid_loop vt info rest else Ok (Some False))"

definition is_valid ::
  "point_info \<Rightarrow> dag_point option list \<Rightarrow> mempool_config \<Rightarrow> (unit, bool option) outcome" where
  "is_valid info deps_and_prev conf =
     bindR (valid_targets_of info conf) (\<lambda>vt. is_valid_loop vt info deps_and_prev)"

text \<open>
  The synchronous part of \<open>validate\<close> up to the first drop of the strong reference: \<open>Some\<close> result
  ends the validation. \<open>r_0\<close> is what the weak reference to the point's round gives, empty when the
  round was freed.
\<close>

definition validate_links ::
  "point_info \<Rightarrow> dag_round list \<Rightarrow> mempool_config \<Rightarrow> (unit, validate_result option) outcome" where
  "validate_links info r_0 conf =
     (if pi_round info < mc_genesis_round conf then Panic
      else if pi_round info = mc_genesis_round conf then Ok (Some ResValid)
      else case r_0 of
        [] \<Rightarrow> Ok (Some ResInvalid)
      | d # older \<Rightarrow>
          if dr_round d \<noteq> pi_round info then Panic
          else bindR (is_self_links_ok info d) (\<lambda>self_ok.
            if \<not> self_ok then Ok (Some (ResIllFormed SelfLink))
            else bindR (is_anchor_link_ok Proof info d older conf) (\<lambda>proof_ok.
              if \<not> proof_ok then Ok (Some (ResIllFormed AnchorLink))
              else bindR (is_anchor_link_ok Trigger info d older conf) (\<lambda>trigger_ok.
                if \<not> trigger_ok then Ok (Some (ResIllFormed AnchorLink)) else Ok None))))"

text \<open>
  The second part, up to the wait: the previous point of the author is certified by the proof in
  this one, and the certificate of this point gets its dependencies. The result is the list of
  futures to wait for and the DAG with the new downloads.
\<close>

definition validate_spawn ::
  "point_info \<Rightarrow> cert_id \<Rightarrow> cert_store \<Rightarrow> dag_round list
   \<Rightarrow> (unit, dag_point_future list option \<times> cert_store \<times> dag_round list) outcome" where
  "validate_spawn info cert certs r_0 =
     (case r_0 of
        d # r_1 # older \<Rightarrow>
          let r_2_opt = (case older of [] \<Rightarrow> None | r_2 # _ \<Rightarrow> Some r_2)
          in if r_2_opt = None \<and> pi_witness info \<noteq> [] then Ok (None, certs, r_0)
             else
               bindR (spawn_direct_deps info r_1 r_2_opt certs)
                 (\<lambda>((direct_deps, deps), certs, r_1, r_2_opt).
               bindR (case pi_prev_digest info of
                        None \<Rightarrow> Ok certs
                      | Some prev_digest \<Rightarrow>
                          (case bm_get (cd_includes deps) prev_digest of
                             None \<Rightarrow> Panic
                           | Some prev_cert \<Rightarrow>
                               if cert_upgrade certs prev_cert = None then Ok certs
                               else cert_certify prev_cert certs))
                 (\<lambda>certs.
               bindR (cert_set_deps cert deps certs) (\<lambda>certs.
                 let prev_other_versions = (case dr_view (pi_author info)
                        (\<lambda>loc. other_versions loc (pi_prev_digest info)) r_1 of
                        None \<Rightarrow> [] | Some futs \<Rightarrow> futs)
                 in Ok (Some (direct_deps @ prev_other_versions), certs,
                        d # r_1 # (case r_2_opt of None \<Rightarrow> [] | Some r_2 \<Rightarrow> r_2 # tl older)))))
      | _ \<Rightarrow> Ok (None, certs, r_0))"

text \<open>The last part, given the resolved futures; \<open>None\<close> when a task was cancelled.\<close>

definition validate_finish ::
  "point_info \<Rightarrow> dag_point option list \<Rightarrow> mempool_config \<Rightarrow> (unit, validate_result option) outcome" where
  "validate_finish info resolved conf =
     bindR (is_valid info resolved conf) (\<lambda>res.
       Ok (map_option (\<lambda>ok. if ok then ResValid else ResInvalid) res))"

section \<open>What verification establishes\<close>

lemma or_else_None [simp]: "or_else a b = None \<longleftrightarrow> a = None \<and> b = None"
  by (cases a) (simp_all add: or_else_def)

lemma verify_impl_None:
  assumes "verify_impl info sl conf = Ok None"
  obtains a b c where "verify_peers sl conf (pi_round info) = Ok (Some (a, b, c))"
    "links_across_genesis info conf = Ok None"
    "pi_payload_bytes info \<le> cc_payload_batch_bytes (mc_consensus conf)"
    "pi_is_well_formed info conf"
    "verify_same_round info a = None" "verify_includes info b = None" "verify_witness info c = None"
proof -
  from assms obtain x where x: "verify_peers sl conf (pi_round info) = Ok x"
    by (cases "verify_peers sl conf (pi_round info)") (simp_all add: verify_impl_def)
  with assms have "x \<noteq> None"
    by (cases x) (simp_all add: verify_impl_def)
  with x obtain a b c where abc: "verify_peers sl conf (pi_round info) = Ok (Some (a, b, c))"
    by (metis option.exhaust prod_cases3)
  note eq = assms [unfolded verify_impl_def abc bindR.simps option.case prod.case]
  then obtain y where y: "links_across_genesis info conf = Ok y" "y = None"
    by (cases "links_across_genesis info conf") (auto split: option.splits)
  from eq show thesis unfolding y bindR.simps option.case
    by (intro that [OF abc]) (simp_all add: y split: if_splits)
qed

lemma verify_accepts: "verify info sl conf = Ok (Inr ()) \<longleftrightarrow> verify_impl info sl conf = Ok None"
  by (auto simp: verify_def outcome_simps split: option.splits)

lemma unknown_peers_Nil: "unknown_peers m A = [] \<longleftrightarrow> set (bm_keys m) \<subseteq> A"
  by (auto simp: unknown_peers_def filter_empty_conv)

lemma peer_count_or_round_Ok:
  assumes "peer_count_or_round peers r = Ok (x, A)"
  shows "A = peers" and "x = Inr n \<Longrightarrow> pc_try_from (card peers) = Ok n"
  using assms by (auto simp: peer_count_or_round_def split: outcome.splits)

text \<open>Two rounds after the genesis and later all three sets are counted by the schedule.\<close>

lemma verify_peers_deep:
  assumes "verify_peers sl conf r = Ok (Some (a, b, c))" "mc_genesis_round conf + 2 \<le> r"
  obtains r2 b' c' where "r = Suc (Suc r2)" "b = Some b'" "c = Some c'"
    "peer_count_or_round (sl_peers_for sl r) r = Ok a"
    "peer_count_or_round (sl_peers_for sl (Suc r2)) (Suc r2) = Ok b'"
    "snd c' = sl_peers_for sl r2"
proof -
  from assms(1) obtain g where g: "mc_genesis_round conf = Suc g"
    by (cases "mc_genesis_round conf") (simp_all add: verify_peers_def)
  with assms(2) have depth: "3 \<le> round_sub r g" by (simp add: round_sub_def)
  from assms(2) have "r = Suc (Suc (r - 2))" by simp
  then obtain r2 where r2: "r = Suc (Suc r2)" ..
  from depth have "verify_peers sl conf r =
      bindR (if round_sub r g = 3 then Ok (peer_count_genesis (sl_peers_for sl r2) r2)
             else peer_count_or_round (sl_peers_for sl r2) r2) (\<lambda>c.
      bindR (peer_count_or_round (sl_peers_for sl r) r) (\<lambda>a.
      bindR (peer_count_or_round (sl_peers_for sl (Suc r2)) (Suc r2)) (\<lambda>b.
        Ok (Some (a, Some b, Some c)))))"
    by (simp add: verify_peers_def g Let_def r2)
  with assms(1) obtain b' c' where *: "b = Some b'" "c = Some c'"
      "(if round_sub r g = 3 then Ok (peer_count_genesis (sl_peers_for sl r2) r2)
        else peer_count_or_round (sl_peers_for sl r2) r2) = Ok c'"
      "peer_count_or_round (sl_peers_for sl r) r = Ok a"
      "peer_count_or_round (sl_peers_for sl (Suc r2)) (Suc r2) = Ok b'"
    by (auto simp: bindR_Ok_iff)
  from *(3) have "snd c' = sl_peers_for sl r2"
    by (cases c') (auto simp: peer_count_genesis_def dest: peer_count_or_round_Ok(1) split: if_splits)
  with r2 * show thesis by (intro that)
qed

lemma verified_includes:
  assumes "verify info sl conf = Ok (Inr ())" "mc_genesis_round conf + 2 \<le> pi_round info"
  obtains n where "pc_try_from (card (sl_peers_for sl (pi_round info - 1))) = Ok n"
    "set (bm_keys (pi_includes info)) \<subseteq> sl_peers_for sl (pi_round info - 1)"
    "pc_majority n \<le> length (pi_includes info)"
proof -
  from assms(1) [unfolded verify_accepts] obtain a b c where
    peers: "verify_peers sl conf (pi_round info) = Ok (Some (a, b, c))"
    and inc: "verify_includes info b = None"
    by (rule verify_impl_None)
  from peers assms(2) obtain r2 b' where r: "pi_round info = Suc (Suc r2)" "b = Some b'"
      "peer_count_or_round (sl_peers_for sl (Suc r2)) (Suc r2) = Ok b'"
    by (rule verify_peers_deep)
  from inc r(2) obtain n where "b' = (Inr n, snd b')"
      "unknown_peers (pi_includes info) (snd b') = []" "pc_majority n \<le> length (pi_includes info)"
    by (cases b') (auto simp: verify_includes_def Let_def split: sum.splits if_splits)
  with r peer_count_or_round_Ok [of _ _ "fst b'" "snd b'"] show thesis
    by (intro that [of n]) (auto simp: unknown_peers_Nil)
qed

text \<open>
  C7. Verification against the schedule is a quorum check: at least two rounds after the genesis,
  an accepted point is authored by a scheduled validator, includes points of at least \<open>2F+1\<close> of
  the \<open>3F+1\<close> validators of the previous round and of nobody else, witnesses only validators of the
  round before, and the delivery of the author's previous point is signed only by validators of the
  point's own round, at least \<open>2F\<close> of them when the evidence is present.
\<close>

theorem verified_dependencies:
  assumes "verify info sl conf = Ok (Inr ())" "mc_genesis_round conf + 2 \<le> pi_round info"
  shows "pi_author info \<in> sl_peers_for sl (pi_round info)
    \<and> set (bm_keys (pi_includes info)) \<subseteq> sl_peers_for sl (pi_round info - 1)
    \<and> set (bm_keys (pi_witness info)) \<subseteq> sl_peers_for sl (pi_round info - 2)
    \<and> set (bm_keys (pi_evidence info)) \<subseteq> sl_peers_for sl (pi_round info)
    \<and> (\<exists>n. pc_try_from (card (sl_peers_for sl (pi_round info - 1))) = Ok n
          \<and> pc_majority n \<le> length (pi_includes info))
    \<and> (pi_evidence info = []
       \<or> (\<exists>n. pc_try_from (card (sl_peers_for sl (pi_round info))) = Ok n
             \<and> pc_majority_of_others n \<le> length (pi_evidence info)))"
proof -
  from assms(1) [unfolded verify_accepts] obtain a b c where
    peers: "verify_peers sl conf (pi_round info) = Ok (Some (a, b, c))"
    and same: "verify_same_round info a = None" and wit: "verify_witness info c = None"
    by (rule verify_impl_None)
  from peers assms(2) obtain r2 c' where r: "pi_round info = Suc (Suc r2)" "c = Some c'"
      "peer_count_or_round (sl_peers_for sl (pi_round info)) (pi_round info) = Ok a"
      "snd c' = sl_peers_for sl r2"
    by (rule verify_peers_deep)
  from wit r(1,2,4) have "set (bm_keys (pi_witness info)) \<subseteq> sl_peers_for sl (pi_round info - 2)"
    by (cases c') (auto simp: verify_witness_def Let_def unknown_peers_Nil bm_keys_def
        split: sum.splits if_splits)
  moreover from same obtain n where "a = (Inr n, snd a)" "pi_author info \<in> snd a"
      "set (bm_keys (pi_evidence info)) \<subseteq> snd a"
      "pi_evidence info = [] \<or> pc_majority_of_others n \<le> length (pi_evidence info)"
    by (cases a) (auto simp: verify_same_round_def Let_def unknown_peers_Nil bm_keys_def
        split: sum.splits if_splits)
  with peer_count_or_round_Ok [of _ _ "fst a" "snd a"] r(3)
  have "pi_author info \<in> sl_peers_for sl (pi_round info)"
    "set (bm_keys (pi_evidence info)) \<subseteq> sl_peers_for sl (pi_round info)"
    "pi_evidence info = [] \<or> (\<exists>n. pc_try_from (card (sl_peers_for sl (pi_round info))) = Ok n
       \<and> pc_majority_of_others n \<le> length (pi_evidence info))"
    by auto
  ultimately show ?thesis using verified_includes [OF assms] by metis
qed

text \<open>
  C9. Quorums intersect: two points of one round that the same schedule accepts include points of at
  least \<open>F+1\<close> common authors, so at least one of them is not Byzantine.
\<close>

theorem verified_points_share_authors:
  assumes "verify info sl conf = Ok (Inr ())" "verify info' sl conf = Ok (Inr ())"
    and "pi_round info' = pi_round info" "mc_genesis_round conf + 2 \<le> pi_round info"
    and "bm_wf (pi_includes info)" "bm_wf (pi_includes info')"
  shows "\<exists>n. pc_try_from (card (sl_peers_for sl (pi_round info - 1))) = Ok n
    \<and> pc_reliable_minority n
      \<le> card (set (bm_keys (pi_includes info)) \<inter> set (bm_keys (pi_includes info')))"
proof -
  let ?P = "sl_peers_for sl (pi_round info - 1)"
  have size: "card (set (bm_keys m)) = length m" if "bm_wf m" for m :: "(peer_id, digest) bmap"
    using distinct_card [OF bm_wf_distinct [OF that]] by (simp add: bm_keys_def)
  from assms(1,4) obtain n where n: "pc_try_from (card ?P) = Ok n"
      "set (bm_keys (pi_includes info)) \<subseteq> ?P" "pc_majority n \<le> length (pi_includes info)"
    by (rule verified_includes)
  from assms(2,3,4) have "mc_genesis_round conf + 2 \<le> pi_round info'" by simp
  with assms(2) obtain n' where n': "pc_try_from (card ?P) = Ok n'"
      "set (bm_keys (pi_includes info')) \<subseteq> ?P" "pc_majority n' \<le> length (pi_includes info')"
    by (rule verified_includes) (use assms(3) in simp)
  have "finite ?P" using pc_try_from_Ok(1) [OF n(1)] by (auto intro: card_ge_0_finite)
  from quorum_overlap [OF this n(2) n'(2)] pc_try_from_Ok(5) [OF n(1)] n n' size [OF assms(5)]
    size [OF assms(6)] show ?thesis
    by (auto simp: pc_majority_def pc_full_def pc_reliable_minority_def)
qed

section \<open>Verification does not panic\<close>

lemma pc_try_from_small: "n \<le> 253 \<Longrightarrow> pc_try_from n \<noteq> Panic"
  by (auto simp: pc_try_from_def Let_def u8_max_def)

lemma peer_count_or_round_total:
  "card peers \<le> 253 \<Longrightarrow> \<exists>x. peer_count_or_round peers r = Ok x"
  using pc_try_from_small [of "card peers"]
  by (cases "pc_try_from (card peers)") (simp_all add: peer_count_or_round_def)

lemma verify_peers_total:
  assumes "1 \<le> mc_genesis_round conf" "\<forall>r. card (sl_peers_for sl r) \<le> 253"
  shows "\<exists>x. verify_peers sl conf r = Ok x" (is ?total)
    and "r < mc_genesis_round conf \<Longrightarrow> verify_peers sl conf r = Ok None"
proof -
  from assms(1) obtain g where g: "mc_genesis_round conf = Suc g"
    by (cases "mc_genesis_round conf") simp_all
  show "r < mc_genesis_round conf \<Longrightarrow> verify_peers sl conf r = Ok None"
    by (simp add: verify_peers_def g round_sub_def)
  have count: "\<exists>x. peer_count_or_round (sl_peers_for sl r) r = Ok x" for r
    using assms(2) by (intro peer_count_or_round_total) blast
  consider "r \<le> Suc g" | "r = Suc (Suc g)" | k where "r = Suc (Suc k)" "Suc g \<le> k"
    by (metis Suc_le_D not_less_eq_eq le_antisym Suc_le_mono)
  then show ?total
  proof cases
    case 1
    then show ?thesis by (cases "r = Suc g") (simp_all add: verify_peers_def g round_sub_def Let_def)
  next
    case 2
    with count [of "Suc (Suc g)"] show ?thesis
      by (auto simp: verify_peers_def g round_sub_def)
  next
    case (3 k)
    with count [of k] count [of "Suc k"] count [of "Suc (Suc k)"] show ?thesis
      by (auto simp: verify_peers_def g round_sub_def Let_def)
  qed
qed

text \<open>
  C11. Verification never panics on a point that passed the integrity check: the genesis is at round 2
  or later, as every built configuration has it, and no more validators are scheduled for a round
  than a validator count can hold.
\<close>

theorem verify_never_panics:
  assumes "pi_has_well_formed_maps info = (Ok True :: (unit, bool) outcome)"
    and "2 \<le> mc_genesis_round conf" and "\<forall>r. card (sl_peers_for sl r) \<le> 253"
  shows "\<exists>res. verify info sl conf = Ok res"
proof -
  from assms(2) have g: "1 \<le> mc_genesis_round conf" by simp
  from verify_peers_total(1) [OF g assms(3)] obtain x where
    x: "verify_peers sl conf (pi_round info) = Ok x" by blast
  with verify_peers_total(2) [OF g assms(3), of "pi_round info"]
  have pre: "pi_round info < mc_genesis_round conf \<Longrightarrow> x = None" by simp
  show ?thesis
  proof (cases x)
    case None
    with x show ?thesis by (simp add: verify_def verify_impl_def)
  next
    case (Some peers)
    with pre assms(2) have "2 \<le> pi_round info" by (cases "pi_round info < mc_genesis_round conf") auto
    note links = pi_links_defined [OF assms(1) this]
    from links [of Proof] links [of Trigger] obtain p t where
      "pi_anchor_round info Proof = (Ok p :: (unit, round) outcome)"
      "pi_anchor_round info Trigger = (Ok t :: (unit, round) outcome)"
      by metis
    then obtain y where "links_across_genesis info conf = Ok y"
      by (simp add: links_across_genesis_def Let_def)
    with x Some show ?thesis
      by (cases peers; cases y) (simp_all add: verify_def verify_impl_def)
  qed
qed

section \<open>What validation establishes\<close>

lemma is_valid_loop_map_Some:
  assumes "\<forall>dp\<in>set dps. \<exists>ok. is_dag_point_ok vt info dp = Ok ok"
  shows "is_valid_loop vt info (map Some dps)
    = Ok (Some (\<forall>dp\<in>set dps. is_dag_point_ok vt info dp = Ok True))"
  using assms
proof (induction dps)
  case (Cons dp dps)
  then obtain ok where "is_dag_point_ok vt info dp = Ok ok" by auto
  with Cons show ?case by (cases ok) auto
qed simp

lemma is_valid_loop_True:
  assumes "is_valid_loop vt info rs = Ok (Some True)" "Some dp \<in> set rs"
  shows "is_dag_point_ok vt info dp = Ok True"
  using assms
proof (induction rs)
  case (Cons r rs)
  then show ?case by (cases r) (auto simp: outcome_simps split: if_splits)
qed simp

text \<open>Which dependencies can be judged at all: resolved, and trusted ones with well-formed maps.\<close>

definition judgeable :: "point_info \<Rightarrow> dag_point \<Rightarrow> bool" where
  "judgeable info dp =
     (case dp_trusted dp of
        None \<Rightarrow> True
      | Some dep \<Rightarrow> 2 \<le> pi_round dep
          \<and> pi_has_well_formed_maps dep = (Ok True :: (unit, bool) outcome))"

lemma dp_trusted_parts:
  "dp_trusted dp = Some i \<Longrightarrow> dp_author dp = pi_author i \<and> dp_round dp = pi_round i \<and> dp_digest dp = pi_digest i"
  by (cases dp) (auto split: if_splits)

lemma is_proof_ok_total:
  assumes "pi_author proven = pi_author info" "pi_round info = Suc (pi_round proven)"
    "pi_prev_digest info = Some (pi_digest proven)"
  shows "is_proof_ok info proven = Ok (pi_time proven < pi_time info
    \<and> (pi_anchor_link info Proof = ToSelf \<longrightarrow> pi_anchor_time info = pi_time proven))"
  using assms by (auto simp: is_proof_ok_def)

lemma is_dep_ok_total:
  assumes "judgeable info dp"
  shows "\<exists>ok. is_dep_ok vt info dp = Ok ok"
proof (cases "dp_trusted dp")
  case (Some dep)
  with assms have wf: "pi_has_well_formed_maps dep = (Ok True :: (unit, bool) outcome)" "2 \<le> pi_round dep"
    by (simp_all add: judgeable_def)
  obtain p where p: "pi_anchor_id dep Proof = (Ok p :: (unit, point_id) outcome)"
      "pi_anchor_round dep Proof = (Ok (pid_round p) :: (unit, round) outcome)"
    by (rule pi_links_defined [OF wf])
  obtain t where t: "pi_anchor_id dep Trigger = (Ok t :: (unit, point_id) outcome)"
      "pi_anchor_round dep Trigger = (Ok (pid_round t) :: (unit, round) outcome)"
    by (rule pi_links_defined [OF wf])
  show ?thesis by (simp add: is_dep_ok_def Some p t ex_bool_eq)
qed (simp add: is_dep_ok_def ex_bool_eq)

lemma is_dag_point_ok_total:
  assumes "judgeable info dp" "pi_round info = Suc (vt_prev_round vt)"
  shows "\<exists>ok. is_dag_point_ok vt info dp = Ok ok"
proof (cases "dp_round dp = vt_prev_round vt \<and> dp_author dp = pi_author info")
  case True
  show ?thesis
  proof (cases "pi_prev_digest info = Some (dp_digest dp) \<and> dp_trusted dp \<noteq> None")
    case trusted: True
    then obtain dep where "dp_trusted dp = Some dep" by auto
    with True trusted assms(2) show ?thesis
      using dp_trusted_parts [of dp dep]
      by (simp add: is_dag_point_ok_def is_prev_ok_def is_proof_ok_total)
  qed (use True in \<open>auto simp: is_dag_point_ok_def is_prev_ok_def\<close>)
qed (use is_dep_ok_total [OF assms(1)] in \<open>auto simp: is_dag_point_ok_def\<close>)

lemma valid_targets_total:
  assumes "pi_has_well_formed_maps info = (Ok True :: (unit, bool) outcome)" "2 \<le> pi_round info"
  obtains vt where "valid_targets_of info conf = Ok vt" "pi_round info = Suc (vt_prev_round vt)"
proof -
  obtain p pl where p: "pi_anchor_id info Proof = (Ok p :: (unit, point_id) outcome)"
      "pi_anchor_link_id info Proof = (Ok pl :: (unit, point_id) outcome)"
    by (rule pi_links_defined [OF assms])
  obtain t tl where t: "pi_anchor_id info Trigger = (Ok t :: (unit, point_id) outcome)"
      "pi_anchor_link_id info Trigger = (Ok tl :: (unit, point_id) outcome)"
    by (rule pi_links_defined [OF assms])
  from assms(2) obtain r where "pi_round info = Suc r" by (cases "pi_round info") auto
  with p t have "\<exists>vt. valid_targets_of info conf = Ok vt \<and> pi_round info = Suc (vt_prev_round vt)"
    by (simp add: valid_targets_of_def)
  with that show thesis by blast
qed

text \<open>
  C10. The order in which dependencies arrive does not matter: when every dependency is resolved, the
  validation of a point with well-formed maps returns without a panic, and returns the same verdict
  for every order of arrival.
\<close>

theorem validity_is_order_independent:
  assumes "pi_has_well_formed_maps info = (Ok True :: (unit, bool) outcome)" "2 \<le> pi_round info"
    and "\<forall>dp\<in>set dps. judgeable info dp" and "mset dps' = mset dps"
  shows "\<exists>verdict. validate_finish info (map Some dps) conf = Ok (Some verdict)
    \<and> validate_finish info (map Some dps') conf = Ok (Some verdict)"
proof -
  from assms(1,2) obtain vt where vt: "valid_targets_of info conf = Ok vt"
      "pi_round info = Suc (vt_prev_round vt)"
    by (rule valid_targets_total)
  have "\<forall>dp\<in>set dps. \<exists>ok. is_dag_point_ok vt info dp = Ok ok"
    using assms(3) is_dag_point_ok_total vt(2) by blast
  moreover have "set dps' = set dps" by (rule mset_eq_setD [OF assms(4)])
  ultimately show ?thesis
    by (simp add: validate_finish_def is_valid_def vt is_valid_loop_map_Some)
qed

text \<open>
  C12. What a valid point agrees on with each dependency other than a point of its own author at the
  previous round: the dependency is trusted, its time is ahead by the clock skew at most, its anchor
  links are not fresher than the point's, and when the point links its last anchor proof through it,
  both lead to the same proof and inherit the same anchor time.
\<close>

theorem valid_point_agrees_with_dependency:
  assumes "validate_finish info rs conf = Ok (Some ResValid)" "Some dp \<in> set rs"
    and "\<not> (Suc (dp_round dp) = pi_round info \<and> dp_author dp = pi_author info)"
  shows "\<exists>dep p dp_proof p_trig dp_trig hop. dp_trusted dp = Some dep
    \<and> pi_time dep \<le> time_add (pi_time info) (cc_clock_skew_millis (mc_consensus conf))
    \<and> pi_anchor_id info Proof = (Ok p :: (unit, point_id) outcome)
    \<and> pi_anchor_id info Trigger = (Ok p_trig :: (unit, point_id) outcome)
    \<and> pi_anchor_round dep Proof = (Ok dp_proof :: (unit, round) outcome) \<and> dp_proof \<le> pid_round p
    \<and> pi_anchor_round dep Trigger = (Ok dp_trig :: (unit, round) outcome) \<and> dp_trig \<le> pid_round p_trig
    \<and> pi_anchor_link_id info Proof = (Ok hop :: (unit, point_id) outcome)
    \<and> (pi_id dep = hop \<longrightarrow> pi_anchor_id dep Proof = (Ok p :: (unit, point_id) outcome)
          \<and> pi_anchor_time dep = pi_anchor_time info)"
proof -
  from assms(1) have "is_valid info rs conf = Ok (Some True)"
    by (auto simp: validate_finish_def outcome_simps split: if_splits)
  then obtain vt where vt: "valid_targets_of info conf = Ok vt"
      "is_valid_loop vt info rs = Ok (Some True)"
    by (auto simp: is_valid_def outcome_simps)
  have ok: "is_dag_point_ok vt info dp = Ok True"
    by (rule is_valid_loop_True [OF vt(2) assms(2)])
  have "pi_round info = Suc (vt_prev_round vt)" using vt(1) by (auto simp: valid_targets_of_def outcome_simps)
  with ok assms(3) have ok: "is_dep_ok vt info dp = Ok True" by (auto simp: is_dag_point_ok_def split: if_splits)
  then obtain dep where dep: "dp_trusted dp = Some dep"
    by (cases "dp_trusted dp") (simp_all add: is_dep_ok_def)
  from vt(1) ok show ?thesis
    by (auto simp: is_dep_ok_def dep valid_targets_of_def outcome_simps split: if_splits)
qed


section \<open>Examples\<close>

text \<open>
  Two points of round 6 and their authors' previous points, with three validators scheduled and the
  genesis at round 2. The first point links to a proof at round 2 through its own previous point.
\<close>

definition ex_point :: "peer_id \<Rightarrow> round \<Rightarrow> link \<Rightarrow> point_info" where
  "ex_point author round proof =
     \<lparr>pi_digest = of_nat (10 * round) + author, pi_signature = 0, pi_author = author, pi_round = round,
       pi_payload_len = 0, pi_payload_bytes = 0,
       pi_data = \<lparr>pd_includes = map (\<lambda>p. (p, of_nat (10 * (round - 1)) + p)) [1, 2, 3],
         pd_witness = [], pd_evidence = map (\<lambda>p. (p, 0)) (filter (\<lambda>p. p \<noteq> author) [1, 2, 3]),
         pd_anchor_trigger = Direct (Includes 2), pd_anchor_proof = proof,
         pd_time = 100 * round, pd_anchor_time = 50\<rparr>\<rparr>"

definition ex_far_link :: link where
  "ex_far_link = Indirect \<lparr>pid_author = 3, pid_round = 2, pid_digest = 23\<rparr> (Includes 1)"

definition ex_prev :: valid_point where
  "ex_prev = \<lparr>vp_info = ex_point 1 5 (Direct (Includes 2)), vp_first_valid = True,
     vp_is_first_resolved = True, vp_certified = False, vp_is_committed = False\<rparr>"

lemmas ex_point_simps = ex_point_def ex_far_link_def ex_prev_def ex_stateless_def ex_conf_def
  ex_consensus_def

lemma ex_point_wf:
  "pi_has_well_formed_maps (ex_point 1 6 ex_far_link) = (Ok True :: (unit, bool) outcome)"
  "pi_has_well_formed_maps (ex_point 2 5 (Direct (Includes 2))) = (Ok True :: (unit, bool) outcome)"
  by (simp_all add: ex_point_simps pi_has_well_formed_maps_def pd_maps_wf_iff pd_link_wf_iff
      pd_anchor_link_def bm_has_def u32_max_def split: anchor_role.split)

lemma ex_verified:
  "verify (ex_point 1 6 ex_far_link) ex_stateless ex_conf = Ok (Inr ())"
  "verify (ex_point 2 6 ex_far_link) ex_stateless ex_conf = Ok (Inr ())"
  by (simp_all add: verify_def verify_impl_def verify_peers_def links_across_genesis_def
      pi_anchor_round_def pd_anchor_round_def pd_anchor_link_def round_sub_def round_prev_def
      checked_sub_def peer_count_or_round_def pc_try_from_def verify_same_round_def verify_includes_def
      verify_witness_def unknown_peers_def pi_data_defs pi_is_well_formed_def pd_is_well_formed_def
      sl_peers_for_def epoch_lookup_def epoch_slot_def ex_point_simps Let_def u8_max_def
      pc_genesis_def pc_majority_def pc_majority_of_others_def bm_keys_def or_else_def)

lemma ex_round: "pi_round (ex_point a r l) = r"
  by (simp add: ex_point_def)

lemma ex_genesis: "mc_genesis_round ex_conf = 2"
  by (simp add: ex_conf_def)

theorem verified_dependencies_witness:
  "pi_author (ex_point 1 6 ex_far_link) \<in> sl_peers_for ex_stateless 6
   \<and> set (bm_keys (pi_includes (ex_point 1 6 ex_far_link))) \<subseteq> sl_peers_for ex_stateless 5"
  using verified_dependencies [OF ex_verified(1)] by (simp add: ex_round ex_genesis)

theorem verified_points_share_authors_witness:
  "\<exists>n. pc_try_from (card (sl_peers_for ex_stateless 5)) = Ok n
    \<and> pc_reliable_minority n
      \<le> card (set (bm_keys (pi_includes (ex_point 1 6 ex_far_link)))
          \<inter> set (bm_keys (pi_includes (ex_point 2 6 ex_far_link))))"
proof -
  have "bm_wf (pi_includes (ex_point a 6 ex_far_link))" for a
    by (simp add: ex_point_def pi_includes_def bm_wf_def)
  from verified_points_share_authors [OF ex_verified _ _ this this] show ?thesis
    by (simp add: ex_round ex_genesis)
qed

theorem verify_never_panics_witness:
  "\<exists>res. verify (ex_point 1 6 ex_far_link) ex_stateless ex_conf = Ok res"
proof -
  have "\<forall>r. card (sl_peers_for ex_stateless r) \<le> 253"
    by (simp add: sl_peers_for_def epoch_lookup_def epoch_slot_def ex_stateless_def)
  from verify_never_panics [OF ex_point_wf(1) _ this] show ?thesis by (simp add: ex_genesis)
qed

theorem validity_is_order_independent_witness:
  "\<exists>verdict. validate_finish (ex_point 1 6 ex_far_link)
       (map Some [Valid ex_prev, Valid (ex_prev\<lparr>vp_info := ex_point 2 5 (Direct (Includes 2))\<rparr>)]) ex_conf
       = Ok (Some verdict)
   \<and> validate_finish (ex_point 1 6 ex_far_link)
       (map Some [Valid (ex_prev\<lparr>vp_info := ex_point 2 5 (Direct (Includes 2))\<rparr>), Valid ex_prev]) ex_conf
       = Ok (Some verdict)"
proof (rule validity_is_order_independent [OF ex_point_wf(1)])
  show "\<forall>dp\<in>set [Valid ex_prev, Valid (ex_prev\<lparr>vp_info := ex_point 2 5 (Direct (Includes 2))\<rparr>)].
      judgeable (ex_point 1 6 ex_far_link) dp"
    by (simp add: judgeable_def ex_point_simps pi_has_well_formed_maps_def pd_maps_wf_iff
        pd_link_wf_iff pd_anchor_link_def bm_has_def u32_max_def split: anchor_role.split)
qed (simp_all add: ex_round)


theorem valid_point_agrees_with_dependency_witness:
  "\<exists>dep p. dp_trusted (Valid (ex_prev\<lparr>vp_info := ex_point 3 5 ex_far_link\<rparr>)) = Some dep
    \<and> pi_time dep \<le> 600 + 5000
    \<and> pi_anchor_id (ex_point 1 6 ex_far_link) Proof = (Ok p :: (unit, point_id) outcome)"
proof -
  let ?dp = "Valid (ex_prev\<lparr>vp_info := ex_point 3 5 ex_far_link\<rparr>)"
  have "validate_finish (ex_point 1 6 ex_far_link) [Some ?dp] ex_conf = Ok (Some ResValid)"
    by (simp add: validate_finish_def is_valid_def valid_targets_of_def is_dag_point_ok_def
        is_dep_ok_def pi_anchor_id_def pd_anchor_id_def pi_anchor_link_id_def pd_anchor_link_id_def
        pd_link_hop_def pd_anchor_link_def bm_get_def round_prev_def checked_sub_def pi_anchor_round_def
        pd_anchor_round_def pi_id_def pi_time_def time_add_def sat_add_def u64_max_def ex_point_simps)
  from valid_point_agrees_with_dependency [OF this, of ?dp] show ?thesis
    by (auto simp: ex_round ex_point_simps pi_time_def time_add_def sat_add_def u64_max_def)
qed

end
