(* ===== verification/Input_Buffer.thy ===== *)
theory Input_Buffer
  imports Point_Model
begin

text \<open>
  External messages waiting to be put in a point: \<^verbatim>\<open>consensus/src/engine/input_buffer.rs\<close>.

  The buffer is a queue with a byte counter and the number of front elements handed out by the last
  fetch. Adding to a full buffer evicts from the front. The times of arrival only feed metrics and
  are left out. The capacity handling of the queue does not change its content and is left out.

  The lemmas show that the byte counter is exact and never underflows, that a fetch is the longest
  prefix that fits a batch, and that fresh fetches walk through the messages in order without a
  repetition or a gap.
\<close>

type_synonym message = "byte list"

record input_buffer =
  ib_data :: "message list"
  ib_data_bytes :: nat
  ib_offset_elements :: nat
  ib_payload_buffer_bytes :: nat
  ib_payload_batch_bytes :: nat

definition ib_default :: input_buffer where
  "ib_default = \<lparr>ib_data = [], ib_data_bytes = 0, ib_offset_elements = 0,
     ib_payload_buffer_bytes = 0, ib_payload_batch_bytes = 0\<rparr>"

definition ib_apply_config :: "consensus_config \<Rightarrow> input_buffer \<Rightarrow> input_buffer" where
  "ib_apply_config cfg b = b\<lparr>ib_payload_buffer_bytes := cc_payload_buffer_bytes cfg,
     ib_payload_batch_bytes := cc_payload_batch_bytes cfg\<rparr>"

text \<open>\<^verbatim>\<open>take_while\<close> with the running sum of sizes.\<close>

fun ib_take :: "nat \<Rightarrow> nat \<Rightarrow> message list \<Rightarrow> message list" where
  "ib_take limit taken [] = []"
| "ib_take limit taken (m # ms) =
     (if taken + length m \<le> limit then m # ib_take limit (taken + length m) ms else [])"

definition ib_fetch_data :: "input_buffer \<Rightarrow> message list \<times> input_buffer" where
  "ib_fetch_data b =
     (let result = ib_take (ib_payload_batch_bytes b) 0 (ib_data b)
      in (result, b\<lparr>ib_offset_elements := length result\<rparr>))"

text \<open>Eviction: the number of dropped elements and the remaining bytes.\<close>

fun ib_evict :: "nat \<Rightarrow> nat \<Rightarrow> message list \<Rightarrow> (unit, nat \<times> nat) outcome" where
  "ib_evict max_bytes data_bytes [] = Ok (0, data_bytes)"
| "ib_evict max_bytes data_bytes (m # ms) =
     (if data_bytes > max_bytes then
        (case checked_sub data_bytes (length m) of
           None \<Rightarrow> Panic
         | Some rest \<Rightarrow> bindR (ib_evict max_bytes rest ms) (\<lambda>(n, bytes). Ok (Suc n, bytes)))
      else Ok (0, data_bytes))"

definition ib_add :: "message \<Rightarrow> input_buffer \<Rightarrow> (unit, input_buffer) outcome" where
  "ib_add payload b =
     (if length payload > ib_payload_buffer_bytes b then Panic
      else
        let max_data_bytes = ib_payload_buffer_bytes b - length payload
        in bindR (if ib_data_bytes b > max_data_bytes
                  then bindR (ib_evict max_data_bytes (ib_data_bytes b) (ib_data b)) (\<lambda>(to_drop, bytes).
                    Ok (b\<lparr>ib_data_bytes := bytes,
                      ib_offset_elements := ib_offset_elements b - to_drop,
                      ib_data := drop to_drop (ib_data b)\<rparr>))
                  else Ok b)
             (\<lambda>b. Ok (b\<lparr>ib_data_bytes := ib_data_bytes b + length payload,
                ib_data := ib_data b @ [payload]\<rparr>)))"

definition ib_push :: "message \<Rightarrow> input_buffer \<Rightarrow> (unit, input_buffer) outcome" where
  "ib_push m b =
     (if ib_payload_buffer_bytes b = 0 \<or> ib_payload_batch_bytes b = 0 then Ok b else ib_add m b)"

text \<open>\<^verbatim>\<open>drain(..n)\<close> panics when \<open>n\<close> exceeds the length.\<close>

definition ib_commit_offset :: "input_buffer \<Rightarrow> (unit, input_buffer) outcome" where
  "ib_commit_offset b =
     (if ib_offset_elements b > length (ib_data b) then Panic
      else
        let committed_bytes = sum_list (map length (take (ib_offset_elements b) (ib_data b)))
        in case checked_sub (ib_data_bytes b) committed_bytes of
             None \<Rightarrow> Panic
           | Some bytes \<Rightarrow> Ok (b\<lparr>ib_data := drop (ib_offset_elements b) (ib_data b),
               ib_data_bytes := bytes, ib_offset_elements := 0\<rparr>))"

definition ib_fetch :: "bool \<Rightarrow> input_buffer \<Rightarrow> (unit, message list \<times> input_buffer) outcome" where
  "ib_fetch only_fresh b =
     bindR (if only_fresh then ib_commit_offset b else Ok b) (\<lambda>b. Ok (ib_fetch_data b))"

section \<open>Invariant\<close>

abbreviation msg_bytes :: "message list \<Rightarrow> nat" where
  "msg_bytes ms \<equiv> sum_list (map length ms)"

definition ib_inv :: "input_buffer \<Rightarrow> bool" where
  "ib_inv b \<longleftrightarrow> ib_data_bytes b = msg_bytes (ib_data b) \<and> ib_offset_elements b \<le> length (ib_data b)"

lemma ib_take_prefix:
  obtains k where "k \<le> length ms" "ib_take limit taken ms = take k ms"
    "k = 0 \<or> taken + msg_bytes (take k ms) \<le> limit"
    "k < length ms \<longrightarrow> limit < taken + msg_bytes (take (Suc k) ms)"
proof (induction limit taken ms arbitrary: thesis rule: ib_take.induct)
  case (1 limit taken)
  show ?case by (rule 1 [of 0]) simp_all
next
  case (2 limit taken m ms)
  show ?case
  proof (cases "taken + length m \<le> limit")
    case True
    from 2(1) [OF True] obtain k where "k \<le> length ms"
        "ib_take limit (taken + length m) ms = take k ms"
        "k = 0 \<or> taken + length m + msg_bytes (take k ms) \<le> limit"
        "k < length ms \<longrightarrow> limit < taken + length m + msg_bytes (take (Suc k) ms)"
      by metis
    with True show ?thesis by (intro 2(2) [of "Suc k"]) auto
  next
    case False
    then show ?thesis by (intro 2(2) [of 0]) auto
  qed
qed

lemma ib_evict_exact:
  "\<exists>n. ib_evict max_bytes (msg_bytes ms) ms = Ok (n, msg_bytes (drop n ms)) \<and> n \<le> length ms
     \<and> msg_bytes (drop n ms) \<le> max_bytes
     \<and> (\<forall>k<n. max_bytes < msg_bytes (drop k ms))"
proof (induction ms)
  case (Cons m ms)
  show ?case
  proof (cases "msg_bytes (m # ms) > max_bytes")
    case True
    from Cons obtain n where "ib_evict max_bytes (msg_bytes ms) ms = Ok (n, msg_bytes (drop n ms))"
        "n \<le> length ms" "msg_bytes (drop n ms) \<le> max_bytes" "\<forall>k<n. max_bytes < msg_bytes (drop k ms)"
      by blast
    with True show ?thesis
      by (intro exI [of _ "Suc n"]) (auto simp: checked_sub_def less_Suc_eq_0_disj)
  qed auto
qed simp

lemma ib_add_exact:
  assumes "ib_inv b" "length m \<le> ib_payload_buffer_bytes b"
  shows "\<exists>n. ib_add m b = Ok (b\<lparr>ib_data := drop n (ib_data b) @ [m],
        ib_data_bytes := msg_bytes (drop n (ib_data b) @ [m]),
        ib_offset_elements := ib_offset_elements b - n\<rparr>)
    \<and> n \<le> length (ib_data b) \<and> msg_bytes (drop n (ib_data b) @ [m]) \<le> ib_payload_buffer_bytes b
    \<and> (\<forall>k<n. ib_payload_buffer_bytes b < msg_bytes (drop k (ib_data b) @ [m]))"
proof (cases "ib_data_bytes b > ib_payload_buffer_bytes b - length m")
  case True
  from ib_evict_exact [of "ib_payload_buffer_bytes b - length m" "ib_data b"] obtain n where
    "ib_evict (ib_payload_buffer_bytes b - length m) (ib_data_bytes b) (ib_data b)
       = Ok (n, msg_bytes (drop n (ib_data b)))" "n \<le> length (ib_data b)"
    "msg_bytes (drop n (ib_data b)) \<le> ib_payload_buffer_bytes b - length m"
    "\<forall>k<n. ib_payload_buffer_bytes b - length m < msg_bytes (drop k (ib_data b))"
    using assms(1) by (auto simp: ib_inv_def)
  with True assms show ?thesis
    by (intro exI [of _ n]) (fastforce simp: ib_add_def)
next
  case False
  with assms show ?thesis by (intro exI [of _ 0]) (auto simp: ib_add_def ib_inv_def)
qed

lemma ib_commit_exact:
  assumes "ib_inv b"
  shows "ib_commit_offset b = Ok (b\<lparr>ib_data := drop (ib_offset_elements b) (ib_data b),
    ib_data_bytes := msg_bytes (drop (ib_offset_elements b) (ib_data b)), ib_offset_elements := 0\<rparr>)"
proof -
  have "msg_bytes (ib_data b) = msg_bytes (take (ib_offset_elements b) (ib_data b))
      + msg_bytes (drop (ib_offset_elements b) (ib_data b))"
    by (metis append_take_drop_id map_append sum_list_append)
  with assms show ?thesis
    by (simp add: ib_commit_offset_def ib_inv_def checked_sub_def Let_def)
qed

lemma ib_fetch_data_inv:
  assumes "ib_inv b" "ib_fetch_data b = (ms, b')"
  shows "ib_inv b'" "msg_bytes ms \<le> ib_payload_batch_bytes b" "ib_data b' = ib_data b"
    "ib_offset_elements b' = length ms" "ms = take (length ms) (ib_data b)"
proof -
  obtain k where k: "k \<le> length (ib_data b)" "ib_take (ib_payload_batch_bytes b) 0 (ib_data b) = take k (ib_data b)"
    "k = 0 \<or> 0 + msg_bytes (take k (ib_data b)) \<le> ib_payload_batch_bytes b"
    by (rule ib_take_prefix)
  with assms(2) have "ms = take k (ib_data b)" "b' = b\<lparr>ib_offset_elements := k\<rparr>"
    by (auto simp: ib_fetch_data_def Let_def)
  with k assms(1) show "ib_inv b'" "msg_bytes ms \<le> ib_payload_batch_bytes b" "ib_data b' = ib_data b"
      "ib_offset_elements b' = length ms" "ms = take (length ms) (ib_data b)"
    by (auto simp: ib_inv_def)
qed

section \<open>Delivery in order\<close>

text \<open>
  The life of a buffer with two ghosts: the log of all accepted messages, and the position in the log
  after the last message handed out, which moves over the messages that were evicted.
\<close>

definition ib_configured :: "input_buffer \<Rightarrow> bool" where
  "ib_configured b \<longleftrightarrow> ib_payload_buffer_bytes b \<noteq> 0 \<and> ib_payload_batch_bytes b \<noteq> 0"

inductive ib_life :: "message list \<Rightarrow> nat \<Rightarrow> input_buffer \<Rightarrow> bool" where
  start: "ib_life [] 0 ib_default"
| config: "ib_life log h b \<Longrightarrow> ib_life log h (ib_apply_config cfg b)"
| ignore: "ib_life log h b \<Longrightarrow> \<not> ib_configured b \<Longrightarrow> ib_push m b = Ok b' \<Longrightarrow> ib_life log h b'"
| push: "ib_life log h b \<Longrightarrow> ib_configured b \<Longrightarrow> ib_push m b = Ok b'
    \<Longrightarrow> ib_life (log @ [m]) (max h (Suc (length log) - length (ib_data b'))) b'"
| fetch: "ib_life log h b \<Longrightarrow> ib_fetch only_fresh b = Ok (ms, b')
    \<Longrightarrow> ib_life log (length log - length (ib_data b') + length ms) b'"

text \<open>The buffer holds the end of the log, and the offset points at the position.\<close>

definition ib_at :: "message list \<Rightarrow> nat \<Rightarrow> input_buffer \<Rightarrow> bool" where
  "ib_at log h b \<longleftrightarrow> ib_inv b \<and> (\<exists>p\<le>length log. ib_data b = drop p log \<and> h = p + ib_offset_elements b)"

lemma ib_at_add:
  assumes "ib_at log h b" "length m \<le> ib_payload_buffer_bytes b" "ib_add m b = Ok b'"
  shows "ib_at (log @ [m]) (max h (Suc (length log) - length (ib_data b'))) b'"
proof -
  from assms(1) obtain p where p: "p \<le> length log" "ib_data b = drop p log" "h = p + ib_offset_elements b"
    and inv: "ib_inv b" by (auto simp: ib_at_def)
  from ib_add_exact [OF inv assms(2)] assms(3) obtain n where
    n: "b' = b\<lparr>ib_data := drop n (ib_data b) @ [m], ib_data_bytes := msg_bytes (drop n (ib_data b) @ [m]),
       ib_offset_elements := ib_offset_elements b - n\<rparr>" "n \<le> length (ib_data b)"
    by auto
  with inv p show ?thesis
    unfolding ib_at_def by (intro conjI exI [of _ "n + p"]) (auto simp: ib_inv_def)
qed

lemma ib_at_commit:
  assumes "ib_at log h b" "ib_commit_offset b = Ok b'"
  shows "ib_at log h b'" "ib_data b' = drop h log" "ib_offset_elements b' = 0"
    "ib_payload_batch_bytes b' = ib_payload_batch_bytes b"
proof -
  from assms(1) obtain p where p: "p \<le> length log" "ib_data b = drop p log" "h = p + ib_offset_elements b"
    and inv: "ib_inv b" by (auto simp: ib_at_def)
  from ib_commit_exact [OF inv] assms(2) have "b' = b\<lparr>ib_data := drop (ib_offset_elements b) (ib_data b),
      ib_data_bytes := msg_bytes (drop (ib_offset_elements b) (ib_data b)), ib_offset_elements := 0\<rparr>"
    by simp
  with p inv show "ib_data b' = drop h log" "ib_offset_elements b' = 0" "ib_at log h b'"
    "ib_payload_batch_bytes b' = ib_payload_batch_bytes b"
    by (auto simp: ib_at_def ib_inv_def add.commute)
qed

lemma ib_at_fetch_data:
  assumes "ib_at log h b" "ib_fetch_data b = (ms, b')"
  shows "ib_at log (length log - length (ib_data b') + length ms) b'"
proof -
  from assms(1) obtain p where p: "p \<le> length log" "ib_data b = drop p log" and inv: "ib_inv b"
    by (auto simp: ib_at_def)
  with ib_fetch_data_inv [OF inv assms(2)] show ?thesis
    by (auto simp: ib_at_def intro!: exI [of _ p])
qed

lemma ib_life_at: "ib_life log h b \<Longrightarrow> ib_at log h b"
proof (induction rule: ib_life.induct)
  case start
  show ?case by (simp add: ib_at_def ib_inv_def ib_default_def)
next
  case (config log h b cfg)
  then show ?case by (simp add: ib_at_def ib_inv_def ib_apply_config_def)
next
  case (ignore log h b m b')
  then show ?case by (auto simp: ib_push_def ib_configured_def)
next
  case (push log h b m b')
  then have "ib_add m b = Ok b'" by (simp add: ib_push_def ib_configured_def)
  moreover from this have "length m \<le> ib_payload_buffer_bytes b"
    by (auto simp: ib_add_def split: if_splits)
  ultimately show ?case by (intro ib_at_add [OF push.IH])
next
  case (fetch log h b only_fresh ms b')
  show ?case
  proof (cases only_fresh)
    case True
    with fetch obtain c where c: "ib_commit_offset b = Ok c" "ib_fetch_data c = (ms, b')"
      by (auto simp: ib_fetch_def outcome_simps)
    from ib_at_commit(1) [OF fetch.IH c(1)] c(2) show ?thesis by (rule ib_at_fetch_data)
  qed (use fetch in \<open>auto simp: ib_fetch_def intro: ib_at_fetch_data\<close>)
qed

text \<open>
  C14. External messages are handed out in order: in every state a buffer can reach, a fresh fetch
  succeeds and returns exactly the next accepted messages after the ones handed out before (or
  evicted since), as many as fit the batch; the first one left out would not fit.
\<close>

theorem fresh_fetch_continues:
  assumes "ib_life log h b"
  shows "\<exists>ms b'. ib_fetch True b = Ok (ms, b') \<and> ms = take (length ms) (drop h log)
    \<and> msg_bytes ms \<le> ib_payload_batch_bytes b
    \<and> (h + length ms < length log \<longrightarrow>
         ib_payload_batch_bytes b < msg_bytes (take (Suc (length ms)) (drop h log)))"
proof -
  have "ib_at log h b" using assms by (rule ib_life_at)
  then have "ib_inv b" by (simp add: ib_at_def)
  from ib_commit_exact [OF \<open>ib_inv b\<close>] obtain c where c1: "ib_commit_offset b = Ok c" by simp
  note c = c1 ib_at_commit(2,4) [OF \<open>ib_at log h b\<close> c1]
  obtain k where k: "k \<le> length (ib_data c)"
      "ib_take (ib_payload_batch_bytes c) 0 (ib_data c) = take k (ib_data c)"
      "k = 0 \<or> 0 + msg_bytes (take k (ib_data c)) \<le> ib_payload_batch_bytes c"
      "k < length (ib_data c) \<longrightarrow> ib_payload_batch_bytes c < 0 + msg_bytes (take (Suc k) (ib_data c))"
    by (rule ib_take_prefix [where ms = "ib_data c" and limit = "ib_payload_batch_bytes c" and taken = 0])
  have "ib_fetch True b = Ok (take k (drop h log), c\<lparr>ib_offset_elements := length (take k (drop h log))\<rparr>)"
    using c k(2) by (simp add: ib_fetch_def ib_fetch_data_def Let_def)
  with k c show ?thesis
    by (intro exI [of _ "take k (drop h log)"] exI conjI) (auto simp: min_def)
qed

text \<open>
  C15. A push never panics on a message that fits the buffer, never exceeds the configured size, and
  drops the oldest messages only, no more of them than needed.
\<close>

theorem push_evicts_oldest:
  assumes "ib_life log h b" "ib_configured b" "length m \<le> ib_payload_buffer_bytes b"
  shows "\<exists>n b'. ib_push m b = Ok b' \<and> ib_data b' = drop n (ib_data b) @ [m]
    \<and> ib_data_bytes b' = msg_bytes (ib_data b') \<and> ib_data_bytes b' \<le> ib_payload_buffer_bytes b
    \<and> (\<forall>k<n. ib_payload_buffer_bytes b < msg_bytes (drop k (ib_data b) @ [m]))"
proof -
  from ib_life_at [OF assms(1)] have "ib_inv b" by (simp add: ib_at_def)
  from ib_add_exact [OF this assms(3)] assms(2) show ?thesis
    by (auto simp: ib_push_def ib_configured_def)
qed

definition ex_input :: input_buffer where
  "ex_input = \<lparr>ib_data = [[1, 2]], ib_data_bytes = 2, ib_offset_elements = 0,
     ib_payload_buffer_bytes = 3, ib_payload_batch_bytes = 2\<rparr>"

definition ex_input_config :: consensus_config where
  "ex_input_config = \<lparr>cc_clock_skew_millis = 0, cc_payload_batch_bytes = 2,
     cc_payload_buffer_bytes = 3, cc_commit_history_rounds = 0, cc_deduplicate_rounds = 0,
     cc_max_consensus_lag_rounds = 0, cc_sync_support_rounds = 0, cc_download_tasks = 0\<rparr>"

lemma ex_input_life: "ib_life [[1, 2]] 0 ex_input" "ib_configured ex_input"
proof -
  have "ib_life [] 0 (ib_apply_config ex_input_config ib_default)"
    by (intro ib_life.config ib_life.start)
  moreover have "ib_push [1, 2] (ib_apply_config ex_input_config ib_default) = Ok ex_input"
    by (simp add: ib_push_def ib_add_def ib_apply_config_def ib_default_def ex_input_config_def
        ex_input_def Let_def)
  ultimately show "ib_life [[1, 2]] 0 ex_input"
    using ib_life.push [of "[]" 0 _ "[1, 2]" ex_input]
    by (simp add: ib_configured_def ib_apply_config_def ib_default_def ex_input_config_def ex_input_def)
qed (simp add: ib_configured_def ex_input_def)

theorem fresh_fetch_continues_witness:
  "\<exists>ms b'. ib_fetch True ex_input = Ok (ms, b') \<and> ms = take (length ms) [[1, 2]]"
  using fresh_fetch_continues [OF ex_input_life(1)] by auto

theorem push_evicts_oldest_witness:
  "\<exists>n b'. ib_push [3, 4] ex_input = Ok b' \<and> ib_data b' = drop n [[1, 2]] @ [[3, 4]]
    \<and> ib_data_bytes b' \<le> 3"
  using push_evicts_oldest [OF ex_input_life, of "[3, 4]"] by (auto simp: ex_input_def)

end
