(* ===== verification/Producer.thy ===== *)
theory Producer
  imports Verifier Input_Buffer
begin

text \<open>
  Producing a point: \<^verbatim>\<open>consensus/src/dag/producer.rs\<close>.

  A point includes the points of the finished round, witnesses the signed points of the round before
  that its author did not include yet, and links to the freshest anchor stages any of them knows.
  The debug assertion of the check of the previous point belongs to debug builds and is left out.

  The lemmas show that what a node produces passes the checks of the other nodes: the maps and the
  links are well-formed, and every dependency is judged valid.
\<close>

section \<open>Model\<close>

record last_own_point =
  lo_digest :: digest
  lo_evidence :: "(peer_id, signature) bmap"
  lo_includes :: "(peer_id, digest) bmap"
  lo_round :: round
  lo_signers :: peer_count

datatype produce_error =
    NotAllowed
  | NotEnoughEvidence
  | NextRoundThreshold
  | NotScheduled
  | PrevPointMismatch digest digest

text \<open>\<^verbatim>\<open>max_by_key\<close> keeps the last of the equal maxima.\<close>

fun last_max :: "('a \<times> nat) list \<Rightarrow> ('a \<times> nat) option" where
  "last_max [] = None"
| "last_max (x # xs) =
     (case last_max xs of None \<Rightarrow> Some x | Some y \<Rightarrow> if snd x \<le> snd y then Some y else Some x)"

definition keyed_by_anchor ::
  "anchor_role \<Rightarrow> point_info list \<Rightarrow> (unit, (point_info \<times> round) list) outcome" where
  "keyed_by_anchor role infos =
     mapR (\<lambda>info. bindR (pi_anchor_round info role) (\<lambda>r. Ok (info, r))) infos"

definition pr_proven_vertex :: "last_own_point option \<Rightarrow> round \<Rightarrow> produce_error + digest option" where
  "pr_proven_vertex last_own finished =
     (case last_own of
        None \<Rightarrow> Inr None
      | Some prev \<Rightarrow>
          if lo_round prev = finished then
            if length (lo_evidence prev) \<ge> pc_majority_of_others (lo_signers prev)
            then Inr (Some (lo_digest prev))
            else Inl NotEnoughEvidence
          else Inr None)"

definition pr_includes :: "unix_time \<Rightarrow> dag_round \<Rightarrow> (unit, point_info list \<times> dag_round) outcome" where
  "pr_includes now finished =
     bindR (th_get_reached now (dr_threshold finished)) (\<lambda>(includes, th).
       if length includes < pc_majority (dr_peer_count finished) then Panic
       else Ok (includes, finished\<lparr>dr_threshold := th\<rparr>))"

text \<open>
  Every location of the witness round that is not skipped is asked for its signed point, which closes
  it when it has none.
\<close>

fun pr_witness_locations ::
  "(peer_id \<Rightarrow> bool) \<Rightarrow> (peer_id, dag_location) bmap
   \<Rightarrow> point_info list \<times> (peer_id, dag_location) bmap" where
  "pr_witness_locations skip [] = ([], [])"
| "pr_witness_locations skip ((peer, loc) # rest) =
     (let (infos, rest') = pr_witness_locations skip rest
      in if skip peer then (infos, (peer, loc) # rest')
         else let (signed, state) = in_get_or_reject (dl_state loc);
                  loc' = loc\<lparr>dl_state := state\<rparr>
              in (case signed of
                    Inl _ \<Rightarrow> (infos, (peer, loc') # rest')
                  | Inr (first_resolved, _) \<Rightarrow> (vp_info first_resolved # infos, (peer, loc') # rest')))"

definition pr_witness_skip :: "peer_id \<Rightarrow> last_own_point option \<Rightarrow> round \<Rightarrow> peer_id \<Rightarrow> bool" where
  "pr_witness_skip local_id last_own finished peer =
     (case last_own of
        Some l \<Rightarrow> if lo_round l = finished then bm_has (lo_includes l) peer else peer = local_id
      | None \<Rightarrow> peer = local_id)"

definition pr_witness ::
  "peer_id \<Rightarrow> last_own_point option \<Rightarrow> round \<Rightarrow> dag_round list \<Rightarrow> point_info list \<times> dag_round list" where
  "pr_witness local_id last_own finished older =
     (case older of
        [] \<Rightarrow> ([], [])
      | witness_round # rest \<Rightarrow>
          let (infos, locations) =
                pr_witness_locations (pr_witness_skip local_id last_own finished) (dr_locations witness_round)
          in (infos, witness_round\<lparr>dr_locations := locations\<rparr> # rest))"

definition pr_link_from_includes ::
  "peer_id \<Rightarrow> round \<Rightarrow> anchor_stage option \<Rightarrow> point_info list \<Rightarrow> bool \<Rightarrow> anchor_role
   \<Rightarrow> (unit, link) outcome" where
  "pr_link_from_includes local_id current stage includes has_candidate link_field =
     (if (case stage of
            Some s \<Rightarrow> as_role s = link_field \<and> as_leader s = local_id \<and> has_candidate
          | None \<Rightarrow> False)
      then Ok ToSelf
      else bindR (keyed_by_anchor link_field includes) (\<lambda>keyed.
        case last_max keyed of
          None \<Rightarrow> Panic
        | Some (info, _) \<Rightarrow>
            bindR (round_prev current) (\<lambda>prev.
              if pi_round info = prev \<and> pi_anchor_link info link_field = ToSelf
              then Ok (Direct (Includes (pi_author info)))
              else bindR (pi_anchor_id info link_field) (\<lambda>to.
                Ok (Indirect to (Includes (pi_author info)))))))"

definition pr_update_link_from_witness ::
  "link \<Rightarrow> round \<Rightarrow> point_info list \<Rightarrow> anchor_role \<Rightarrow> (unit, link) outcome" where
  "pr_update_link_from_witness link current witness link_field =
     (case link of
        ToSelf \<Rightarrow> Ok link
      | Direct _ \<Rightarrow> Ok link
      | Indirect link_to _ \<Rightarrow>
          bindR (keyed_by_anchor link_field witness) (\<lambda>keyed.
            case last_max (filter (\<lambda>e. snd e > pid_round link_to) keyed) of
              None \<Rightarrow> Ok link
            | Some (info, _) \<Rightarrow>
                bindR (round_prev current) (\<lambda>prev.
                bindR (round_prev prev) (\<lambda>prev_prev.
                  if pi_round info = prev_prev \<and> pi_anchor_link info link_field = ToSelf
                  then Ok (Direct (Witness (pi_author info)))
                  else bindR (pi_anchor_id info link_field) (\<lambda>to.
                    Ok (Indirect to (Witness (pi_author info))))))))"

definition pr_path_info ::
  "through \<Rightarrow> point_info list \<Rightarrow> point_info list \<Rightarrow> (unit, point_info) outcome" where
  "pr_path_info path includes witness =
     (case (case path of
              Includes peer \<Rightarrow> List.find (\<lambda>info. pi_author info = peer) includes
            | Witness peer \<Rightarrow> List.find (\<lambda>info. pi_author info = peer) witness) of
        None \<Rightarrow> Panic
      | Some info \<Rightarrow> Ok info)"

definition pr_anchor_time ::
  "link \<Rightarrow> point_info option \<Rightarrow> point_info list \<Rightarrow> point_info list \<Rightarrow> (unit, unix_time) outcome" where
  "pr_anchor_time anchor_proof prev_info includes witness =
     (case anchor_proof of
        ToSelf \<Rightarrow> (case prev_info of None \<Rightarrow> Panic | Some info \<Rightarrow> Ok (pi_time info))
      | Direct path \<Rightarrow> bindR (pr_path_info path includes witness) (\<lambda>info. Ok (pi_anchor_time info))
      | Indirect _ path \<Rightarrow> bindR (pr_path_info path includes witness) (\<lambda>info. Ok (pi_anchor_time info)))"

definition pr_get_time ::
  "unix_time \<Rightarrow> link \<Rightarrow> point_info option \<Rightarrow> point_info list \<Rightarrow> point_info list
   \<Rightarrow> (unit, unix_time \<times> unix_time) outcome" where
  "pr_get_time now anchor_proof prev_info includes witness =
     bindR (pr_anchor_time anchor_proof prev_info includes witness) (\<lambda>anchor_time.
       let deps_time = (case prev_info of None \<Rightarrow> anchor_time | Some info \<Rightarrow> max anchor_time (pi_time info))
       in Ok (max now (time_next deps_time), anchor_time))"

definition pr_check_prev_point ::
  "point_info option \<Rightarrow> digest option \<Rightarrow> (unit, produce_error + unit) outcome" where
  "pr_check_prev_point prev_info proven_vertex =
     (case (map_option pi_digest prev_info, proven_vertex) of
        (None, None) \<Rightarrow> Ok (Inr ())
      | (Some included, Some broadcasted) \<Rightarrow>
          if included = broadcasted then Ok (Inr ())
          else Ok (Inl (PrevPointMismatch included broadcasted))
      | _ \<Rightarrow> Panic)"

definition infos_map :: "point_info list \<Rightarrow> (peer_id, digest) bmap" where
  "infos_map infos = fold (\<lambda>info. bm_insert (pi_author info) (pi_digest info)) infos []"

text \<open>The links of a new point, from the collected dependencies.\<close>

definition pr_links ::
  "peer_id \<Rightarrow> dag_round \<Rightarrow> last_own_point option \<Rightarrow> digest option \<Rightarrow> point_info list \<Rightarrow> point_info list
   \<Rightarrow> (unit, link \<times> link) outcome" where
  "pr_links local_id current last_own proven includes witness =
     bindR (pr_link_from_includes local_id (dr_round current) (dr_anchor_stage current) includes
         (proven \<noteq> None \<and> (case last_own of None \<Rightarrow> False | Some prev \<Rightarrow> bm_has (lo_includes prev) local_id))
         Trigger) (\<lambda>trigger.
     bindR (pr_link_from_includes local_id (dr_round current) (dr_anchor_stage current) includes
         (proven \<noteq> None) Proof) (\<lambda>proof.
     bindR (pr_update_link_from_witness trigger (dr_round current) witness Trigger) (\<lambda>trigger.
     bindR (pr_update_link_from_witness proof (dr_round current) witness Proof) (\<lambda>proof.
       Ok (trigger, proof)))))"

text \<open>The body of a new point, or the reason not to produce it.\<close>

definition pr_data ::
  "unix_time \<Rightarrow> peer_id \<Rightarrow> last_own_point option \<Rightarrow> digest option \<Rightarrow> point_info list \<Rightarrow> point_info list
   \<Rightarrow> link \<Rightarrow> link \<Rightarrow> (unit, produce_error + point_data) outcome" where
  "pr_data now local_id last_own proven includes witness trigger proof =
     (let prev_info = List.find (\<lambda>info. pi_author info = local_id) includes
      in bindR (pr_check_prev_point prev_info proven) (\<lambda>checked.
           case checked of
             Inl e \<Rightarrow> Ok (Inl e)
           | Inr _ \<Rightarrow>
               bindR (pr_get_time now proof prev_info includes witness) (\<lambda>(time, anchor_time).
                 if proven \<noteq> bm_get (infos_map includes) local_id then Panic
                 else Ok (Inr \<lparr>pd_includes = infos_map includes, pd_witness = infos_map witness,
                        pd_evidence = (case (proven, last_own) of
                            (Some _, Some p) \<Rightarrow> lo_evidence p | _ \<Rightarrow> []),
                        pd_anchor_trigger = trigger, pd_anchor_proof = proof, pd_time = time,
                        pd_anchor_time = anchor_time\<rparr>))))"

definition pr_only_fresh :: "last_own_point option \<Rightarrow> bool" where
  "pr_only_fresh last_own =
     (case last_own of None \<Rightarrow> True
      | Some l \<Rightarrow> length (lo_evidence l) \<ge> pc_reliable_minority (lo_signers l))"

text \<open>\<open>write_to\<close>, \<open>hash\<close> and \<open>sign\<close> are the serialiser, the digest and the signature of a point.\<close>

definition pr_new_point ::
  "(digest \<Rightarrow> signature \<Rightarrow> peer_id \<Rightarrow> round \<Rightarrow> byte list list \<Rightarrow> point_data \<Rightarrow> byte list)
   \<Rightarrow> (byte list \<Rightarrow> digest) \<Rightarrow> (peer_id \<Rightarrow> digest \<Rightarrow> signature)
   \<Rightarrow> unix_time \<Rightarrow> last_own_point option \<Rightarrow> input_buffer \<Rightarrow> dag_head
   \<Rightarrow> (unit, (produce_error + point) \<times> input_buffer \<times> dag_head) outcome" where
  "pr_new_point write_to hash sign now last_own buffer head =
     (case kg_to_produce (dh_keys head) of
        None \<Rightarrow> Ok (Inl NotScheduled, buffer, head)
      | Some key_pair \<Rightarrow>
          (case pr_proven_vertex last_own (dr_round (dh_prev head)) of
             Inl e \<Rightarrow> Ok (Inl e, buffer, head)
           | Inr proven \<Rightarrow>
               bindR (pr_includes now (dh_prev head)) (\<lambda>(includes, finished).
                 let (witness, older) = pr_witness key_pair last_own (dr_round finished) (dh_older head);
                     head = head\<lparr>dh_prev := finished, dh_older := older\<rparr>
                 in bindR (pr_links key_pair (dh_current head) last_own proven includes witness)
                      (\<lambda>(trigger, proof).
                    bindR (ib_fetch (pr_only_fresh last_own) buffer) (\<lambda>(payload, buffer).
                    bindR (pr_data now key_pair last_own proven includes witness trigger proof) (\<lambda>data.
                      case data of
                        Inl e \<Rightarrow> Ok (Inl e, buffer, head)
                      | Inr data \<Rightarrow>
                          bindR (point_new write_to hash sign (\<lambda>key. key) key_pair key_pair
                              (dr_round (dh_current head)) payload data) (\<lambda>pt.
                            Ok (Inr pt, buffer, head))))))))"

section \<open>Links of a new point\<close>

text \<open>A dependency of round \<open>r\<close> with well-formed maps, and where its anchor links lead.\<close>

definition dep_ok :: "round \<Rightarrow> point_info \<Rightarrow> bool" where
  "dep_ok r i \<longleftrightarrow> pi_round i = r \<and> 2 \<le> r \<and> pi_has_well_formed_maps i = (Ok True :: (unit, bool) outcome)"

definition dest :: "anchor_role \<Rightarrow> point_info \<Rightarrow> point_id" where
  "dest role i = (case (pi_anchor_id i role :: (unit, point_id) outcome) of Ok to \<Rightarrow> to | _ \<Rightarrow> pi_id i)"

lemma dep_ok_dest:
  assumes "dep_ok r i"
  shows "pi_anchor_id i role = (Ok (dest role i) :: (unit, point_id) outcome)"
    and "pi_anchor_round i role = (Ok (pid_round (dest role i)) :: (unit, round) outcome)"
    and "pi_anchor_link i role = ToSelf \<and> dest role i = pi_id i
         \<or> pi_anchor_link i role \<noteq> ToSelf \<and> pid_round (dest role i) < r"
proof -
  from assms have wf: "pi_has_well_formed_maps i = (Ok True :: (unit, bool) outcome)" "2 \<le> pi_round i"
    and r: "pi_round i = r" by (auto simp: dep_ok_def)
  obtain to where "pi_anchor_id i role = (Ok to :: (unit, point_id) outcome)"
      "pi_anchor_round i role = (Ok (pid_round to) :: (unit, round) outcome)"
      "pi_anchor_link i role = ToSelf \<and> to = pi_id i
       \<or> pi_anchor_link i role \<noteq> ToSelf \<and> pid_round to < pi_round i"
    by (rule pi_links_defined [OF wf])
  then show "pi_anchor_id i role = (Ok (dest role i) :: (unit, point_id) outcome)"
    "pi_anchor_round i role = (Ok (pid_round (dest role i)) :: (unit, round) outcome)"
    "pi_anchor_link i role = ToSelf \<and> dest role i = pi_id i
     \<or> pi_anchor_link i role \<noteq> ToSelf \<and> pid_round (dest role i) < r"
    using r by (auto simp: dest_def)
qed

lemma pid_round_dest: "dep_ok r i \<Longrightarrow> pid_round (dest role i) \<le> r"
  using dep_ok_dest(3) [of r i role] by (auto simp: dep_ok_def pi_id_def)

lemma last_max_None [simp]: "last_max xs = None \<longleftrightarrow> xs = []"
  by (cases xs) (auto split: option.splits)

lemma last_max_Some: "last_max xs = Some x \<Longrightarrow> x \<in> set xs \<and> (\<forall>y\<in>set xs. snd y \<le> snd x)"
proof (induction xs arbitrary: x)
  case (Cons y ys)
  then show ?case by (cases "last_max ys") (fastforce split: if_splits)+
qed simp

lemma keyed_by_anchor_ok:
  "\<forall>i\<in>set infos. dep_ok r i \<Longrightarrow>
   keyed_by_anchor role infos = Ok (map (\<lambda>i. (i, pid_round (dest role i))) infos)"
  by (induction infos) (auto simp: keyed_by_anchor_def dep_ok_dest(2))

text \<open>
  The link through a dependency, and when it is the freshest of all. \<open>path_ok\<close> is what the producer
  makes sure of.
\<close>

definition link_via :: "anchor_role \<Rightarrow> (peer_id \<Rightarrow> through) \<Rightarrow> point_info \<Rightarrow> link" where
  "link_via role path i = (if pi_anchor_link i role = ToSelf then Direct (path (pi_author i))
     else Indirect (dest role i) (path (pi_author i)))"

definition freshest :: "anchor_role \<Rightarrow> point_info set \<Rightarrow> point_info \<Rightarrow> bool" where
  "freshest role A i \<longleftrightarrow> (\<forall>j\<in>A. pid_round (dest role j) \<le> pid_round (dest role i))"

definition path_ok :: "anchor_role \<Rightarrow> point_info list \<Rightarrow> point_info list \<Rightarrow> link \<Rightarrow> bool" where
  "path_ok role includes witness l \<longleftrightarrow> l = ToSelf
     \<or> (\<exists>i\<in>set includes. l = link_via role Includes i \<and> freshest role (set includes \<union> set witness) i)
     \<or> (\<exists>i\<in>set witness. l = link_via role Witness i \<and> freshest role (set includes \<union> set witness) i)"

lemma link_from_includes_ok:
  assumes "\<forall>i\<in>set includes. dep_ok (Suc k) i" "includes \<noteq> []"
  obtains (self) "pr_link_from_includes local_id (Suc (Suc k)) stage includes cand role = Ok ToSelf" cand
  | (via) i where "i \<in> set includes" "freshest role (set includes) i"
      "pr_link_from_includes local_id (Suc (Suc k)) stage includes cand role = Ok (link_via role Includes i)"
proof (cases "case stage of Some s \<Rightarrow> as_role s = role \<and> as_leader s = local_id \<and> cand | None \<Rightarrow> False")
  case True
  then show thesis by (intro self) (auto simp: pr_link_from_includes_def split: option.splits)
next
  case False
  let ?keyed = "map (\<lambda>i. (i, pid_round (dest role i))) includes"
  from assms(2) obtain x where x: "last_max ?keyed = Some x"
    by (cases "last_max ?keyed") simp_all
  from last_max_Some [OF x] obtain i where i: "x = (i, pid_round (dest role i))" "i \<in> set includes"
      "freshest role (set includes) i"
    by (auto simp: freshest_def)
  with assms(1) have dep: "dep_ok (Suc k) i" by blast
  then have "pi_round i = Suc k" by (simp add: dep_ok_def)
  with i x dep_ok_dest(1) [OF dep, of role] show thesis
    by (intro via [of i]) (simp_all add: pr_link_from_includes_def False keyed_by_anchor_ok [OF assms(1)]
        link_via_def)
qed

lemma update_link_ok:
  assumes "\<forall>i\<in>set includes. dep_ok (Suc k) i" "\<forall>i\<in>set witness. dep_ok k i"
    and "i \<in> set includes" "freshest role (set includes) i"
  shows "\<exists>l. pr_update_link_from_witness (link_via role Includes i) (Suc (Suc k)) witness role = Ok l
    \<and> path_ok role includes witness l \<and> l \<noteq> ToSelf"
proof (cases "pi_anchor_link i role = ToSelf")
  case True
  from assms(1,3) have "dep_ok (Suc k) i" by blast
  with True dep_ok_dest(3) [of "Suc k" i role] have "pid_round (dest role i) = Suc k"
    by (auto simp: dep_ok_def pi_id_def)
  with assms pid_round_dest [of k _ role] have "freshest role (set includes \<union> set witness) i"
    by (fastforce simp: freshest_def)
  with True assms(3) show ?thesis
    by (auto simp: link_via_def pr_update_link_from_witness_def path_ok_def)
next
  case False
  let ?keyed = "filter (\<lambda>e. snd e > pid_round (dest role i))
      (map (\<lambda>i. (i, pid_round (dest role i))) witness)"
  show ?thesis
  proof (cases "last_max ?keyed")
    case None
    with assms(4) have "freshest role (set includes \<union> set witness) i"
      by (auto simp: freshest_def filter_empty_conv not_less)
    with False None assms(3) show ?thesis
      by (auto simp: link_via_def pr_update_link_from_witness_def path_ok_def
          keyed_by_anchor_ok [OF assms(2)])
  next
    case (Some x)
    from last_max_Some [OF Some] obtain j where j: "x = (j, pid_round (dest role j))" "j \<in> set witness"
        "pid_round (dest role i) < pid_round (dest role j)"
        "\<forall>y\<in>set ?keyed. snd y \<le> pid_round (dest role j)"
      by auto
    then have "freshest role (set includes \<union> set witness) j"
      using assms(4) by (fastforce simp: freshest_def)
    moreover from assms(2) j(2) have dep: "dep_ok k j" by blast
    moreover from dep have "pi_round j = k" by (simp add: dep_ok_def)
    ultimately show ?thesis
      using Some j False dep_ok_dest(1) [OF dep, of role]
      by (auto simp: link_via_def pr_update_link_from_witness_def path_ok_def
          keyed_by_anchor_ok [OF assms(2)])
  qed
qed

abbreviation add_info :: "point_info \<Rightarrow> (peer_id, digest) bmap \<Rightarrow> (peer_id, digest) bmap" where
  "add_info info \<equiv> bm_insert (pi_author info) (pi_digest info)"

lemma bm_get_add_infos:
  assumes "bm_wf m"
  shows "a \<notin> pi_author ` set infos \<Longrightarrow> bm_get (fold add_info infos m) a = bm_get m a"
    and "distinct (map pi_author infos) \<Longrightarrow> i \<in> set infos \<Longrightarrow>
      bm_get (fold add_info infos m) (pi_author i) = Some (pi_digest i)"
proof -
  show other: "a \<notin> pi_author ` set infos \<Longrightarrow> bm_get (fold add_info infos m) a = bm_get m a" for a
    using assms by (induction infos arbitrary: m) (auto simp: bm_wf_insert bm_get_insert)
  show "distinct (map pi_author infos) \<Longrightarrow> i \<in> set infos \<Longrightarrow>
      bm_get (fold add_info infos m) (pi_author i) = Some (pi_digest i)"
    using assms
  proof (induction infos arbitrary: m)
    case (Cons x infos)
    show ?case
    proof (cases "i = x")
      case True
      have "bm_get (fold add_info infos m') (pi_author i) = bm_get m' (pi_author i)" if "bm_wf m'" for m'
        using Cons.prems(1) True that
        by (induction infos arbitrary: m') (auto simp: bm_wf_insert bm_get_insert)
      with True Cons.prems(3) show ?thesis by (simp add: bm_wf_insert bm_get_insert)
    next
      case False
      with Cons.prems show ?thesis by (simp add: Cons.IH bm_wf_insert)
    qed
  qed simp
qed

lemma infos_map_get:
  assumes "distinct (map pi_author infos)" "i \<in> set infos"
  shows "bm_get (infos_map infos) (pi_author i) = Some (pi_digest i)"
  unfolding infos_map_def using assms by (intro bm_get_add_infos(2)) (simp_all add: bm_wf_def)

lemma infos_map_has: "bm_has (infos_map infos) a \<longleftrightarrow> a \<in> pi_author ` set infos"
proof -
  have "set (bm_keys (fold add_info infos m)) = pi_author ` set infos \<union> set (bm_keys m)" for m
    by (induction infos arbitrary: m) (auto simp: set_bm_keys_insert)
  from this [of "[]"] show ?thesis by (simp add: bm_has_def infos_map_def bm_keys_def)
qed

lemma find_author:
  assumes "distinct (map pi_author infos)" "i \<in> set infos"
  shows "List.find (\<lambda>j. pi_author j = pi_author i) infos = Some i"
  using assms by (induction infos) (auto simp: image_iff)

text \<open>The maps and links of a body made of collected dependencies.\<close>

lemma path_ok_defined:
  assumes "\<forall>i\<in>set includes. dep_ok (Suc k) i" "\<forall>i\<in>set witness. dep_ok k i"
    and "distinct (map pi_author includes)" "distinct (map pi_author witness)"
    and "pd_includes d = infos_map includes" "pd_witness d = infos_map witness"
    and "path_ok role includes witness (pd_anchor_link d role)" "Suc (Suc k) \<le> u32_max"
  obtains (self) "pd_anchor_link d role = ToSelf"
  | (via) i where "pd_is_link_well_formed d role (Suc (Suc k)) = (Ok True :: (unit, bool) outcome)"
      "i \<in> set includes \<union> set witness" "freshest role (set includes \<union> set witness) i"
      "pd_anchor_id d role (Suc (Suc k)) = (Ok (Some (dest role i)) :: (unit, point_id option) outcome)"
      "pd_anchor_link_id d role (Suc (Suc k)) = (Ok (Some (pi_id i)) :: (unit, point_id option) outcome)"
      "pd_anchor_link d role = link_via role (if i \<in> set includes then Includes else Witness) i"
proof -
  consider (a) "pd_anchor_link d role = ToSelf"
    | (b) i where "i \<in> set includes" "pd_anchor_link d role = link_via role Includes i"
        "freshest role (set includes \<union> set witness) i"
    | (c) i where "i \<in> set witness" "pd_anchor_link d role = link_via role Witness i"
        "freshest role (set includes \<union> set witness) i"
    using assms(7) by (auto simp: path_ok_def)
  then show thesis
  proof cases
    case a
    then show thesis by (rule self)
  next
    case (b i)
    with assms(1) have dep: "dep_ok (Suc k) i" by blast
    note get = infos_map_get [OF assms(3) b(1)]
    have "bm_has (infos_map includes) (pi_author i)" using b(1) by (simp add: infos_map_has)
    with dep dep_ok_dest(3) [OF dep, of role] get b assms(5,6,8) show thesis
      by (intro via [of i]) (auto simp: link_via_def pd_is_link_well_formed_def pd_anchor_id_def
          pd_anchor_link_id_def pd_link_hop_def pi_id_def dep_ok_def round_next_def checked_add_def)
  next
    case (c i)
    with assms(2) have dep: "dep_ok k i" by blast
    note get = infos_map_get [OF assms(4) c(1)]
    have out: "i \<notin> set includes" using dep assms(1) by (auto simp: dep_ok_def)
    have "bm_has (infos_map witness) (pi_author i)" using c(1) by (simp add: infos_map_has)
    with dep dep_ok_dest(3) [OF dep, of role] get c out assms(5,6,8) show thesis
      by (intro via [of i]) (auto simp: link_via_def pd_is_link_well_formed_def pd_anchor_id_def
          pd_anchor_link_id_def pd_link_hop_def pi_id_def dep_ok_def round_next_def checked_add_def)
  qed
qed

section \<open>Produced points are valid\<close>

text \<open>
  What a producer collects for round \<open>k + 2\<close>: dependencies of the two rounds before with well-formed
  maps, one per author; the own previous point is there exactly when it is proven, with evidence of
  others only. Times are below the end of the 64-bit clock.
\<close>

definition collected_ok ::
  "peer_id \<Rightarrow> nat \<Rightarrow> last_own_point option \<Rightarrow> digest option \<Rightarrow> point_info list \<Rightarrow> point_info list \<Rightarrow> bool" where
  "collected_ok local_id k last_own proven includes witness \<longleftrightarrow>
     Suc (Suc k) \<le> u32_max \<and> includes \<noteq> []
     \<and> (\<forall>i\<in>set includes. dep_ok (Suc k) i) \<and> (\<forall>i\<in>set witness. dep_ok k i)
     \<and> distinct (map pi_author includes) \<and> distinct (map pi_author witness)
     \<and> local_id \<notin> pi_author ` set witness
     \<and> map_option pi_digest (List.find (\<lambda>i. pi_author i = local_id) includes) = proven
     \<and> (case (proven, last_own) of
          (None, _) \<Rightarrow> True
        | (Some _, None) \<Rightarrow> False
        | (Some _, Some p) \<Rightarrow> lo_evidence p \<noteq> [] \<and> \<not> bm_has (lo_evidence p) local_id)
     \<and> (\<forall>i\<in>set includes \<union> set witness. pi_time i < u64_max \<and> pi_anchor_time i < u64_max)"

lemma one_link_ok:
  assumes "\<forall>i\<in>set includes. dep_ok (Suc k) i" "includes \<noteq> []" "\<forall>i\<in>set witness. dep_ok k i"
  shows "\<exists>l0 l. pr_link_from_includes local_id (Suc (Suc k)) stage includes cand role = Ok l0
    \<and> pr_update_link_from_witness l0 (Suc (Suc k)) witness role = Ok l
    \<and> path_ok role includes witness l \<and> (l = ToSelf \<longrightarrow> cand)"
  using assms(1,2)
proof (cases rule: link_from_includes_ok [where local_id = local_id and stage = stage and cand = cand and role = role])
  case self
  then show ?thesis by (auto simp: pr_update_link_from_witness_def path_ok_def)
next
  case (via i)
  with update_link_ok [OF assms(1,3) via(1,2)] show ?thesis by blast
qed

lemma pr_links_ok:
  assumes "collected_ok local_id k last_own proven includes witness" "dr_round current = Suc (Suc k)"
  obtains t p where "pr_links local_id current last_own proven includes witness = Ok (t, p)"
    "path_ok Trigger includes witness t" "path_ok Proof includes witness p"
    "t = ToSelf \<longrightarrow> proven \<noteq> None" "p = ToSelf \<longrightarrow> proven \<noteq> None"
proof -
  from assms(1) have deps: "\<forall>i\<in>set includes. dep_ok (Suc k) i" "includes \<noteq> []" "\<forall>i\<in>set witness. dep_ok k i"
    by (simp_all add: collected_ok_def)
  let ?cand = "proven \<noteq> None \<and> (case last_own of None \<Rightarrow> False | Some prev \<Rightarrow> bm_has (lo_includes prev) local_id)"
  from one_link_ok [OF deps, of local_id "dr_anchor_stage current" ?cand Trigger] obtain t0 t where
    t: "pr_link_from_includes local_id (Suc (Suc k)) (dr_anchor_stage current) includes ?cand Trigger = Ok t0"
      "pr_update_link_from_witness t0 (Suc (Suc k)) witness Trigger = Ok t"
      "path_ok Trigger includes witness t" "t = ToSelf \<longrightarrow> ?cand"
    by blast
  from one_link_ok [OF deps, of local_id "dr_anchor_stage current" "proven \<noteq> None" Proof] obtain p0 p where
    p: "pr_link_from_includes local_id (Suc (Suc k)) (dr_anchor_stage current) includes (proven \<noteq> None) Proof = Ok p0"
      "pr_update_link_from_witness p0 (Suc (Suc k)) witness Proof = Ok p"
      "path_ok Proof includes witness p" "p = ToSelf \<longrightarrow> proven \<noteq> None"
    by blast
  have "pr_links local_id current last_own proven includes witness = Ok (t, p)"
    unfolding pr_links_def assms(2) t(1) p(1) bindR.simps t(2) p(2) ..
  with t p show thesis by (intro that) blast+
qed

text \<open>The inherited anchor time and the time of the new point.\<close>

lemma path_info_found:
  assumes "distinct (map pi_author includes)" "distinct (map pi_author witness)"
    and "i \<in> set includes \<union> set witness"
  shows "pr_path_info ((if i \<in> set includes then Includes else Witness) (pi_author i)) includes witness = Ok i"
  using assms by (auto simp: pr_path_info_def find_author)

definition proof_time_ok :: "link \<Rightarrow> point_info option \<Rightarrow> point_info list \<Rightarrow> point_info list \<Rightarrow> unix_time \<Rightarrow> bool" where
  "proof_time_ok p prev includes witness at \<longleftrightarrow>
     (p = ToSelf \<longrightarrow> (\<exists>i. prev = Some i \<and> at = pi_time i))
     \<and> (\<forall>i\<in>set includes \<union> set witness.
          p = link_via Proof (if i \<in> set includes then Includes else Witness) i \<longrightarrow> at = pi_anchor_time i)"

lemma pr_get_time_ok:
  assumes deps: "\<forall>i\<in>set includes. dep_ok (Suc k) i" "\<forall>i\<in>set witness. dep_ok k i"
    and dist: "distinct (map pi_author includes)" "distinct (map pi_author witness)"
    and path: "path_ok Proof includes witness p" "p = ToSelf \<longrightarrow> prev \<noteq> None"
    and prev: "prev = List.find (\<lambda>i. pi_author i = local_id) includes"
    and times: "\<forall>i\<in>set includes \<union> set witness. pi_time i < u64_max \<and> pi_anchor_time i < u64_max"
  obtains t at where "pr_get_time now p prev includes witness = Ok (t, at)" "at < t" "now \<le> t"
    "\<forall>i. prev = Some i \<longrightarrow> pi_time i < t" "proof_time_ok p prev includes witness at"
proof -
  have in_prev: "i \<in> set includes" if "prev = Some i" for i
    using that prev by (auto simp: find_Some_iff)
  have found: "pr_anchor_time (link_via Proof (if i \<in> set includes then Includes else Witness) i) prev includes witness
      = Ok (pi_anchor_time i)" if "i \<in> set includes \<union> set witness" for i
    using path_info_found [OF dist that] by (simp add: pr_anchor_time_def link_via_def)
  have inc: "i \<notin> set includes" if "i \<in> set witness" for i
    using that deps by (auto simp: dep_ok_def)
  have "\<exists>at. pr_anchor_time p prev includes witness = Ok at \<and> at < u64_max \<and> proof_time_ok p prev includes witness at"
  proof (cases "p = ToSelf")
    case True
    with path(2) obtain i where "prev = Some i" by blast
    with True in_prev times show ?thesis
      by (auto simp: pr_anchor_time_def proof_time_ok_def link_via_def)
  next
    case False
    with path(1) consider (a) i where "i \<in> set includes" "p = link_via Proof Includes i"
      | (b) i where "i \<in> set witness" "p = link_via Proof Witness i"
      unfolding path_ok_def by blast
    then obtain i where i: "i \<in> set includes \<union> set witness"
        "p = link_via Proof (if i \<in> set includes then Includes else Witness) i"
    proof cases
      case (a i)
      then show thesis by (intro that [of i]) simp_all
    next
      case (b i)
      with inc [OF b(1)] show thesis by (intro that [of i]) simp_all
    qed
    have same: "pr_anchor_time p prev includes witness = Ok (pi_anchor_time j)"
      if "j \<in> set includes \<union> set witness"
        "p = link_via Proof (if j \<in> set includes then Includes else Witness) j" for j
      unfolding that(2) by (rule found [OF that(1)])
    have "proof_time_ok p prev includes witness (pi_anchor_time i)"
      unfolding proof_time_ok_def using False same [OF i] same by (metis outcome.inject(1))
    with same [OF i] times i(1) show ?thesis by blast
  qed
  then obtain at where at: "pr_anchor_time p prev includes witness = Ok at" "at < u64_max"
      "proof_time_ok p prev includes witness at" by blast
  let ?deps = "case prev of None \<Rightarrow> at | Some info \<Rightarrow> max at (pi_time info)"
  have "?deps < u64_max" using at(2) times in_prev by (auto split: option.splits)
  then have later: "time_next ?deps = Suc ?deps" by (simp add: time_next_def sat_add_def)
  show thesis
  proof (rule that)
    show "pr_get_time now p prev includes witness = Ok (max now (time_next ?deps), at)"
      by (simp add: pr_get_time_def at(1) Let_def)
    show "at < max now (time_next ?deps)" unfolding later by (cases prev) simp_all
    show "\<forall>i. prev = Some i \<longrightarrow> pi_time i < max now (time_next ?deps)" unfolding later by auto
  qed (use at(3) in simp_all)
qed

lemma same_dep:
  assumes "collected_ok local_id k last_own proven includes witness"
    and "i \<in> set includes \<union> set witness" "j \<in> set includes \<union> set witness" "pi_id i = pi_id j"
  shows "i = j"
proof -
  have rounds: "\<forall>i\<in>set includes. pi_round i = Suc k" "\<forall>i\<in>set witness. pi_round i = k"
    using assms(1) by (simp_all add: collected_ok_def dep_ok_def)
  have side: "(i \<in> set includes) = (pi_round i = Suc k)" if "i \<in> set includes \<union> set witness" for i
    using rounds that by auto
  from assms(4) have eq: "pi_round i = pi_round j" "pi_author i = pi_author j" by (simp_all add: pi_id_def)
  have inj: "inj_on pi_author (set includes)" "inj_on pi_author (set witness)"
    using assms(1) by (simp_all add: collected_ok_def distinct_map)
  show ?thesis
  proof (cases "i \<in> set includes")
    case True
    with side [OF assms(2)] side [OF assms(3)] eq(1) have "j \<in> set includes" by simp
    with True eq(2) inj(1) show ?thesis by (simp add: inj_on_def)
  next
    case False
    with side [OF assms(2)] side [OF assms(3)] eq(1) have "j \<notin> set includes" by simp
    with False assms(2,3) eq(2) inj(2) show ?thesis by (simp add: inj_on_def)
  qed
qed

text \<open>Where a link of the new point leads, and that its hop agrees.\<close>

lemma new_target:
  assumes c: "collected_ok local_id k last_own proven includes witness"
    and d: "pd_includes (pi_data info) = infos_map includes" "pd_witness (pi_data info) = infos_map witness"
    and r: "pi_round info = Suc (Suc k)"
    and path: "path_ok role includes witness (pi_anchor_link info role)"
  obtains to hop where "pi_anchor_id info role = (Ok to :: (unit, point_id) outcome)"
    "pi_anchor_link_id info role = (Ok hop :: (unit, point_id) outcome)"
    "\<forall>i\<in>set includes \<union> set witness. pid_round (dest role i) \<le> pid_round to"
    "\<forall>i\<in>set includes \<union> set witness. pi_id i = hop \<longrightarrow> dest role i = to
       \<and> pi_anchor_link info role = link_via role (if i \<in> set includes then Includes else Witness) i"
    "pd_is_link_well_formed (pi_data info) role (Suc (Suc k)) = (Ok True :: (unit, bool) outcome)"
proof -
  from c have deps: "\<forall>i\<in>set includes. dep_ok (Suc k) i" "\<forall>i\<in>set witness. dep_ok k i"
    and dist: "distinct (map pi_author includes)" "distinct (map pi_author witness)"
    and k: "Suc (Suc k) \<le> u32_max" by (simp_all add: collected_ok_def)
  have low: "pid_round (dest role i) \<le> Suc k \<and> pi_round i \<le> Suc k" if "i \<in> set includes \<union> set witness" for i
    using that deps pid_round_dest [of "Suc k" i role] pid_round_dest [of k i role] by (auto simp: dep_ok_def)
  from path have path': "path_ok role includes witness (pd_anchor_link (pi_data info) role)"
    by (simp add: pi_anchor_link_def)
  show thesis
  proof (rule path_ok_defined [OF deps dist d path' k])
    assume self: "pd_anchor_link (pi_data info) role = ToSelf"
    have "pi_anchor_id info role = (Ok (pi_id info) :: (unit, point_id) outcome)"
      "pi_anchor_link_id info role = (Ok (pi_id info) :: (unit, point_id) outcome)"
      by (simp_all add: pi_anchor_id_def pi_anchor_link_id_def pd_anchor_id_def pd_anchor_link_id_def self)
    moreover have "pd_is_link_well_formed (pi_data info) role (Suc (Suc k)) = (Ok True :: (unit, bool) outcome)"
      by (simp add: pd_is_link_well_formed_def self)
    moreover have "\<forall>i\<in>set includes \<union> set witness. pid_round (dest role i) \<le> pid_round (pi_id info)"
      using low r by (fastforce simp: pi_id_def)
    moreover have "\<forall>i\<in>set includes \<union> set witness. pi_id i \<noteq> pi_id info"
      using low r by (fastforce simp: pi_id_def)
    ultimately show thesis by (intro that) auto
  next
    fix i
    assume i: "pd_is_link_well_formed (pi_data info) role (Suc (Suc k)) = (Ok True :: (unit, bool) outcome)"
      "i \<in> set includes \<union> set witness" "freshest role (set includes \<union> set witness) i"
      "pd_anchor_id (pi_data info) role (Suc (Suc k)) = (Ok (Some (dest role i)) :: (unit, point_id option) outcome)"
      "pd_anchor_link_id (pi_data info) role (Suc (Suc k)) = (Ok (Some (pi_id i)) :: (unit, point_id option) outcome)"
      "pd_anchor_link (pi_data info) role = link_via role (if i \<in> set includes then Includes else Witness) i"
    have "pi_anchor_id info role = (Ok (dest role i) :: (unit, point_id) outcome)"
      "pi_anchor_link_id info role = (Ok (pi_id i) :: (unit, point_id) outcome)"
      using i(4,5) r by (simp_all add: pi_anchor_id_def pi_anchor_link_id_def)
    moreover have "\<forall>j\<in>set includes \<union> set witness. pi_id j = pi_id i \<longrightarrow> j = i"
      using same_dep [OF c _ i(2)] by blast
    ultimately show thesis
      using i(1,3,6) by (intro that) (auto simp: freshest_def pi_anchor_link_def)
  qed
qed

text \<open>The facts about a new point that the checks of other nodes rest on.\<close>

lemma new_point_valid_dep:
  assumes c: "collected_ok local_id k last_own proven includes witness"
    and d: "pd_includes (pi_data info) = infos_map includes" "pd_witness (pi_data info) = infos_map witness"
    and r: "pi_round info = Suc (Suc k)" and author: "pi_author info = local_id"
    and path: "\<And>role. path_ok role includes witness (pi_anchor_link info role)"
    and vt: "valid_targets_of info conf = Ok vt"
    and times: "\<forall>i. List.find (\<lambda>i. pi_author i = local_id) includes = Some i \<longrightarrow> pi_time i < pi_time info"
      "proof_time_ok (pi_anchor_link info Proof) (List.find (\<lambda>i. pi_author i = local_id) includes)
         includes witness (pi_anchor_time info)"
    and skew: "pi_time (vp_info v) \<le> time_add (pi_time info) (cc_clock_skew_millis (mc_consensus conf))"
    and v: "vp_info v \<in> set includes \<union> set witness"
  shows "is_dag_point_ok vt info (Valid v) = Ok True"
proof -
  let ?i = "vp_info v"
  from c have deps: "\<forall>i\<in>set includes. dep_ok (Suc k) i" "\<forall>i\<in>set witness. dep_ok k i"
    and dist: "distinct (map pi_author includes)" by (simp_all add: collected_ok_def)
  have dep: "dep_ok (pi_round ?i) ?i" using deps v by (auto simp: dep_ok_def)
  obtain t th where t: "pi_anchor_id info Trigger = (Ok t :: (unit, point_id) outcome)"
      "pi_anchor_link_id info Trigger = (Ok th :: (unit, point_id) outcome)"
      "pid_round (dest Trigger ?i) \<le> pid_round t" "pi_id ?i = th \<longrightarrow> dest Trigger ?i = t"
    using new_target [OF c d r path [of Trigger]] v by metis
  obtain p ph where p: "pi_anchor_id info Proof = (Ok p :: (unit, point_id) outcome)"
      "pi_anchor_link_id info Proof = (Ok ph :: (unit, point_id) outcome)"
      "pid_round (dest Proof ?i) \<le> pid_round p"
      "pi_id ?i = ph \<longrightarrow> dest Proof ?i = p
        \<and> pi_anchor_link info Proof = link_via Proof (if ?i \<in> set includes then Includes else Witness) ?i"
    using new_target [OF c d r path [of Proof]] v by metis
  have vt': "vt = \<lparr>vt_prev_round = Suc k, vt_trigger_id = t, vt_proof_id = p, vt_trigger_link_id = th,
      vt_proof_link_id = ph, vt_max_dep_time = time_add (pi_time info) (cc_clock_skew_millis (mc_consensus conf))\<rparr>"
    using vt by (simp add: valid_targets_of_def r t p)
  show ?thesis
  proof (cases "pi_round ?i = Suc k \<and> pi_author ?i = local_id")
    case True
    then have i: "?i \<in> set includes" using v deps by (auto simp: dep_ok_def)
    have found: "List.find (\<lambda>i. pi_author i = local_id) includes = Some ?i"
      using find_author [OF dist i] True by simp
    have "pi_prev_digest info = Some (pi_digest ?i)"
      using infos_map_get [OF dist i] True author d(1) by (simp add: pi_prev_digest_def pi_includes_def)
    moreover have "pi_anchor_link info Proof = ToSelf \<longrightarrow> pi_anchor_time info = pi_time ?i"
      using times(2) found by (simp add: proof_time_ok_def)
    ultimately show ?thesis
      using True times(1) found author r
      by (simp add: is_dag_point_ok_def vt' is_prev_ok_def is_proof_ok_total)
  next
    case False
    have "pi_id ?i = ph \<longrightarrow> pi_anchor_time ?i = pi_anchor_time info"
      using p(4) times(2) v by (auto simp: proof_time_ok_def)
    with t p skew have "is_dep_ok vt info (Valid v) = Ok True"
      by (simp add: vt' is_dep_ok_def dep_ok_dest(1,2) [OF dep])
    with False author show ?thesis by (auto simp: is_dag_point_ok_def vt')
  qed
qed

text \<open>
  What the producer relies on in its source of payload: a fetch succeeds and stays within the batch.
  The size a point reports for its payload is then within the batch too.
\<close>

locale payload_source =
  fixes good :: "'b \<Rightarrow> bool" and fetch :: "bool \<Rightarrow> 'b \<Rightarrow> (unit, message list \<times> 'b) outcome"
    and batch :: "'b \<Rightarrow> nat"
  assumes fetch_ok: "good b \<Longrightarrow> \<exists>ms b'. fetch fresh b = Ok (ms, b') \<and> good b' \<and> msg_bytes ms \<le> batch b"
begin

lemma fetch_payload:
  assumes "good b"
  obtains ms b' where "fetch fresh b = Ok (ms, b')" "good b'"
    "min (fold (\<lambda>m acc. acc + length m) ms 0) bound \<le> batch b"
proof -
  from fetch_ok [OF assms] obtain ms b' where f: "fetch fresh b = Ok (ms, b')" "good b'" "msg_bytes ms \<le> batch b"
    by blast
  have "fold (\<lambda>m acc. acc + length m) ms n = n + msg_bytes ms" for n
    by (induction ms arbitrary: n) simp_all
  from this [of 0] f(3) have "min (fold (\<lambda>m acc. acc + length m) ms 0) bound \<le> batch b"
    by (simp add: min_def)
  with f(1,2) show thesis by (rule that)
qed

end

interpretation ib: payload_source ib_inv ib_fetch ib_payload_batch_bytes
proof
  fix b fresh
  assume inv: "ib_inv b"
  obtain c where c: "(if fresh then ib_commit_offset b else Ok b) = (Ok c :: (unit, input_buffer) outcome)"
      "ib_inv c" "ib_payload_batch_bytes c = ib_payload_batch_bytes b"
    using inv ib_commit_exact [OF inv] by (cases fresh) (simp_all add: ib_inv_def)
  obtain ms b' where d: "ib_fetch_data c = (ms, b')" by fastforce
  from ib_fetch_data_inv [OF c(2) d] c d
  show "\<exists>ms b'. ib_fetch fresh b = Ok (ms, b') \<and> ib_inv b' \<and> msg_bytes ms \<le> ib_payload_batch_bytes b"
    by (simp add: ib_fetch_def)
qed

lemma pr_data_ok:
  assumes c: "collected_ok local_id k last_own proven includes witness"
    and path: "path_ok Trigger includes witness t" "path_ok Proof includes witness p"
    and self: "p = ToSelf \<longrightarrow> proven \<noteq> None"
  obtains d where "pr_data now local_id last_own proven includes witness t p = Ok (Inr d)"
    "pd_includes d = infos_map includes" "pd_witness d = infos_map witness"
    "pd_anchor_trigger d = t" "pd_anchor_proof d = p" "pd_anchor_time d < pd_time d" "now \<le> pd_time d"
    "pd_evidence d = (case (proven, last_own) of (Some _, Some l) \<Rightarrow> lo_evidence l | _ \<Rightarrow> [])"
    "\<forall>i. List.find (\<lambda>i. pi_author i = local_id) includes = Some i \<longrightarrow> pi_time i < pd_time d"
    "proof_time_ok p (List.find (\<lambda>i. pi_author i = local_id) includes) includes witness (pd_anchor_time d)"
proof -
  let ?prev = "List.find (\<lambda>i. pi_author i = local_id) includes"
  from c have deps: "\<forall>i\<in>set includes. dep_ok (Suc k) i" "\<forall>i\<in>set witness. dep_ok k i"
    and dist: "distinct (map pi_author includes)" "distinct (map pi_author witness)"
    and own: "map_option pi_digest ?prev = proven"
    and times: "\<forall>i\<in>set includes \<union> set witness. pi_time i < u64_max \<and> pi_anchor_time i < u64_max"
    by (simp_all add: collected_ok_def)
  have self': "p = ToSelf \<longrightarrow> ?prev \<noteq> None" using self own by auto
  obtain tm at where tm: "pr_get_time now p ?prev includes witness = Ok (tm, at)" "at < tm" "now \<le> tm"
      "\<forall>i. ?prev = Some i \<longrightarrow> pi_time i < tm" "proof_time_ok p ?prev includes witness at"
    by (rule pr_get_time_ok [OF deps dist path(2) self' refl times])
  have "bm_get (infos_map includes) local_id = proven"
  proof (cases ?prev)
    case None
    then have "local_id \<notin> pi_author ` set includes" by (auto simp: find_None_iff)
    with None own show ?thesis using infos_map_has [of "includes" local_id] by (simp add: bm_has_iff)
  next
    case (Some i)
    then have "i \<in> set includes" "pi_author i = local_id" by (auto simp: find_Some_iff)
    with infos_map_get [OF dist(1)] Some own show ?thesis by auto
  qed
  moreover have "pr_check_prev_point ?prev proven = Ok (Inr ())"
    using own by (cases ?prev) (auto simp: pr_check_prev_point_def)
  ultimately show thesis using tm
    by (intro that [of "\<lparr>pd_includes = infos_map includes, pd_witness = infos_map witness,
          pd_evidence = (case (proven, last_own) of (Some _, Some p) \<Rightarrow> lo_evidence p | _ \<Rightarrow> []),
          pd_anchor_trigger = t, pd_anchor_proof = p, pd_time = tm, pd_anchor_time = at\<rparr>"])
      (simp_all add: pr_data_def Let_def)
qed

lemma new_point_maps:
  assumes c: "collected_ok local_id k last_own proven includes witness"
    and d: "pd_includes d = infos_map includes" "pd_witness d = infos_map witness"
      "pd_evidence d = (case (proven, last_own) of (Some _, Some l) \<Rightarrow> lo_evidence l | _ \<Rightarrow> [])"
  shows "(pd_evidence d = []) \<noteq> bm_has (pd_includes d) local_id" "\<not> bm_has (pd_evidence d) local_id"
    "\<not> bm_has (pd_witness d) local_id" "(pd_evidence d = []) = (proven = None)"
proof -
  from c have own: "map_option pi_digest (List.find (\<lambda>i. pi_author i = local_id) includes) = proven"
    and wit: "local_id \<notin> pi_author ` set witness"
    and ev: "case (proven, last_own) of (None, _) \<Rightarrow> True | (Some _, None) \<Rightarrow> False
      | (Some _, Some p) \<Rightarrow> lo_evidence p \<noteq> [] \<and> \<not> bm_has (lo_evidence p) local_id"
    by (simp_all add: collected_ok_def)
  have "bm_has (infos_map includes) local_id = (proven \<noteq> None)"
    unfolding infos_map_has own [symmetric] by (auto simp: find_None_iff)
  with ev d show "(pd_evidence d = []) \<noteq> bm_has (pd_includes d) local_id"
      "\<not> bm_has (pd_evidence d) local_id" "(pd_evidence d = []) = (proven = None)"
    by (auto simp: bm_has_def split: option.splits)
  show "\<not> bm_has (pd_witness d) local_id" using wit by (simp add: d(2) infos_map_has)
qed

lemma time_add_mono: "a \<le> b \<Longrightarrow> time_add a c \<le> time_add b c"
  by (simp add: time_add_def sat_add_def min_le_iff_disj)

text \<open>The body of a produced point, as far as the checks look at it.\<close>

definition made_of ::
  "peer_id \<Rightarrow> last_own_point option \<Rightarrow> digest option \<Rightarrow> point_info list \<Rightarrow> point_info list \<Rightarrow> point_data \<Rightarrow> bool" where
  "made_of local_id last_own proven includes witness d \<longleftrightarrow>
     pd_includes d = infos_map includes \<and> pd_witness d = infos_map witness
     \<and> pd_evidence d = (case (proven, last_own) of (Some _, Some l) \<Rightarrow> lo_evidence l | _ \<Rightarrow> [])
     \<and> (\<forall>role. path_ok role includes witness (pd_anchor_link d role)
          \<and> (pd_anchor_link d role = ToSelf \<longrightarrow> proven \<noteq> None))
     \<and> pd_anchor_time d < pd_time d
     \<and> (\<forall>i. List.find (\<lambda>i. pi_author i = local_id) includes = Some i \<longrightarrow> pi_time i < pd_time d)
     \<and> proof_time_ok (pd_anchor_proof d) (List.find (\<lambda>i. pi_author i = local_id) includes)
          includes witness (pd_anchor_time d)"

lemma pr_new_point_makes:
  assumes "kg_to_produce (dh_keys head) = Some local_id"
    and "pr_proven_vertex last_own (dr_round (dh_prev head)) = Inr proven"
    and "pr_includes now (dh_prev head) = Ok (includes, finished)"
    and "pr_witness local_id last_own (dr_round finished) (dh_older head) = (witness, older)"
    and "dr_round (dh_current head) = Suc (Suc k)"
    and c: "collected_ok local_id k last_own proven includes witness" and buffer: "ib_inv buffer"
    and size: "\<And>dg sig a r pl d. 100 \<le> length (write_to dg sig a r pl d)"
  obtains pt buffer' head' where
    "pr_new_point write_to hash sign now last_own buffer head = Ok (Inr pt, buffer', head')"
    "pi_author (pt_info pt) = local_id" "pi_round (pt_info pt) = Suc (Suc k)"
    "pi_payload_bytes (pt_info pt) \<le> ib_payload_batch_bytes buffer" "now \<le> pd_time (pi_data (pt_info pt))"
    "made_of local_id last_own proven includes witness (pi_data (pt_info pt))"
proof -
  obtain t p where tp: "pr_links local_id (dh_current head) last_own proven includes witness = Ok (t, p)"
      "path_ok Trigger includes witness t" "path_ok Proof includes witness p"
      "t = ToSelf \<longrightarrow> proven \<noteq> None" "p = ToSelf \<longrightarrow> proven \<noteq> None"
    by (rule pr_links_ok [OF c assms(5)])
  obtain d where d: "pr_data now local_id last_own proven includes witness t p = Ok (Inr d)"
      "pd_includes d = infos_map includes" "pd_witness d = infos_map witness"
      "pd_anchor_trigger d = t" "pd_anchor_proof d = p" "pd_anchor_time d < pd_time d" "now \<le> pd_time d"
      "pd_evidence d = (case (proven, last_own) of (Some _, Some l) \<Rightarrow> lo_evidence l | _ \<Rightarrow> [])"
      "\<forall>i. List.find (\<lambda>i. pi_author i = local_id) includes = Some i \<longrightarrow> pi_time i < pd_time d"
      "proof_time_ok p (List.find (\<lambda>i. pi_author i = local_id) includes) includes witness (pd_anchor_time d)"
    by (rule pr_data_ok [OF c tp(2,3,5)])
  have made: "made_of local_id last_own proven includes witness d"
    unfolding made_of_def using d tp(2-5) by (auto simp: pd_anchor_link_def split: anchor_role.splits)
  obtain ms buffer' where ms: "ib_fetch (pr_only_fresh last_own) buffer = Ok (ms, buffer')"
      "min (fold (\<lambda>m acc. acc + length m) ms 0) u32_max \<le> ib_payload_batch_bytes buffer"
    by (rule ib.fetch_payload [OF buffer])
  obtain pt where pt: "point_new write_to hash sign (\<lambda>key. key) local_id local_id (Suc (Suc k)) ms d
        = (Ok pt :: (unit, point) outcome)"
      "pi_author (pt_info pt) = local_id" "pi_round (pt_info pt) = Suc (Suc k)" "pi_data (pt_info pt) = d"
      "pi_payload_bytes (pt_info pt) = min (fold (\<lambda>m acc. acc + length m) ms 0) u32_max"
    using size by (auto simp: point_new_def Let_def digest_max_tl_bytes_def signature_max_tl_bytes_def
        not_less)
  have "pr_new_point write_to hash sign now last_own buffer head
      = Ok (Inr pt, buffer', head\<lparr>dh_prev := finished, dh_older := older\<rparr>)"
    by (simp add: pr_new_point_def assms(1-5) tp(1) ms(1) d(1) pt(1) Let_def)
  then show thesis by (rule that) (use pt ms(2) d(7) made in simp_all)
qed

lemma made_of_checks:
  assumes c: "collected_ok local_id k last_own proven includes witness"
    and m: "made_of local_id last_own proven includes witness (pi_data info)"
    and i: "pi_author info = local_id" "pi_round info = Suc (Suc k)"
  shows "pi_has_well_formed_maps info = (Ok True :: (unit, bool) outcome)"
    and "mc_genesis_round conf < Suc (Suc k) \<Longrightarrow> pi_is_well_formed info conf"
proof -
  from m have pd: "pd_includes (pi_data info) = infos_map includes" "pd_witness (pi_data info) = infos_map witness"
      "pd_evidence (pi_data info) = (case (proven, last_own) of (Some _, Some l) \<Rightarrow> lo_evidence l | _ \<Rightarrow> [])"
    and path: "path_ok role includes witness (pi_anchor_link info role)"
      "pd_anchor_link (pi_data info) role = ToSelf \<longrightarrow> proven \<noteq> None" for role
    by (simp_all add: made_of_def pi_anchor_link_def)
  have link: "pd_is_link_well_formed (pi_data info) role (Suc (Suc k)) = (Ok True :: (unit, bool) outcome)" for role
    by (rule new_target [OF c pd(1,2) i(2) path(1), of role])
  then show "pi_has_well_formed_maps info = (Ok True :: (unit, bool) outcome)"
    using new_point_maps [OF c pd] i by (simp add: pi_has_well_formed_maps_def pd_maps_wf_iff)
  show "mc_genesis_round conf < Suc (Suc k) \<Longrightarrow> pi_is_well_formed info conf"
    using path(2) [of Proof] path(2) [of Trigger] new_point_maps(4) [OF c pd] m i
    by (auto simp: pi_is_well_formed_def pd_is_well_formed_def pd_anchor_link_def made_of_def)
qed


section \<open>Examples\<close>

text \<open>The first round after the genesis at round 2: one dependency, no previous point.\<close>

definition ex_genesis_point :: valid_point where
  "ex_genesis_point = \<lparr>vp_info = \<lparr>pi_digest = 29, pi_signature = 0, pi_author = 9, pi_round = 2,
       pi_payload_len = 0, pi_payload_bytes = 0,
       pi_data = \<lparr>pd_includes = [], pd_witness = [], pd_evidence = [], pd_anchor_trigger = ToSelf,
         pd_anchor_proof = ToSelf, pd_time = 10, pd_anchor_time = 10\<rparr>\<rparr>,
     vp_first_valid = True, vp_is_first_resolved = True, vp_certified = False, vp_is_committed = False\<rparr>"

definition ex_finished :: dag_round where
  "ex_finished = \<lparr>dr_round = 2, dr_peer_count = pc_genesis, dr_anchor_stage = None, dr_locations = [],
     dr_threshold = (th_new 2 pc_genesis ex_conf)\<lparr>th_is_reached := True,
       th_ready := [(9, vp_info ex_genesis_point)]\<rparr>\<rparr>"

definition ex_head :: dag_head where
  "ex_head = \<lparr>dh_keys = \<lparr>kg_to_produce = Some 1, kg_to_include = Some 1, kg_to_witness = Some 1\<rparr>,
     dh_prev = ex_finished, dh_older = [], dh_current = ex_finished\<lparr>dr_round := 3\<rparr>,
     dh_next = ex_finished\<lparr>dr_round := 4\<rparr>, dh_last_back_bottom = 2\<rparr>"

lemma ex_collected: "collected_ok 1 1 None None [vp_info ex_genesis_point] []"
  by (simp add: collected_ok_def ex_genesis_point_def dep_ok_def pi_has_well_formed_maps_def
      pd_maps_wf_iff pd_link_wf_iff pd_anchor_link_def bm_has_def pi_data_defs u32_max_def u64_max_def
      split: anchor_role.split)

lemma ex_pr_includes:
  "\<exists>finished. pr_includes 20 (dh_prev ex_head) = Ok ([vp_info ex_genesis_point], finished)
     \<and> dr_round finished = 2"
  by (simp add: pr_includes_def ex_head_def ex_finished_def th_get_reached_def th_new_def
      th_pop_delayed.simps th_set_decrease_def set_decrease_def tc_unpack_pack checked_sub_def
      u8_max_def pc_genesis_def pc_majority_def Let_def)


end
