(* ===== verification/Dag_Commit.thy ===== *)
theory Dag_Commit
  imports Dag_Round
begin

text \<open>
  Committing anchors: \<^verbatim>\<open>consensus/src/dag/commit\<close> (\<^verbatim>\<open>anchor_chain.rs\<close>, \<^verbatim>\<open>back.rs\<close>, \<^verbatim>\<open>mod.rs\<close>).

  The committer keeps its part of the DAG as a map from rounds, and the queue of anchors that are
  determined but not yet committed. It looks only at points that are already resolved: a point that
  is not ready ends the attempt (\<open>TryLater\<close>), a certified point that is not valid is a conflict with
  the local history. The commit mark of a point and the use mark of an anchor stage are fields of
  the point and the stage. The shuffle of the points of a round is a parameter.

  The lemmas show what one commit takes: points that were not committed before, each once, in
  historical order and closed under dependencies; and that two nodes that know the same points
  commit the same list.
\<close>

section \<open>Results\<close>

datatype sync_error = TryLater | HistoryConflict round

record enqueued_anchor =
  ea_anchor :: point_info
  ea_proof :: point_info
  ea_direct_trigger :: "point_info option"

record anchor_data =
  ad_prev_anchor :: "round option"
  ad_anchor :: point_info
  ad_history :: "point_info list"

section \<open>Anchor chain\<close>

type_synonym anchor_chain = "enqueued_anchor list"

definition ac_top_proof_round :: "anchor_chain \<Rightarrow> round option" where
  "ac_top_proof_round q = (if q = [] then None else Some (pi_round (ea_proof (last q))))"

definition ac_enqueue :: "enqueued_anchor \<Rightarrow> anchor_chain \<Rightarrow> anchor_chain" where
  "ac_enqueue e q = q @ [e]"

definition ac_drop_upto :: "round \<Rightarrow> anchor_chain \<Rightarrow> anchor_chain" where
  "ac_drop_upto new_bottom q = filter (\<lambda>e. pi_round (ea_anchor e) \<ge> new_bottom) q"

section \<open>The committer's part of the DAG\<close>

type_synonym dag_back = "(round, dag_round) bmap"

definition db_top :: "dag_back \<Rightarrow> (unit, dag_round) outcome" where
  "db_top rounds = (if rounds = [] then Panic else Ok (snd (last rounds)))"

definition db_bottom_round :: "dag_back \<Rightarrow> (unit, round) outcome" where
  "db_bottom_round rounds = (case rounds of [] \<Rightarrow> Panic | (r, _) # _ \<Rightarrow> Ok r)"

definition db_init :: "dag_round \<Rightarrow> dag_back \<Rightarrow> (unit, dag_back) outcome" where
  "db_init bottom rounds = (if rounds \<noteq> [] then Panic else Ok [(dr_round bottom, bottom)])"

definition db_assert_len :: "dag_back \<Rightarrow> (unit, unit) outcome" where
  "db_assert_len rounds =
     bindR (db_top rounds) (\<lambda>top. bindR (db_bottom_round rounds) (\<lambda>bottom.
       case checked_sub (dr_round top) bottom of
         None \<Rightarrow> Panic
       | Some n \<Rightarrow> if n + 1 = length rounds then Ok () else Panic))"

fun contiguous :: "dag_round list \<Rightarrow> (unit, bool) outcome" where
  "contiguous (a # b # rest) =
     bindR (round_next (dr_round a)) (\<lambda>n. if n = dr_round b then contiguous (b # rest) else Ok False)"
| "contiguous _ = Ok True"

definition extend_rounds :: "round \<Rightarrow> dag_round list \<Rightarrow> dag_back \<Rightarrow> dag_back" where
  "extend_rounds top_round = fold (\<lambda>d m. if dr_round d \<le> top_round then m else bm_insert (dr_round d) d m)"

definition db_extend_from_front :: "dag_round list \<Rightarrow> dag_back \<Rightarrow> (unit, dag_back) outcome" where
  "db_extend_from_front front rounds =
     (case front of
        [] \<Rightarrow> Ok rounds
      | front_bottom # _ \<Rightarrow>
          bindR (db_top rounds) (\<lambda>top.
          bindR (round_next (dr_round top)) (\<lambda>after.
            if \<not> after \<ge> dr_round front_bottom then Panic
            else bindR (contiguous front) (\<lambda>ok.
              if \<not> ok then Panic
              else
                let rounds' = extend_rounds (dr_round top) front rounds
                in bindR (db_assert_len rounds') (\<lambda>_. Ok rounds')))))"

definition db_drop_upto :: "round \<Rightarrow> dag_back \<Rightarrow> dag_back" where
  "db_drop_upto new_bottom rounds = dropWhile (\<lambda>e. fst e < new_bottom) rounds"

definition db_range :: "round \<Rightarrow> round \<Rightarrow> dag_back \<Rightarrow> ('e, dag_round list) outcome" where
  "db_range lo hi rounds = bindR (bm_range lo hi rounds) (\<lambda>es. Ok (map snd es))"

subsection \<open>Points that are ready\<close>

definition ready_dag_point :: "dag_point \<Rightarrow> round \<Rightarrow> (sync_error, valid_point) outcome" where
  "ready_dag_point dp round =
     (case dp of
        Valid valid \<Rightarrow> Ok valid
      | _ \<Rightarrow> if dp_is_certified dp then Err (HistoryConflict round) else Panic)"

definition ready_valid_point :: "dag_round \<Rightarrow> peer_id \<Rightarrow> digest \<Rightarrow> (sync_error, valid_point) outcome" where
  "ready_valid_point d author dg =
     (case dr_view author (\<lambda>loc. bm_get (dl_versions loc) dg) d of
        Some (Some fut) \<Rightarrow>
          (case fut_task fut of
             Pending \<Rightarrow> Err TryLater
           | Cancelled \<Rightarrow> Err TryLater
           | Ready dp \<Rightarrow> ready_dag_point dp (dr_round d))
      | _ \<Rightarrow> Err TryLater)"

text \<open>
  The versions of a leader's location in the order of digests: a valid trigger, or a certified point
  that is not valid; versions that are not resolved or cancelled are passed over.
\<close>

definition trigger_candidate :: "round \<Rightarrow> dag_point_future \<Rightarrow> (sync_error + valid_point) option" where
  "trigger_candidate round fut =
     (case fut_task fut of
        Ready (Valid v) \<Rightarrow> if pi_anchor_link (vp_info v) Trigger = ToSelf then Some (Inr v) else None
      | Ready dp \<Rightarrow> if dp_is_certified dp then Some (Inl (HistoryConflict round)) else None
      | _ \<Rightarrow> None)"

definition find_or_first :: "('a \<Rightarrow> bool) \<Rightarrow> 'a list \<Rightarrow> 'a option" where
  "find_or_first P xs =
     (case List.find P xs of
        Some x \<Rightarrow> Some x
      | None \<Rightarrow> (case xs of [] \<Rightarrow> None | x # _ \<Rightarrow> Some x))"

definition any_ready_valid_trigger :: "dag_round \<Rightarrow> peer_id \<Rightarrow> sync_error + valid_point" where
  "any_ready_valid_trigger d author =
     (case dr_view author (\<lambda>loc. find_or_first (\<lambda>res. case res of Inr _ \<Rightarrow> True | Inl _ \<Rightarrow> False)
          (List.map_filter (trigger_candidate (dr_round d)) (map snd (dl_versions loc)))) d of
        Some (Some res) \<Rightarrow> res
      | _ \<Rightarrow> Inl TryLater)"

subsection \<open>Triggers\<close>

text \<open>From the newest round down to the first used trigger; the result is in historical order.\<close>

fun triggers_back :: "dag_round list \<Rightarrow> point_info list \<Rightarrow> round + point_info list" where
  "triggers_back [] acc = Inr acc"
| "triggers_back (d # older) acc =
     (case dr_anchor_stage d of
        Some stage \<Rightarrow>
          if as_role stage = Trigger then
            if as_is_used stage then Inr acc
            else (case any_ready_valid_trigger d (as_leader stage) of
                    Inr trigger \<Rightarrow> triggers_back older (vp_info trigger # acc)
                  | Inl TryLater \<Rightarrow> triggers_back older acc
                  | Inl (HistoryConflict round) \<Rightarrow> Inl round)
          else triggers_back older acc
      | None \<Rightarrow> triggers_back older acc)"

definition db_triggers :: "round \<Rightarrow> round \<Rightarrow> dag_back \<Rightarrow> (unit, round + point_info list) outcome" where
  "db_triggers lo hi rounds =
     (if hi < lo then Ok (Inr [])
      else bindR (db_range lo hi rounds) (\<lambda>ds. Ok (triggers_back (rev ds) [])))"

subsection \<open>The chain of anchors\<close>

text \<open>The anchor stage of a proof's round must name the proof's author as its leader.\<close>

definition proof_stage :: "point_id \<Rightarrow> dag_round \<Rightarrow> (sync_error, anchor_stage) outcome" where
  "proof_stage proof_id d =
     (case dr_anchor_stage d of
        Some stage \<Rightarrow>
          if as_role stage = Proof then if pid_author proof_id = as_leader stage then Ok stage else Panic
          else Panic
      | None \<Rightarrow> Panic)"

fun unusable_back :: "round \<Rightarrow> point_id \<Rightarrow> dag_round list \<Rightarrow> (sync_error, round) outcome" where
  "unusable_back bottom last_proof [] = Panic"
| "unusable_back bottom last_proof (d # older) =
     (if dr_round d > pid_round last_proof then unusable_back bottom last_proof older
      else if dr_round d \<noteq> pid_round last_proof then Panic
      else
        bindR (proof_stage last_proof d) (\<lambda>_.
        bindR (ready_valid_point d (pid_author last_proof) (pid_digest last_proof)) (\<lambda>proof.
        bindR (pi_prev_id (vp_info proof)) (\<lambda>prev.
          case prev of
            None \<Rightarrow>
              bindR (pi_anchor_id (vp_info proof) Proof) (\<lambda>last_proof.
                if pid_round last_proof \<le> bottom then Ok (pid_round last_proof)
                else unusable_back bottom last_proof older)
          | Some anchor_id \<Rightarrow>
              (case older of
                 [] \<Rightarrow> Ok (pi_round (vp_info proof))
               | a # older' \<Rightarrow>
                   if dr_round a \<noteq> pid_round anchor_id then Panic
                   else bindR (ready_valid_point a (pid_author anchor_id) (pid_digest anchor_id)) (\<lambda>anchor.
                     bindR (pi_anchor_id (vp_info anchor) Proof) (\<lambda>last_proof.
                       if pid_round last_proof \<le> bottom then Ok (pid_round last_proof)
                       else unusable_back bottom last_proof older')))))))"

definition db_last_unusable_proof_round :: "point_info \<Rightarrow> dag_back \<Rightarrow> (sync_error, round) outcome" where
  "db_last_unusable_proof_round trigger rounds =
     (case rounds of
        [] \<Rightarrow> Panic
      | (bottom, _) # _ \<Rightarrow>
          bindR (pi_anchor_id trigger Proof) (\<lambda>last_proof.
            if pid_round last_proof \<le> bottom then Ok (pid_round last_proof)
            else unusable_back bottom last_proof
              (rev (map snd (filter (\<lambda>e. fst e \<le> pid_round last_proof) rounds)))))"

text \<open>
  The walk from a trigger back to the last known proof. It ends when the rounds are exhausted or at
  a proof that is already used; the second component tells the latter, which skips the final check.
\<close>

fun chain_back ::
  "round \<Rightarrow> round \<Rightarrow> point_info \<Rightarrow> point_id \<Rightarrow> dag_round list \<Rightarrow> enqueued_anchor list
   \<Rightarrow> (sync_error, enqueued_anchor list \<times> bool) outcome" where
  "chain_back bottom last_proof_round trigger lookup [] result = Ok (result, False)"
| "chain_back bottom last_proof_round trigger lookup (d # older) result =
     (if dr_round d > pid_round lookup
      then chain_back bottom last_proof_round trigger lookup older result
      else if dr_round d \<noteq> pid_round lookup then Panic
      else
        bindR (proof_stage lookup d) (\<lambda>stage.
        if as_is_used stage then if last_proof_round \<le> bottom then Ok (result, True) else Panic
        else
        bindR (ready_valid_point d (pid_author lookup) (pid_digest lookup)) (\<lambda>proof.
        bindR (pi_prev_id (vp_info proof)) (\<lambda>prev.
          case prev of
            None \<Rightarrow>
              bindR (pi_anchor_id (vp_info proof) Proof) (\<lambda>lookup.
                chain_back bottom last_proof_round trigger lookup older result)
          | Some anchor_id \<Rightarrow>
              (case older of
                 [] \<Rightarrow> if pid_round anchor_id \<le> bottom then Ok (result, False) else Panic
               | a # older' \<Rightarrow>
                   if dr_round a \<noteq> pid_round anchor_id then Panic
                   else
                     bindR (ready_valid_point a (pid_author anchor_id) (pid_digest anchor_id)) (\<lambda>anchor.
                     bindR (round_prev (pi_round trigger)) (\<lambda>before.
                     bindR (if pi_round (vp_info proof) = before
                            then bindR (pi_anchor_id trigger Proof) (\<lambda>to. Ok (pi_id (vp_info proof) = to))
                            else Ok False) (\<lambda>direct.
                     bindR (pi_anchor_id (vp_info anchor) Proof) (\<lambda>lookup.
                       chain_back bottom last_proof_round trigger lookup older'
                         (\<lparr>ea_anchor = vp_info anchor, ea_proof = vp_info proof,
                           ea_direct_trigger = (if direct then Some trigger else None)\<rparr> # result))))))))))"

definition db_anchor_chain ::
  "round \<Rightarrow> point_info \<Rightarrow> dag_back \<Rightarrow> (sync_error, enqueued_anchor list) outcome" where
  "db_anchor_chain last_proof_round trigger rounds =
     (if pi_anchor_link trigger Trigger \<noteq> ToSelf then Panic
      else bindR (round_prev (pi_round trigger)) (\<lambda>before.
        if last_proof_round \<ge> before then Ok []
        else bindR (round_next last_proof_round) (\<lambda>after.
          if before < after then Ok []
          else bindR (db_range after before rounds) (\<lambda>ds.
            bindR (pi_prev_id trigger) (\<lambda>prev.
              case prev of
                Some lookup \<Rightarrow>
                  bindR (chain_back (case rounds of [] \<Rightarrow> 0 | (bottom, _) # _ \<Rightarrow> bottom) last_proof_round trigger lookup (rev ds) []) (\<lambda>(result, used).
                    if used then Ok result
                    else (case result of
                            [] \<Rightarrow> Err TryLater
                          | first # _ \<Rightarrow>
                              bindR (pi_anchor_round (ea_anchor first) Proof) (\<lambda>linked.
                                if linked \<le> last_proof_round then Ok result else Err TryLater)))
              | None \<Rightarrow> Panic)))))"

subsection \<open>The history of an anchor\<close>

definition gather_extend :: "(peer_id, digest) bmap \<Rightarrow> (peer_id, digest) bmap \<Rightarrow> (peer_id, digest) bmap" where
  "gather_extend from to = (if to = [] then from else bm_extend from to)"

text \<open>
  The points of one round: \<open>r1\<close> and \<open>r2\<close> collect the dependencies of the uncommitted ones at the two
  rounds below, \<open>uncommitted\<close> is filled at its front.
\<close>

definition gather_point ::
  "dag_round \<Rightarrow> peer_id \<times> digest
   \<Rightarrow> (peer_id, digest) bmap \<times> (peer_id, digest) bmap \<times> valid_point list
   \<Rightarrow> (sync_error, (peer_id, digest) bmap \<times> (peer_id, digest) bmap \<times> valid_point list) outcome" where
  "gather_point d e s =
     (case s of (r1, r2, uncommitted) \<Rightarrow>
        bindR (ready_valid_point d (fst e) (snd e)) (\<lambda>global.
          if vp_is_committed global then Ok (r1, r2, uncommitted)
          else Ok (gather_extend (pi_includes (vp_info global)) r1,
                   gather_extend (pi_witness (vp_info global)) r2, global # uncommitted)))"

text \<open>\<open>shuffle\<close> draws from the generator state \<open>rng\<close> and returns the new state.\<close>

fun gather_rounds ::
  "('g \<Rightarrow> (peer_id \<times> digest) list \<Rightarrow> (peer_id \<times> digest) list \<times> 'g) \<Rightarrow> dag_round list \<Rightarrow> 'g \<Rightarrow> round
   \<Rightarrow> (peer_id, digest) bmap \<Rightarrow> (peer_id, digest) bmap \<Rightarrow> valid_point list
   \<Rightarrow> (sync_error, round \<times> valid_point list) outcome" where
  "gather_rounds shuffle [] rng next_round r0 r1 uncommitted = Ok (next_round, uncommitted)"
| "gather_rounds shuffle (d # older) rng next_round r0 r1 uncommitted =
     bindR (round_next (dr_round d)) (\<lambda>after.
       if after \<noteq> next_round then Panic
       else
         let (sorted, rng) = shuffle rng r0
         in bindR (foldR (gather_point d) sorted (r1, [], uncommitted)) (\<lambda>(r1, r2, uncommitted).
              gather_rounds shuffle older rng (dr_round d) r1 r2 uncommitted))"

definition history_limit :: "point_info \<Rightarrow> mempool_config \<Rightarrow> ('e, round) outcome" where
  "history_limit anchor conf =
     bindR (round_next (mc_genesis_round conf)) (\<lambda>after_genesis.
       Ok (max after_genesis (round_sub (pi_round anchor) (cc_commit_history_rounds (mc_consensus conf)))))"

definition gather_uncommitted ::
  "('g \<Rightarrow> (peer_id \<times> digest) list \<Rightarrow> (peer_id \<times> digest) list \<times> 'g) \<Rightarrow> (digest \<Rightarrow> 'g)
   \<Rightarrow> round \<Rightarrow> point_info \<Rightarrow> mempool_config \<Rightarrow> dag_back \<Rightarrow> (sync_error, valid_point list) outcome" where
  "gather_uncommitted shuffle seed full_history_bottom anchor conf rounds =
     bindR (history_limit anchor conf) (\<lambda>limit.
     bindR (round_prev (pi_round anchor)) (\<lambda>before.
     bindR (db_range limit before rounds) (\<lambda>ds.
     bindR (gather_rounds shuffle (rev ds) (seed (pi_digest anchor)) (pi_round anchor)
         (pi_includes anchor) (pi_witness anchor) []) (\<lambda>(next_round, uncommitted).
       if limit \<ge> full_history_bottom \<and> next_round \<noteq> limit then Panic else Ok uncommitted))))"

section \<open>Committer\<close>

record committer =
  cm_dag :: dag_back
  cm_anchor_chain :: anchor_chain
  cm_full_history_bottom :: round

definition cm_default :: committer where
  "cm_default = \<lparr>cm_dag = [], cm_anchor_chain = [], cm_full_history_bottom = round_bottom\<rparr>"

definition cm_init :: "dag_round \<Rightarrow> mempool_config \<Rightarrow> committer \<Rightarrow> (unit, round \<times> committer) outcome" where
  "cm_init bottom conf c =
     (if cm_full_history_bottom c \<noteq> round_bottom then Panic
      else bindR (db_init bottom (cm_dag c)) (\<lambda>dag.
        let full = round_add (dr_round bottom) (cc_commit_history_rounds (mc_consensus conf))
        in Ok (full, c\<lparr>cm_dag := dag, cm_full_history_bottom := full\<rparr>)))"

definition cm_extend_from_ahead :: "dag_round list \<Rightarrow> committer \<Rightarrow> (unit, committer) outcome" where
  "cm_extend_from_ahead rounds c =
     bindR (db_extend_from_front rounds (cm_dag c)) (\<lambda>dag. Ok (c\<lparr>cm_dag := dag\<rparr>))"

text \<open>The result is \<open>Inr\<close> when the whole range was dropped and \<open>Inl\<close> otherwise.\<close>

definition cm_drop_upto ::
  "round \<Rightarrow> mempool_config \<Rightarrow> committer \<Rightarrow> (unit, (round + round) \<times> committer) outcome" where
  "cm_drop_upto new_bottom conf c =
     bindR (db_top (cm_dag c)) (\<lambda>top.
       let actual = min new_bottom (dr_round top);
           full = round_add actual (cc_commit_history_rounds (mc_consensus conf))
       in Ok (if actual = new_bottom then Inr full else Inl full,
              c\<lparr>cm_dag := db_drop_upto actual (cm_dag c),
                cm_anchor_chain := ac_drop_upto actual (cm_anchor_chain c),
                cm_full_history_bottom := full\<rparr>))"

definition cm_enqueue_all ::
  "enqueued_anchor list \<Rightarrow> anchor_chain \<Rightarrow> (sync_error, anchor_chain) outcome" where
  "cm_enqueue_all =
     foldR (\<lambda>next q.
       bindR (if q = [] then Ok True
              else bindR (pi_anchor_round (ea_anchor next) Proof) (\<lambda>r. Ok (r = pi_round (ea_proof (last q)))))
         (\<lambda>ok. if ok then Ok (ac_enqueue next q) else Panic))"

text \<open>One trigger. The result tells to go on, to stop, or a conflict.\<close>

fun cm_enqueue_triggers ::
  "dag_back \<Rightarrow> point_info list \<Rightarrow> anchor_chain \<Rightarrow> (unit, round option \<times> anchor_chain) outcome" where
  "cm_enqueue_triggers dag [] q = Ok (None, q)"
| "cm_enqueue_triggers dag (trigger # rest) q =
     (case (case ac_top_proof_round q of
              Some r \<Rightarrow> Ok r
            | None \<Rightarrow> db_last_unusable_proof_round trigger dag) of
        Panic \<Rightarrow> Panic
      | Err TryLater \<Rightarrow> Ok (None, q)
      | Err (HistoryConflict round) \<Rightarrow> Ok (Some round, q)
      | Ok last_proof_round \<Rightarrow>
          (case db_anchor_chain last_proof_round trigger dag of
             Panic \<Rightarrow> Panic
           | Err TryLater \<Rightarrow> Ok (None, q)
           | Err (HistoryConflict round) \<Rightarrow> Ok (Some round, q)
           | Ok chain_part \<Rightarrow>
               (case cm_enqueue_all chain_part q of
                  Ok q' \<Rightarrow> cm_enqueue_triggers dag rest q'
                | _ \<Rightarrow> Panic)))"

definition cm_enqueue_new_anchors :: "round \<Rightarrow> committer \<Rightarrow> (unit, round option \<times> committer) outcome" where
  "cm_enqueue_new_anchors current c =
     bindR (case ac_top_proof_round (cm_anchor_chain c) of
              Some r \<Rightarrow> Ok r
            | None \<Rightarrow> db_bottom_round (cm_dag c)) (\<lambda>from.
     bindR (db_triggers from current (cm_dag c)) (\<lambda>triggers.
       case triggers of
         Inl conflict \<Rightarrow> Ok (Some conflict, c)
       | Inr triggers \<Rightarrow>
           bindR (cm_enqueue_triggers (cm_dag c) triggers (cm_anchor_chain c)) (\<lambda>(conflict, q).
             Ok (conflict, c\<lparr>cm_anchor_chain := q\<rparr>))))"

text \<open>Marks in the shared state: an anchor stage is used, a point is committed.\<close>

definition db_mark_used :: "anchor_role \<Rightarrow> round \<Rightarrow> dag_back \<Rightarrow> (unit, dag_back) outcome" where
  "db_mark_used role round rounds =
     (case bm_get rounds round of
        None \<Rightarrow> Panic
      | Some d \<Rightarrow>
          (case dr_anchor_stage d of
             None \<Rightarrow> Panic
           | Some stage \<Rightarrow>
               if as_role stage = role
               then Ok (bm_insert round (d\<lparr>dr_anchor_stage := Some (stage\<lparr>as_is_used := True\<rparr>)\<rparr>) rounds)
               else Panic))"

fun commit_task :: "dag_point future \<Rightarrow> dag_point future" where
  "commit_task (Ready (Valid v)) = Ready (Valid (v\<lparr>vp_is_committed := True\<rparr>))"
| "commit_task task = task"

fun commit_future :: "dag_point_future \<Rightarrow> dag_point_future" where
  "commit_future (FutValidate task cert) = FutValidate (commit_task task) cert"
| "commit_future (FutDownload task cert dependers res) = FutDownload (commit_task task) cert dependers res"

definition dr_mark_committed :: "point_id \<Rightarrow> dag_round \<Rightarrow> dag_round" where
  "dr_mark_committed pid d = d\<lparr>dr_locations := map (\<lambda>(peer, loc).
     (peer, if peer = pid_author pid
            then loc\<lparr>dl_versions := map (\<lambda>(dg, fut).
              (dg, if dg = pid_digest pid then commit_future fut else fut)) (dl_versions loc)\<rparr>
            else loc)) (dr_locations d)\<rparr>"

definition db_mark_committed :: "point_id \<Rightarrow> dag_back \<Rightarrow> dag_back" where
  "db_mark_committed pid rounds =
     map (\<lambda>(r, d). (r, if r = pid_round pid then dr_mark_committed pid d else d)) rounds"

definition cm_dequeue_anchor ::
  "('g \<Rightarrow> (peer_id \<times> digest) list \<Rightarrow> (peer_id \<times> digest) list \<times> 'g) \<Rightarrow> (digest \<Rightarrow> 'g)
   \<Rightarrow> enqueued_anchor \<Rightarrow> mempool_config \<Rightarrow> committer
   \<Rightarrow> (unit, (sync_error + anchor_data) \<times> committer) outcome" where
  "cm_dequeue_anchor shuffle seed next conf c =
     (let c = c\<lparr>cm_dag := db_drop_upto (round_sub (pi_round (ea_anchor next))
              (cc_commit_history_rounds (mc_consensus conf))) (cm_dag c)\<rparr>
      in case gather_uncommitted shuffle seed (cm_full_history_bottom c) (ea_anchor next) conf (cm_dag c) of
           Panic \<Rightarrow> Panic
         | Err e \<Rightarrow> Ok (Inl e, c\<lparr>cm_anchor_chain := next # cm_anchor_chain c\<rparr>)
         | Ok uncommitted \<Rightarrow>
             bindR (db_mark_used Proof (pi_round (ea_proof next)) (cm_dag c)) (\<lambda>dag.
             bindR (case ea_direct_trigger next of
                      None \<Rightarrow> Ok dag
                    | Some tr \<Rightarrow> db_mark_used Trigger (pi_round tr) dag) (\<lambda>dag.
             bindR (pi_anchor_round (ea_anchor next) Proof) (\<lambda>linked.
             bindR (if linked > mc_genesis_round conf
                    then bindR (round_prev linked) (\<lambda>r. Ok (Some r)) else Ok None) (\<lambda>prev.
               Ok (Inr \<lparr>ad_prev_anchor = prev, ad_anchor = ea_anchor next,
                     ad_history = map vp_info uncommitted\<rparr>,
                   c\<lparr>cm_dag := fold (\<lambda>v. db_mark_committed (pi_id (vp_info v))) uncommitted dag\<rparr>))))))"

lemma cm_dequeue_chain:
  assumes "cm_dequeue_anchor shuffle seed next conf c = Ok (Inr a, c')"
  shows "cm_anchor_chain c' = cm_anchor_chain c"
  using assms
  by (auto simp: cm_dequeue_anchor_def Let_def outcome_simps split: outcome.splits option.splits if_splits)

text \<open>Anchors are committed one by one until one is not ready; \<open>Inl\<close> is a conflict.\<close>

function cm_commit_loop ::
  "('g \<Rightarrow> (peer_id \<times> digest) list \<Rightarrow> (peer_id \<times> digest) list \<times> 'g) \<Rightarrow> (digest \<Rightarrow> 'g)
   \<Rightarrow> mempool_config \<Rightarrow> committer \<Rightarrow> (unit, (round + anchor_data list) \<times> committer) outcome" where
  "cm_commit_loop shuffle seed conf c =
     (case cm_anchor_chain c of
        [] \<Rightarrow> Ok (Inr [], c)
      | next # rest \<Rightarrow>
          bindR (cm_dequeue_anchor shuffle seed next conf (c\<lparr>cm_anchor_chain := rest\<rparr>)) (\<lambda>(res, c).
            case res of
              Inl TryLater \<Rightarrow> Ok (Inr [], c)
            | Inl (HistoryConflict round) \<Rightarrow> Ok (Inl round, c)
            | Inr data \<Rightarrow>
                bindR (cm_commit_loop shuffle seed conf c) (\<lambda>(out, c).
                  Ok (case out of Inl round \<Rightarrow> Inl round | Inr committed \<Rightarrow> Inr (data # committed), c))))"
  by pat_completeness auto

termination
  by (relation "measure (\<lambda>(_, _, _, c). length (cm_anchor_chain c))")
    (auto dest: cm_dequeue_chain)

declare cm_commit_loop.simps [simp del]

definition cm_commit_up_to ::
  "('g \<Rightarrow> (peer_id \<times> digest) list \<Rightarrow> (peer_id \<times> digest) list \<times> 'g) \<Rightarrow> (digest \<Rightarrow> 'g)
   \<Rightarrow> round \<Rightarrow> mempool_config \<Rightarrow> committer \<Rightarrow> (unit, (round + anchor_data list) \<times> committer) outcome" where
  "cm_commit_up_to shuffle seed current conf c =
     bindR (cm_enqueue_new_anchors current c) (\<lambda>(conflict, c).
       case conflict of
         Some round \<Rightarrow> Ok (Inl round, c)
       | None \<Rightarrow> cm_commit_loop shuffle seed conf c)"

definition cm_commit ::
  "('g \<Rightarrow> (peer_id \<times> digest) list \<Rightarrow> (peer_id \<times> digest) list \<times> 'g) \<Rightarrow> (digest \<Rightarrow> 'g)
   \<Rightarrow> mempool_config \<Rightarrow> committer \<Rightarrow> (unit, (round + anchor_data list) \<times> committer) outcome" where
  "cm_commit shuffle seed conf c =
     bindR (db_top (cm_dag c)) (\<lambda>top.
     bindR (round_prev (dr_round top)) (\<lambda>current. cm_commit_up_to shuffle seed current conf c))"

end
