(* ===== verification/Commit_Order.thy ===== *)
theory Commit_Order
  imports Dag_Commit
begin

text \<open>
  What commits promise: the lemmas about the committer of \<open>Dag_Commit\<close>.

  \<open>point_at\<close> is the DAG as a partial function from point ids, \<open>back_wf\<close> its invariant. The history
  of an anchor depends only on points (\<open>gather_rounds_agree\<close>), so nodes commit the same history in the
  same order; it is closed under dependencies; and an inductive run of all operations of the committer
  keeps \<open>once_inv\<close>, by which no point is ever committed twice.
\<close>

section \<open>Points of the DAG\<close>

definition point_at :: "dag_back \<Rightarrow> point_id \<Rightarrow> valid_point option" where
  "point_at rounds pid =
     (case bm_get rounds (pid_round pid) of
        None \<Rightarrow> None
      | Some d \<Rightarrow>
          (case ready_valid_point d (pid_author pid) (pid_digest pid) of Ok v \<Rightarrow> Some v | _ \<Rightarrow> None))"

text \<open>
  Rounds are under their number, points under their author and digest; the maps of points are sorted
  maps.
\<close>

definition round_wf :: "dag_round \<Rightarrow> bool" where
  "round_wf d \<longleftrightarrow> (\<forall>peer dg v. ready_valid_point d peer dg = Ok v
     \<longrightarrow> pi_id (vp_info v) = \<lparr>pid_author = peer, pid_round = dr_round d, pid_digest = dg\<rparr>
       \<and> bm_wf (pi_includes (vp_info v)) \<and> bm_wf (pi_witness (vp_info v)))"

definition back_wf :: "dag_back \<Rightarrow> bool" where
  "back_wf rounds \<longleftrightarrow> rounds \<noteq> [] \<and> bm_wf rounds \<and> (\<forall>(r, d)\<in>set rounds. dr_round d = r \<and> round_wf d)"

lemma bm_get_map:
  "bm_get (map (\<lambda>(k, v). (k, f k v)) m) k = map_option (f k) (bm_get m k)"
  by (induction m) (auto simp: bm_get_def)

lemma bm_get_in: "bm_wf m \<Longrightarrow> (k, v) \<in> set m \<longleftrightarrow> bm_get m k = Some v"
  unfolding bm_get_def by (auto dest: map_of_SomeD bm_wf_distinct intro: map_of_is_SomeI)

lemma back_wf_get: "back_wf rounds \<Longrightarrow> bm_get rounds r = Some d \<Longrightarrow> dr_round d = r \<and> round_wf d"
  unfolding back_wf_def by (auto simp flip: bm_get_in)

lemma fut_task_commit [simp]: "fut_task (commit_future fut) = commit_task (fut_task fut)"
  by (cases fut) simp_all

lemma ready_commit_task:
  "(case commit_task t of Pending \<Rightarrow> Err TryLater | Cancelled \<Rightarrow> Err TryLater | Ready dp \<Rightarrow> ready_dag_point dp r)
   = (case (case t of Pending \<Rightarrow> Err TryLater | Cancelled \<Rightarrow> Err TryLater | Ready dp \<Rightarrow> ready_dag_point dp r) of
        Ok v \<Rightarrow> Ok (v\<lparr>vp_is_committed := True\<rparr>) | Err e \<Rightarrow> Err e | Panic \<Rightarrow> Panic)"
  by (cases t rule: commit_task.cases) (auto simp: ready_dag_point_def)

lemma ready_mark_committed:
  "ready_valid_point (dr_mark_committed pid d) peer dg =
     (if peer = pid_author pid \<and> dg = pid_digest pid
      then (case ready_valid_point d peer dg of
              Ok v \<Rightarrow> Ok (v\<lparr>vp_is_committed := True\<rparr>) | Err e \<Rightarrow> Err e | Panic \<Rightarrow> Panic)
      else ready_valid_point d peer dg)"
  unfolding ready_valid_point_def dr_view_def dr_mark_committed_def
  by (auto simp: bm_get_map ready_commit_task cong: future.case_cong split: option.splits)

lemma point_at_mark_committed:
  "point_at (db_mark_committed pid rounds) x =
     (if x = pid then map_option (vp_is_committed_update (\<lambda>_. True)) (point_at rounds x) else point_at rounds x)"
proof -
  have same: "x = pid \<longleftrightarrow> pid_round x = pid_round pid \<and> pid_author x = pid_author pid \<and> pid_digest x = pid_digest pid"
    by (cases x; cases pid) auto
  show ?thesis
    by (auto simp: point_at_def db_mark_committed_def bm_get_map ready_mark_committed same
        split: option.splits outcome.splits)
qed

lemma ready_stage_update [simp]:
  "ready_valid_point (d\<lparr>dr_anchor_stage := s\<rparr>) peer dg = ready_valid_point d peer dg"
  by (auto simp: ready_valid_point_def dr_view_def cong: future.case_cong split: option.splits)

subsection \<open>Marks and dropped rounds\<close>

lemma back_wf_update:
  assumes "back_wf rounds" "bm_get rounds r = Some d" "dr_round d' = r" "round_wf d'"
  shows "back_wf (bm_insert r d' rounds)" "set (bm_keys (bm_insert r d' rounds)) = set (bm_keys rounds)"
proof -
  from assms(1) have wf: "bm_wf rounds" by (simp add: back_wf_def)
  have "bm_insert r d' rounds \<noteq> []" by (cases rounds) (auto split: if_splits)
  moreover have "\<forall>(k, e)\<in>set (bm_insert r d' rounds). dr_round e = k \<and> round_wf e"
    using assms back_wf_get [OF assms(1)]
    by (auto simp: bm_get_in [OF bm_wf_insert [OF wf]] bm_get_insert [OF wf] split: if_splits)
  ultimately show "back_wf (bm_insert r d' rounds)"
    using bm_wf_insert [OF wf] by (simp add: back_wf_def)
  show "set (bm_keys (bm_insert r d' rounds)) = set (bm_keys rounds)"
    using bm_get_keys [OF assms(2)] by (auto simp: set_bm_keys_insert)
qed

lemma mark_used_facts:
  assumes "back_wf rounds" "db_mark_used role r rounds = Ok rounds'"
  shows "back_wf rounds'" "point_at rounds' = point_at rounds" "set (bm_keys rounds') = set (bm_keys rounds)"
    "r \<in> set (bm_keys rounds)"
proof -
  from assms(2) obtain d s where d: "bm_get rounds r = Some d"
      "rounds' = bm_insert r (d\<lparr>dr_anchor_stage := s\<rparr>) rounds"
    by (auto simp: db_mark_used_def split: option.splits if_splits)
  have "round_wf (d\<lparr>dr_anchor_stage := s\<rparr>)" "dr_round d = r"
    using back_wf_get [OF assms(1) d(1)] by (auto simp: round_wf_def)
  with back_wf_update [OF assms(1) d(1), of "d\<lparr>dr_anchor_stage := s\<rparr>"] d(2)
  show "back_wf rounds'" "set (bm_keys rounds') = set (bm_keys rounds)" by simp_all
  have "bm_wf rounds" using assms(1) by (simp add: back_wf_def)
  then show "point_at rounds' = point_at rounds"
    by (auto simp: fun_eq_iff point_at_def d bm_get_insert split: option.splits)
  show "r \<in> set (bm_keys rounds)" using d(1) by (rule bm_get_keys)
qed

lemma mark_committed_facts:
  assumes "back_wf rounds"
  shows "back_wf (db_mark_committed pid rounds)" "bm_keys (db_mark_committed pid rounds) = bm_keys rounds"
proof -
  show keys: "bm_keys (db_mark_committed pid rounds) = bm_keys rounds"
    by (simp add: db_mark_committed_def bm_keys_def comp_def split_def)
  have "round_wf (dr_mark_committed pid d)" if "round_wf d" for d
    using that unfolding round_wf_def ready_mark_committed
    by (auto simp: dr_mark_committed_def pi_data_defs split: if_splits outcome.splits)
  moreover have "dr_round (dr_mark_committed pid d) = dr_round d" for d
    by (simp add: dr_mark_committed_def)
  moreover have "bm_wf (db_mark_committed pid rounds)"
    using assms keys unfolding back_wf_def bm_wf_def bm_keys_def [symmetric] by simp
  ultimately show "back_wf (db_mark_committed pid rounds)"
    using assms by (auto simp: back_wf_def db_mark_committed_def)
qed

lemma drop_upto_filter:
  assumes "bm_wf rounds"
  shows "db_drop_upto nb rounds = filter (\<lambda>e. \<not> fst e < nb) rounds"
  using assms
proof (induction rounds)
  case (Cons e rounds)
  then have "bm_wf rounds" "\<forall>x\<in>set rounds. fst e < fst x" by (auto simp: bm_wf_def)
  moreover have "filter (\<lambda>e. \<not> fst e < nb) rounds = rounds" if "\<not> fst e < nb"
    using that calculation(2) by (intro filter_True) (auto simp: not_less)
  ultimately show ?case using Cons.IH by (auto simp: db_drop_upto_def)
qed (simp add: db_drop_upto_def)

lemma bm_get_filter:
  "bm_get (filter (\<lambda>e. P (fst e)) m) k = (if P k then bm_get m k else None)"
  by (induction m) (auto simp: bm_get_def)

lemma drop_upto_facts:
  assumes "bm_wf rounds"
  shows "point_at (db_drop_upto nb rounds) pid = (if pid_round pid < nb then None else point_at rounds pid)"
    and "set (bm_keys (db_drop_upto nb rounds)) = {r \<in> set (bm_keys rounds). nb \<le> r}"
    and "bm_wf (db_drop_upto nb rounds)"
  unfolding drop_upto_filter [OF assms]
  using assms
  by (auto simp: point_at_def bm_get_filter [where P = "\<lambda>r. \<not> r < nb"] bm_keys_def intro: bm_wf_filter)

lemma back_wf_drop:
  assumes "back_wf rounds" "db_drop_upto nb rounds \<noteq> []"
  shows "back_wf (db_drop_upto nb rounds)"
  using assms unfolding back_wf_def
  by (auto simp: drop_upto_filter intro: bm_wf_filter)

section \<open>What one commit takes\<close>

lemma gather_fold:
  assumes "foldR (gather_point d) es (r1, r2, un) = Ok (r1', r2', un')"
  obtains vs where "list_all2 (\<lambda>e v. ready_valid_point d (fst e) (snd e) = Ok v) es vs"
    "un' = rev (filter (\<lambda>v. \<not> vp_is_committed v) vs) @ un"
    "r1' = fold (\<lambda>v. gather_extend (pi_includes (vp_info v))) (filter (\<lambda>v. \<not> vp_is_committed v) vs) r1"
    "r2' = fold (\<lambda>v. gather_extend (pi_witness (vp_info v))) (filter (\<lambda>v. \<not> vp_is_committed v) vs) r2"
  using assms
proof (induction es arbitrary: r1 r2 un thesis)
  case Nil
  then show ?case by (auto intro: Nil.prems(1) [of "[]"])
next
  case (Cons e es)
  from Cons.prems(2) obtain s1 where s1: "gather_point d e (r1, r2, un) = Ok s1"
      "foldR (gather_point d) es s1 = Ok (r1', r2', un')"
    by (auto simp: outcome_simps)
  then obtain v where v: "ready_valid_point d (fst e) (snd e) = Ok v"
      "foldR (gather_point d) es (if vp_is_committed v then (r1, r2, un)
         else (gather_extend (pi_includes (vp_info v)) r1, gather_extend (pi_witness (vp_info v)) r2, v # un))
       = Ok (r1', r2', un')"
    by (auto simp: gather_point_def outcome_simps split: if_splits)
  show ?case
  proof (cases "vp_is_committed v")
    case True
    with v(2) have "foldR (gather_point d) es (r1, r2, un) = Ok (r1', r2', un')" by simp
    from Cons.IH [OF _ this] obtain vs where
      "list_all2 (\<lambda>e v. ready_valid_point d (fst e) (snd e) = Ok v) es vs"
      "un' = rev (filter (\<lambda>v. \<not> vp_is_committed v) vs) @ un"
      "r1' = fold (\<lambda>v. gather_extend (pi_includes (vp_info v))) (filter (\<lambda>v. \<not> vp_is_committed v) vs) r1"
      "r2' = fold (\<lambda>v. gather_extend (pi_witness (vp_info v))) (filter (\<lambda>v. \<not> vp_is_committed v) vs) r2"
      by blast
    with True v(1) show ?thesis by (intro Cons.prems(1) [of "v # vs"]) simp_all
  next
    case False
    with v(2) have "foldR (gather_point d) es (gather_extend (pi_includes (vp_info v)) r1,
        gather_extend (pi_witness (vp_info v)) r2, v # un) = Ok (r1', r2', un')" by simp
    from Cons.IH [OF _ this] obtain vs where
      "list_all2 (\<lambda>e v. ready_valid_point d (fst e) (snd e) = Ok v) es vs"
      "un' = rev (filter (\<lambda>v. \<not> vp_is_committed v) vs) @ v # un"
      "r1' = fold (\<lambda>v. gather_extend (pi_includes (vp_info v))) (filter (\<lambda>v. \<not> vp_is_committed v) vs)
         (gather_extend (pi_includes (vp_info v)) r1)"
      "r2' = fold (\<lambda>v. gather_extend (pi_witness (vp_info v))) (filter (\<lambda>v. \<not> vp_is_committed v) vs)
         (gather_extend (pi_witness (vp_info v)) r2)"
      by blast
    with False v(1) show ?thesis by (intro Cons.prems(1) [of "v # vs"]) simp_all
  qed
qed

lemma gather_extend_facts:
  assumes "bm_wf from" "bm_wf to"
  shows "bm_wf (gather_extend from to)"
    and "set (bm_keys (gather_extend from to)) = set (bm_keys from) \<union> set (bm_keys to)"
proof -
  have "bm_wf (bm_extend m m') \<and> set (bm_keys (bm_extend m m')) = set (bm_keys m) \<union> set (bm_keys m')"
    if "bm_wf m'" for m m' :: "(peer_id, digest) bmap"
    using that
    by (induction m arbitrary: m')
      (auto simp: bm_extend_def bm_wf_insert set_bm_keys_insert, auto simp: bm_keys_def)
  with assms show "bm_wf (gather_extend from to)"
    "set (bm_keys (gather_extend from to)) = set (bm_keys from) \<union> set (bm_keys to)"
    by (auto simp: gather_extend_def bm_keys_def)
qed

lemma ready_list:
  assumes "round_wf d" "list_all2 (\<lambda>e v. ready_valid_point d (fst e) (snd e) = Ok v) es vs"
  shows "map (\<lambda>v. pi_author (vp_info v)) vs = map fst es"
    and "\<forall>v\<in>set vs. pi_round (vp_info v) = dr_round d \<and> bm_wf (pi_includes (vp_info v))
      \<and> bm_wf (pi_witness (vp_info v))
      \<and> ready_valid_point d (pi_author (vp_info v)) (pi_digest (vp_info v)) = Ok v"
  using assms(2)
proof (induction rule: list_all2_induct)
  case (Cons e es v vs)
  {
    case 1
    with Cons.hyps(1) Cons.IH assms(1) show ?case by (auto simp: round_wf_def pi_id_def)
  next
    case 2
    from Cons.hyps(1) assms(1) have "pi_id (vp_info v)
        = \<lparr>pid_author = fst e, pid_round = dr_round d, pid_digest = snd e\<rparr>"
      "bm_wf (pi_includes (vp_info v))" "bm_wf (pi_witness (vp_info v))"
      unfolding round_wf_def by blast+
    with Cons.hyps(1) Cons.IH show ?case by (auto simp: pi_id_def)
  }
qed simp_all

lemma gather_extends_wf:
  assumes "\<forall>v\<in>set vs. bm_wf (f v)" "bm_wf m"
  shows "bm_wf (fold (\<lambda>v. gather_extend (f v)) vs m)"
    and "set (bm_keys (fold (\<lambda>v. gather_extend (f v)) vs m)) = (\<Union>v\<in>set vs. set (bm_keys (f v))) \<union> set (bm_keys m)"
  using assms by (induction vs arbitrary: m) (auto simp: gather_extend_facts)

definition gathers :: "('g \<Rightarrow> (peer_id \<times> digest) list \<Rightarrow> (peer_id \<times> digest) list \<times> 'g) \<Rightarrow> bool" where
  "gathers shuffle \<longleftrightarrow> (\<forall>rng m. mset (fst (shuffle rng m)) = mset m)"

text \<open>One round of the walk, with everything later lemmas need.\<close>

lemma gather_round_cases:
  assumes perm: "gathers shuffle" and wf: "round_wf d" and r0: "bm_wf r0" and r1: "bm_wf r1"
    and g: "gather_rounds shuffle (d # older) rng n r0 r1 un = Ok res"
  obtains vs ws r1' r2' where "n = Suc (dr_round d)"
    "ws = filter (\<lambda>v. \<not> vp_is_committed v) vs"
    "list_all2 (\<lambda>e v. ready_valid_point d (fst e) (snd e) = Ok v) (fst (shuffle rng r0)) vs"
    "distinct (map (\<lambda>v. pi_author (vp_info v)) vs)" "set (map (\<lambda>v. pi_author (vp_info v)) vs) = set (bm_keys r0)"
    "\<forall>v\<in>set vs. pi_round (vp_info v) = dr_round d
       \<and> ready_valid_point d (pi_author (vp_info v)) (pi_digest (vp_info v)) = Ok v"
    "bm_wf r1'" "bm_wf r2'"
    "set (bm_keys r1') = (\<Union>v\<in>set ws. set (bm_keys (pi_includes (vp_info v)))) \<union> set (bm_keys r1)"
    "set (bm_keys r2') = (\<Union>v\<in>set ws. set (bm_keys (pi_witness (vp_info v))))"
    "gather_rounds shuffle older (snd (shuffle rng r0)) (dr_round d) r1' r2' (rev ws @ un) = Ok res"
proof -
  obtain es rng' where es: "shuffle rng r0 = (es, rng')" by fastforce
  from g es obtain r1' r2' un1 where n: "n = Suc (dr_round d)"
      and f: "foldR (gather_point d) es (r1, [], un) = Ok (r1', r2', un1)"
      and rest: "gather_rounds shuffle older rng' (dr_round d) r1' r2' un1 = Ok res"
    by (auto simp: outcome_simps split: if_splits)
  from f obtain vs where vs: "list_all2 (\<lambda>e v. ready_valid_point d (fst e) (snd e) = Ok v) es vs"
      "un1 = rev (filter (\<lambda>v. \<not> vp_is_committed v) vs) @ un"
      "r1' = fold (\<lambda>v. gather_extend (pi_includes (vp_info v))) (filter (\<lambda>v. \<not> vp_is_committed v) vs) r1"
      "r2' = fold (\<lambda>v. gather_extend (pi_witness (vp_info v))) (filter (\<lambda>v. \<not> vp_is_committed v) vs) []"
    by (rule gather_fold)
  note ready = ready_list [OF wf vs(1)]
  have "mset es = mset r0" using perm es unfolding gathers_def by (metis fst_conv)
  then have "distinct (map fst es)" "set (map fst es) = set (bm_keys r0)"
    using bm_wf_distinct [OF r0] unfolding bm_keys_def
    by (metis distinct_count_atmost_1 mset_map set_mset_mset)+
  let ?ws = "filter (\<lambda>v. \<not> vp_is_committed v) vs"
  have "\<forall>v\<in>set ?ws. bm_wf (pi_includes (vp_info v))" "\<forall>v\<in>set ?ws. bm_wf (pi_witness (vp_info v))"
    using ready(2) by auto
  note inc = gather_extends_wf [OF this(1) r1] and wit = gather_extends_wf [OF this(2), of "[]"]
  have "bm_wf ([] :: (peer_id, digest) bmap)" "set (bm_keys ([] :: (peer_id, digest) bmap)) = {}"
    by (simp_all add: bm_wf_def bm_keys_def)
  with inc wit ready n vs es rest \<open>distinct (map fst es)\<close> \<open>set (map fst es) = set (bm_keys r0)\<close> show thesis
    by (intro that [of ?ws vs r1' r2']) (simp_all only: list.set_map, auto)
qed

lemma part_point_at:
  assumes "bm_get rounds (dr_round d) = Some d" "ready_valid_point d a g = Ok v"
  shows "point_at rounds \<lparr>pid_author = a, pid_round = dr_round d, pid_digest = g\<rparr> = Some v"
  using assms by (simp add: point_at_def)

lemma sorted_const: "\<forall>x\<in>set xs. x = c \<Longrightarrow> sorted xs"
  by (induction xs) auto

text \<open>The taken points: new, each once, oldest first.\<close>

lemma gather_rounds_takes:
  assumes perm: "gathers shuffle" and wf: "back_wf rounds"
    and "\<forall>d\<in>set ds. bm_get rounds (dr_round d) = Some d" "bm_wf r0" "bm_wf r1"
    and "gather_rounds shuffle ds rng n r0 r1 un = Ok (n', un')"
  shows "\<exists>vs. un' = vs @ un \<and> distinct (map (\<lambda>v. pi_id (vp_info v)) vs)
    \<and> sorted (map (\<lambda>v. pi_round (vp_info v)) vs) \<and> n' \<le> n
    \<and> (\<forall>v\<in>set vs. \<not> vp_is_committed v \<and> point_at rounds (pi_id (vp_info v)) = Some v
         \<and> n' \<le> pi_round (vp_info v) \<and> pi_round (vp_info v) < n)"
  using assms(3-)
proof (induction ds arbitrary: rng n r0 r1 un)
  case (Cons d older)
  then have d: "bm_get rounds (dr_round d) = Some d" by simp
  with back_wf_get [OF wf] have "round_wf d" by blast
  obtain vs ws r1' r2' where
    n: "n = Suc (dr_round d)" and ws: "ws = filter (\<lambda>v. \<not> vp_is_committed v) vs"
    and dist: "distinct (map (\<lambda>v. pi_author (vp_info v)) vs)"
    and vs: "\<forall>v\<in>set vs. pi_round (vp_info v) = dr_round d
       \<and> ready_valid_point d (pi_author (vp_info v)) (pi_digest (vp_info v)) = Ok v"
    and wf': "bm_wf r1'" "bm_wf r2'"
    and rest: "gather_rounds shuffle older (snd (shuffle rng r0)) (dr_round d) r1' r2' (rev ws @ un) = Ok (n', un')"
    by (rule gather_round_cases [OF perm \<open>round_wf d\<close> Cons.prems(2,3,4)])
  from Cons.IH [OF _ wf' rest] Cons.prems(1) obtain us where us: "un' = us @ rev ws @ un"
      "distinct (map (\<lambda>v. pi_id (vp_info v)) us)" "sorted (map (\<lambda>v. pi_round (vp_info v)) us)" "n' \<le> dr_round d"
      "\<forall>v\<in>set us. \<not> vp_is_committed v \<and> point_at rounds (pi_id (vp_info v)) = Some v
         \<and> n' \<le> pi_round (vp_info v) \<and> pi_round (vp_info v) < dr_round d"
    by auto
  have ids: "distinct (map (\<lambda>v. pi_id (vp_info v)) ws)"
    using dist unfolding ws distinct_map by (auto simp: inj_on_def pi_id_def)
  have ws': "\<forall>v\<in>set ws. \<not> vp_is_committed v \<and> pi_round (vp_info v) = dr_round d
      \<and> point_at rounds (pi_id (vp_info v)) = Some v"
    using vs part_point_at [OF d] by (auto simp: ws pi_id_def)
  have "sorted (map (\<lambda>v. pi_round (vp_info v)) (rev ws))"
    by (rule sorted_const [of _ "dr_round d"]) (use ws' in auto)
  moreover have "\<forall>u\<in>set us. \<forall>v\<in>set ws. pi_round (vp_info u) < pi_round (vp_info v)"
    using us(5) ws' by simp
  ultimately have "sorted (map (\<lambda>v. pi_round (vp_info v)) (us @ rev ws))"
    using us(3) by (auto simp: sorted_append intro: less_imp_le)
  moreover have "pi_id (vp_info u) \<noteq> pi_id (vp_info v)" if "u \<in> set us" "v \<in> set ws" for u v
    using us(5) ws' that by (auto simp: pi_id_def)
  then have "distinct (map (\<lambda>v. pi_id (vp_info v)) (us @ rev ws))"
    using us(2) ids by (auto simp flip: rev_map)
  ultimately show ?case using us ws' n by (intro exI [of _ "us @ rev ws"]) auto
qed simp

text \<open>
  The taken points are closed under dependencies: a dependency is a point of the same author at its
  round that is taken or was committed before. During the walk, dependencies below the current
  round wait in \<open>r0\<close> and \<open>r1\<close>.
\<close>

definition covered :: "dag_back \<Rightarrow> valid_point list \<Rightarrow> round \<Rightarrow> peer_id \<Rightarrow> bool" where
  "covered rounds taken r p \<longleftrightarrow>
     (\<exists>dg v. point_at rounds \<lparr>pid_author = p, pid_round = r, pid_digest = dg\<rparr> = Some v
        \<and> (vp_is_committed v \<or> v \<in> set taken))"

definition pending ::
  "dag_back \<Rightarrow> valid_point list \<Rightarrow> round \<Rightarrow> (peer_id, digest) bmap \<Rightarrow> (peer_id, digest) bmap \<Rightarrow> point_info \<Rightarrow> bool" where
  "pending rounds un n r0 r1 i \<longleftrightarrow> n \<le> pi_round i
     \<and> (\<forall>p\<in>set (bm_keys (pi_includes i)). \<forall>r. pi_round i = Suc r \<longrightarrow>
          (if n \<le> r then covered rounds un r p else p \<in> set (bm_keys r0)))
     \<and> (\<forall>p\<in>set (bm_keys (pi_witness i)). \<forall>r. pi_round i = Suc (Suc r) \<longrightarrow>
          (if n \<le> r then covered rounds un r p
           else if n = Suc r then p \<in> set (bm_keys r0) else p \<in> set (bm_keys r1)))"

lemma pending_step:
  assumes "pending rounds un (Suc m) r0 r1 i" "set un \<subseteq> set un1"
    and "\<forall>p\<in>set (bm_keys r0). covered rounds un1 m p" "set (bm_keys r1) \<subseteq> set (bm_keys r1')"
  shows "pending rounds un1 m r1' r2' i"
proof -
  have mono: "covered rounds un r p \<Longrightarrow> covered rounds un1 r p" for r p
    using assms(2) by (auto simp: covered_def)
  from assms(1) have i: "Suc m \<le> pi_round i"
    and inc: "\<And>p r. p \<in> set (bm_keys (pi_includes i)) \<Longrightarrow> pi_round i = Suc r \<Longrightarrow>
        (if Suc m \<le> r then covered rounds un r p else p \<in> set (bm_keys r0))"
    and wit: "\<And>p r. p \<in> set (bm_keys (pi_witness i)) \<Longrightarrow> pi_round i = Suc (Suc r) \<Longrightarrow>
        (if Suc m \<le> r then covered rounds un r p
         else if Suc m = Suc r then p \<in> set (bm_keys r0) else p \<in> set (bm_keys r1))"
    unfolding pending_def by blast+
  have "if m \<le> r then covered rounds un1 r p else p \<in> set (bm_keys r1')"
    if "p \<in> set (bm_keys (pi_includes i))" "pi_round i = Suc r" for p r
    using inc [OF that] i that(2) mono assms(3) by (cases "r = m") (auto split: if_splits)
  moreover have "if m \<le> r then covered rounds un1 r p
      else if m = Suc r then p \<in> set (bm_keys r1') else p \<in> set (bm_keys r2')"
    if "p \<in> set (bm_keys (pi_witness i))" "pi_round i = Suc (Suc r)" for p r
    using wit [OF that] i that(2) mono assms(3,4) by (cases "r = m") (auto split: if_splits)
  ultimately show ?thesis using i unfolding pending_def by auto
qed

lemma pending_covered:
  assumes "pending rounds un n r0 r1 i" "n \<le> r"
  shows "pi_round i = Suc r \<Longrightarrow> p \<in> set (bm_keys (pi_includes i)) \<Longrightarrow> covered rounds un r p"
    and "pi_round i = Suc (Suc r) \<Longrightarrow> p \<in> set (bm_keys (pi_witness i)) \<Longrightarrow> covered rounds un r p"
  using assms by (auto simp: pending_def)

lemma covered_mono:
  assumes "\<And>x v. point_at A x = Some v \<Longrightarrow> point_at B x = Some v" "covered A un r p"
  shows "covered B un r p"
  using assms unfolding covered_def by blast

lemma gather_rounds_closed:
  assumes perm: "gathers shuffle" and wf: "back_wf rounds"
    and "\<forall>d\<in>set ds. bm_get rounds (dr_round d) = Some d" "bm_wf r0" "bm_wf r1"
    and "gather_rounds shuffle ds rng n r0 r1 un = Ok (n', un')"
    and "\<forall>i\<in>insert anchor (vp_info ` set un). pending rounds un n r0 r1 i"
  shows "\<exists>r0 r1. \<forall>i\<in>insert anchor (vp_info ` set un'). pending rounds un' n' r0 r1 i"
  using assms(3-)
proof (induction ds arbitrary: rng n r0 r1 un)
  case Nil
  then show ?case by auto
next
  case (Cons d older)
  then have d: "bm_get rounds (dr_round d) = Some d" by simp
  with back_wf_get [OF wf] have "round_wf d" by blast
  obtain vs ws r1' r2' where
    n: "n = Suc (dr_round d)" and ws: "ws = filter (\<lambda>v. \<not> vp_is_committed v) vs"
    and auth: "set (map (\<lambda>v. pi_author (vp_info v)) vs) = set (bm_keys r0)"
    and vs: "\<forall>v\<in>set vs. pi_round (vp_info v) = dr_round d
       \<and> ready_valid_point d (pi_author (vp_info v)) (pi_digest (vp_info v)) = Ok v"
    and wf': "bm_wf r1'" "bm_wf r2'"
    and keys: "set (bm_keys r1') = (\<Union>v\<in>set ws. set (bm_keys (pi_includes (vp_info v)))) \<union> set (bm_keys r1)"
      "set (bm_keys r2') = (\<Union>v\<in>set ws. set (bm_keys (pi_witness (vp_info v))))"
    and rest: "gather_rounds shuffle older (snd (shuffle rng r0)) (dr_round d) r1' r2' (rev ws @ un) = Ok (n', un')"
    by (rule gather_round_cases [OF perm \<open>round_wf d\<close> Cons.prems(2,3,4)])
  have cov: "\<forall>p\<in>set (bm_keys r0). covered rounds (rev ws @ un) (dr_round d) p"
  proof
    fix p
    assume "p \<in> set (bm_keys r0)"
    then obtain v where "v \<in> set vs" "pi_author (vp_info v) = p"
      unfolding auth [symmetric] by auto
    with vs part_point_at [OF d] have "point_at rounds
        \<lparr>pid_author = p, pid_round = dr_round d, pid_digest = pi_digest (vp_info v)\<rparr> = Some v" by blast
    with \<open>v \<in> set vs\<close> show "covered rounds (rev ws @ un) (dr_round d) p"
      unfolding covered_def ws by (intro exI [of _ "pi_digest (vp_info v)"] exI [of _ v]) auto
  qed
  have "pending rounds (rev ws @ un) (dr_round d) r1' r2' i" if "i \<in> insert anchor (vp_info ` set un)" for i
    by (rule pending_step [of rounds un "dr_round d" r0 r1])
      (use Cons.prems(5) that n cov keys(1) in auto)
  moreover have "pending rounds (rev ws @ un) (dr_round d) r1' r2' (vp_info v)" if "v \<in> set ws" for v
    using that vs keys by (auto simp: pending_def ws)
  ultimately show ?case
    by (intro Cons.IH [OF _ wf' rest]) (use Cons.prems(1) in auto)
qed

section \<open>Two nodes commit the same\<close>

text \<open>
  Two nodes agree when a point both know is the same point, committed by both or by none. They may
  know different sets of points.
\<close>

definition agree :: "dag_back \<Rightarrow> dag_back \<Rightarrow> bool" where
  "agree A B \<longleftrightarrow> (\<forall>pid v w. point_at A pid = Some v \<longrightarrow> point_at B pid = Some w
     \<longrightarrow> vp_info v = vp_info w \<and> vp_is_committed v = vp_is_committed w)"

lemma gather_fold_agree:
  assumes "\<And>e v w. ready_valid_point d (fst e) (snd e) = Ok v \<Longrightarrow> ready_valid_point d' (fst e) (snd e) = Ok w
      \<Longrightarrow> vp_info v = vp_info w \<and> vp_is_committed v = vp_is_committed w"
    and "foldR (gather_point d) es (r1, r2, un) = Ok (a1, a2, au)"
    and "foldR (gather_point d') es (r1, r2, un') = Ok (b1, b2, bu)" "map vp_info un = map vp_info un'"
  shows "a1 = b1 \<and> a2 = b2 \<and> map vp_info au = map vp_info bu"
  using assms(2-)
proof (induction es arbitrary: r1 r2 un un')
  case (Cons e es)
  from Cons.prems(1) obtain s where s: "gather_point d e (r1, r2, un) = Ok s"
      "foldR (gather_point d) es s = Ok (a1, a2, au)" by (auto simp: outcome_simps)
  from Cons.prems(2) obtain t where t: "gather_point d' e (r1, r2, un') = Ok t"
      "foldR (gather_point d') es t = Ok (b1, b2, bu)" by (auto simp: outcome_simps)
  from s(1) obtain v where v: "ready_valid_point d (fst e) (snd e) = Ok v" by (auto simp: gather_point_def outcome_simps)
  from t(1) obtain w where w: "ready_valid_point d' (fst e) (snd e) = Ok w" by (auto simp: gather_point_def outcome_simps)
  note same = assms(1) [OF v w]
  show ?case
  proof (cases "vp_is_committed v")
    case True
    with s(1) t(1) v w same have "s = (r1, r2, un)" "t = (r1, r2, un')" by (auto simp: gather_point_def)
    with s(2) t(2) Cons.IH Cons.prems(3) show ?thesis by blast
  next
    case False
    with s(1) t(1) v w same have "s = (gather_extend (pi_includes (vp_info v)) r1,
          gather_extend (pi_witness (vp_info v)) r2, v # un)"
        "t = (gather_extend (pi_includes (vp_info v)) r1, gather_extend (pi_witness (vp_info v)) r2, w # un')"
      by (auto simp: gather_point_def)
    moreover have "map vp_info (v # un) = map vp_info (w # un')" using same Cons.prems(3) by simp
    ultimately show ?thesis using s(2) t(2) Cons.IH by blast
  qed
qed simp

lemma gather_rounds_le:
  "gather_rounds shuffle ds rng n r0 r1 un = Ok (n', un') \<Longrightarrow> n' \<le> n \<and> (ds \<noteq> [] \<longrightarrow> n' < n)"
proof (induction ds arbitrary: rng n r0 r1 un)
  case (Cons d ds)
  from Cons.prems obtain r1' r2' un1 rng' where "n = Suc (dr_round d)"
      "gather_rounds shuffle ds rng' (dr_round d) r1' r2' un1 = Ok (n', un')"
    by (auto simp: outcome_simps split: if_splits prod.splits)
  with Cons.IH show ?case by fastforce
qed simp

lemma gather_rounds_agree:
  assumes ag: "agree A B"
    and "\<forall>d\<in>set ds. bm_get A (dr_round d) = Some d" "\<forall>d\<in>set es. bm_get B (dr_round d) = Some d"
    and "gather_rounds shuffle ds rng n r0 r1 un = Ok (m, au)"
    and "gather_rounds shuffle es rng n r0 r1 un' = Ok (m, bu)" "map vp_info un = map vp_info un'"
  shows "map vp_info au = map vp_info bu"
  using assms(2-)
proof (induction ds arbitrary: es rng n r0 r1 un un')
  case Nil
  then have "es = []" using gather_rounds_le [of shuffle es rng n r0 r1 un' m bu] by (cases es) auto
  with Nil show ?case by simp
next
  case (Cons d ds)
  have "m < n" using gather_rounds_le [OF Cons.prems(3)] by simp
  with Cons.prems(4) obtain e es' where es: "es = e # es'" by (cases es) auto
  obtain sorted rng' where sh: "shuffle rng r0 = (sorted, rng')" by fastforce
  from Cons.prems(3) sh obtain a1 a2 u where a: "n = Suc (dr_round d)"
      "foldR (gather_point d) sorted (r1, [], un) = Ok (a1, a2, u)"
      "gather_rounds shuffle ds rng' (dr_round d) a1 a2 u = Ok (m, au)"
    by (auto simp: outcome_simps split: if_splits)
  from Cons.prems(4) sh es obtain b1 b2 u' where b: "n = Suc (dr_round e)"
      "foldR (gather_point e) sorted (r1, [], un') = Ok (b1, b2, u')"
      "gather_rounds shuffle es' rng' (dr_round e) b1 b2 u' = Ok (m, bu)"
    by (auto simp: outcome_simps split: if_splits)
  have "vp_info v = vp_info w \<and> vp_is_committed v = vp_is_committed w"
    if "ready_valid_point d (fst x) (snd x) = Ok v" "ready_valid_point e (fst x) (snd x) = Ok w" for x v w
  proof -
    have "dr_round e = dr_round d" using a(1) b(1) by simp
    then have "point_at B \<lparr>pid_author = fst x, pid_round = dr_round d, pid_digest = snd x\<rparr> = Some w"
      using part_point_at [OF _ that(2), of B] Cons.prems(2) es by simp
    moreover have "point_at A \<lparr>pid_author = fst x, pid_round = dr_round d, pid_digest = snd x\<rparr> = Some v"
      using part_point_at [OF _ that(1), of A] Cons.prems(1) by simp
    ultimately show ?thesis using ag unfolding agree_def by blast
  qed
  from gather_fold_agree [OF this a(2) b(2) Cons.prems(5)] a b
  have "gather_rounds shuffle es' rng' (dr_round d) a1 a2 u' = Ok (m, bu)" "map vp_info u = map vp_info u'"
    by auto
  with Cons.IH [OF _ _ a(3)] Cons.prems(1,2) es show ?case by auto
qed

section \<open>One committed anchor\<close>

lemma gather_cases:
  assumes "back_wf rounds" "gather_uncommitted shuffle seed full anchor conf rounds = Ok un"
  obtains limit ds nr where "history_limit anchor conf = (Ok limit :: (sync_error, round) outcome)"
    "\<forall>d\<in>set ds. bm_get rounds (dr_round d) = Some d"
    "gather_rounds shuffle ds (seed (pi_digest anchor)) (pi_round anchor) (pi_includes anchor)
       (pi_witness anchor) [] = Ok (nr, un)"
    "full \<le> limit \<longrightarrow> nr = limit"
proof -
  from assms(2) obtain limit before es nr where *: "history_limit anchor conf = (Ok limit :: (sync_error, round) outcome)"
      "bm_range limit before rounds = (Ok es :: (sync_error, dag_back) outcome)"
      "gather_rounds shuffle (rev (map snd es)) (seed (pi_digest anchor)) (pi_round anchor) (pi_includes anchor)
       (pi_witness anchor) [] = Ok (nr, un)" "full \<le> limit \<longrightarrow> nr = limit"
    by (auto simp: gather_uncommitted_def db_range_def outcome_simps split: if_splits)
  have "bm_get rounds (dr_round d) = Some d" if "d \<in> set (rev (map snd es))" for d
  proof -
    from *(2) that obtain r where "(r, d) \<in> set rounds"
      by (auto simp: bm_range_def split: if_splits)
    with assms(1) have "dr_round d = r" "bm_get rounds r = Some d"
      unfolding back_wf_def by (auto dest: bm_get_in [THEN iffD1])
    then show ?thesis by simp
  qed
  with * show thesis by (intro that [of limit "rev (map snd es)" nr]) blast+
qed

text \<open>The DAG from which the history of an anchor is gathered.\<close>

definition history_dag :: "enqueued_anchor \<Rightarrow> mempool_config \<Rightarrow> committer \<Rightarrow> dag_back" where
  "history_dag next conf c =
     db_drop_upto (round_sub (pi_round (ea_anchor next)) (cc_commit_history_rounds (mc_consensus conf))) (cm_dag c)"

definition marked_points :: "valid_point list \<Rightarrow> dag_back \<Rightarrow> point_id \<Rightarrow> valid_point option" where
  "marked_points un dag x =
     (if x \<in> (\<lambda>v. pi_id (vp_info v)) ` set un
      then map_option (vp_is_committed_update (\<lambda>_. True)) (point_at dag x) else point_at dag x)"

lemma mark_all_committed:
  assumes "back_wf dag"
  shows "back_wf (fold (\<lambda>v. db_mark_committed (pi_id (vp_info v))) un dag)"
    and "bm_keys (fold (\<lambda>v. db_mark_committed (pi_id (vp_info v))) un dag) = bm_keys dag"
    and "point_at (fold (\<lambda>v. db_mark_committed (pi_id (vp_info v))) un dag) = marked_points un dag"
  using assms
proof (induction un arbitrary: dag)
  case (Cons v un)
  {
    case 1
    note step = mark_committed_facts [OF 1, of "pi_id (vp_info v)"]
    show ?case using Cons.IH(1) [OF step(1)] by simp
  next
    case 2
    note step = mark_committed_facts [OF 2, of "pi_id (vp_info v)"]
    show ?case using Cons.IH(2) [OF step(1)] step(2) by simp
  next
    case 3
    note step = mark_committed_facts [OF 3, of "pi_id (vp_info v)"]
    show ?case using Cons.IH(3) [OF step(1)]
      by (auto simp: fun_eq_iff marked_points_def point_at_mark_committed option.map_comp comp_def)
  }
qed (simp_all add: fun_eq_iff marked_points_def)

lemma dequeue_cases:
  assumes wf: "back_wf (cm_dag c)" and deq: "cm_dequeue_anchor shuffle seed next conf c = Ok (Inr a, c')"
  obtains un where "gather_uncommitted shuffle seed (cm_full_history_bottom c) (ea_anchor next) conf
      (history_dag next conf c) = Ok un"
    "back_wf (history_dag next conf c)" "back_wf (cm_dag c')"
    "ad_history a = map vp_info un" "ad_anchor a = ea_anchor next"
    "set (bm_keys (cm_dag c')) = set (bm_keys (history_dag next conf c))"
    "point_at (cm_dag c') = marked_points un (history_dag next conf c)"
    "cm_full_history_bottom c' = cm_full_history_bottom c"
proof -
  let ?D = "history_dag next conf c"
  from deq obtain un where un: "gather_uncommitted shuffle seed (cm_full_history_bottom c) (ea_anchor next) conf ?D = Ok un"
    by (auto simp: cm_dequeue_anchor_def history_dag_def [symmetric] Let_def split: outcome.splits)
  with deq obtain dag1 dag2 where dags: "db_mark_used Proof (pi_round (ea_proof next)) ?D = Ok dag1"
      "(case ea_direct_trigger next of None \<Rightarrow> Ok dag1
        | Some tr \<Rightarrow> db_mark_used Trigger (pi_round tr) dag1) = Ok dag2"
      "cm_dag c' = fold (\<lambda>v. db_mark_committed (pi_id (vp_info v))) un dag2"
      "ad_history a = map vp_info un" "ad_anchor a = ea_anchor next"
      "cm_full_history_bottom c' = cm_full_history_bottom c"
    by (auto simp: cm_dequeue_anchor_def history_dag_def [symmetric] Let_def bindR_Ok_iff)
  then have *: "gather_uncommitted shuffle seed (cm_full_history_bottom c) (ea_anchor next) conf ?D = Ok un"
      "db_mark_used Proof (pi_round (ea_proof next)) ?D = Ok dag1"
      "dag2 = dag1 \<or> (\<exists>r. db_mark_used Trigger r dag1 = Ok dag2)"
      "cm_dag c' = fold (\<lambda>v. db_mark_committed (pi_id (vp_info v))) un dag2"
      "ad_history a = map vp_info un" "ad_anchor a = ea_anchor next"
      "cm_full_history_bottom c' = cm_full_history_bottom c"
    using un by (auto split: option.splits)
  have "?D \<noteq> []" using *(2) by (auto simp: db_mark_used_def bm_get_def)
  then have D: "back_wf ?D" using back_wf_drop [OF wf] by (simp add: history_dag_def)
  note used = mark_used_facts [OF D *(2)]
  have dag2: "back_wf dag2" "point_at dag2 = point_at ?D" "set (bm_keys dag2) = set (bm_keys ?D)"
    using *(3) used mark_used_facts [OF used(1)] by auto
  show thesis
    by (rule that [of un]) (use * D dag2 in \<open>simp_all add: mark_all_committed [OF dag2(1)] marked_points_def fun_eq_iff\<close>)
qed

lemma agree_drop:
  assumes "agree A B" "bm_wf A" "bm_wf B"
  shows "agree (db_drop_upto n A) (db_drop_upto m B)"
  unfolding agree_def
proof (intro allI impI)
  fix pid v w
  assume "point_at (db_drop_upto n A) pid = Some v" "point_at (db_drop_upto m B) pid = Some w"
  then have "point_at A pid = Some v" "point_at B pid = Some w"
    by (simp_all add: drop_upto_facts assms(2,3) split: if_splits)
  with assms(1) show "vp_info v = vp_info w \<and> vp_is_committed v = vp_is_committed w"
    unfolding agree_def by blast
qed

lemma agree_marked:
  assumes "agree A B" "map vp_info un = map vp_info um"
    and "point_at A' = marked_points un A" "point_at B' = marked_points um B"
  shows "agree A' B'"
  unfolding agree_def
proof (intro allI impI)
  fix pid v w
  assume vw: "point_at A' pid = Some v" "point_at B' pid = Some w"
  have "(\<lambda>v. pi_id (vp_info v)) ` set un = (\<lambda>v. pi_id (vp_info v)) ` set um"
    using arg_cong [OF assms(2), of "\<lambda>is. pi_id ` set is"] by (simp add: image_image)
  with vw obtain v' w' where "point_at A pid = Some v'" "point_at B pid = Some w'"
      "vp_info v = vp_info v'" "vp_info w = vp_info w'"
      "pid \<in> (\<lambda>v. pi_id (vp_info v)) ` set un \<and> vp_is_committed v \<and> vp_is_committed w \<or> v = v' \<and> w = w'"
    unfolding assms(3,4) marked_points_def by (cases "pid \<in> (\<lambda>v. pi_id (vp_info v)) ` set un") auto
  with assms(1) show "vp_info v = vp_info w \<and> vp_is_committed v = vp_is_committed w"
    unfolding agree_def by metis
qed

text \<open>
  C1. Agreement: two nodes whose DAGs agree on the points both know, and that both have the full
  history of an anchor, commit the same list of points for it in the same order, whatever else each
  of them knows, and their DAGs agree afterwards.
\<close>

theorem commit_agreement:
  assumes "back_wf (cm_dag c)" "back_wf (cm_dag d)" "agree (cm_dag c) (cm_dag d)"
    and "cm_dequeue_anchor shuffle seed next conf c = Ok (Inr a, c')"
    and "cm_dequeue_anchor shuffle seed next' conf d = Ok (Inr b, d')"
    and "ea_anchor next = ea_anchor next'"
    and limit: "history_limit (ea_anchor next) conf = (Ok limit :: (sync_error, round) outcome)"
      "cm_full_history_bottom c \<le> limit" "cm_full_history_bottom d \<le> limit"
  shows "ad_history a = ad_history b \<and> agree (cm_dag c') (cm_dag d')"
proof -
  let ?C = "history_dag next conf c" and ?D = "history_dag next' conf d"
  obtain un where un: "gather_uncommitted shuffle seed (cm_full_history_bottom c) (ea_anchor next) conf ?C = Ok un"
      "back_wf ?C" "ad_history a = map vp_info un"
      "point_at (cm_dag c') = marked_points un ?C"
    by (rule dequeue_cases [OF assms(1,4)])
  obtain um where um: "gather_uncommitted shuffle seed (cm_full_history_bottom d) (ea_anchor next') conf ?D = Ok um"
      "back_wf ?D" "ad_history b = map vp_info um"
      "point_at (cm_dag d') = marked_points um ?D"
    by (rule dequeue_cases [OF assms(2,5)])
  have ag: "agree ?C ?D"
    unfolding history_dag_def by (rule agree_drop) (use assms(1-3) in \<open>simp_all add: back_wf_def\<close>)
  obtain l1 ds n1 where 1: "history_limit (ea_anchor next) conf = (Ok l1 :: (sync_error, round) outcome)"
      "\<forall>d\<in>set ds. bm_get ?C (dr_round d) = Some d"
      "gather_rounds shuffle ds (seed (pi_digest (ea_anchor next))) (pi_round (ea_anchor next))
        (pi_includes (ea_anchor next)) (pi_witness (ea_anchor next)) [] = Ok (n1, un)"
      "cm_full_history_bottom c \<le> l1 \<longrightarrow> n1 = l1"
    by (rule gather_cases [OF un(2,1)])
  obtain l2 es n2 where 2: "history_limit (ea_anchor next') conf = (Ok l2 :: (sync_error, round) outcome)"
      "\<forall>d\<in>set es. bm_get ?D (dr_round d) = Some d"
      "gather_rounds shuffle es (seed (pi_digest (ea_anchor next'))) (pi_round (ea_anchor next'))
        (pi_includes (ea_anchor next')) (pi_witness (ea_anchor next')) [] = Ok (n2, um)"
      "cm_full_history_bottom d \<le> l2 \<longrightarrow> n2 = l2"
    by (rule gather_cases [OF um(2,1)])
  have "n1 = n2" using 1(1,4) 2(1,4) limit assms(6) by simp
  with gather_rounds_agree [OF ag 1(2) 2(2) 1(3)] 2(3) assms(6) have same: "map vp_info un = map vp_info um"
    by simp
  with un(3) um(3) agree_marked [OF ag same un(4) um(4)] show ?thesis by simp
qed

text \<open>
  C3. The history of a committed anchor is in historical order, without repetitions, contains only
  points that were not committed before, and is closed: for every dependency of the anchor or of a
  point in the history, a point of the same author at that round is in the history or was committed
  earlier, down to the lowest round that was visited, which is the history limit when the node has
  the full history.
\<close>

theorem history_is_closed:
  assumes "gathers shuffle" "back_wf (cm_dag c)"
    and "cm_dequeue_anchor shuffle seed next conf c = Ok (Inr a, c')"
    and "bm_wf (pi_includes (ea_anchor next))" "bm_wf (pi_witness (ea_anchor next))"
  shows "\<exists>un n limit. ad_history a = map vp_info un \<and> distinct (map pi_id (ad_history a))
    \<and> sorted (map pi_round (ad_history a))
    \<and> (\<forall>v\<in>set un. point_at (cm_dag c) (pi_id (vp_info v)) = Some v \<and> \<not> vp_is_committed v)
    \<and> history_limit (ea_anchor next) conf = (Ok limit :: (sync_error, round) outcome)
    \<and> (cm_full_history_bottom c \<le> limit \<longrightarrow> n = limit)
    \<and> (\<forall>i\<in>insert (ea_anchor next) (set (ad_history a)). \<forall>r\<ge>n.
         (pi_round i = Suc r \<longrightarrow> (\<forall>p\<in>set (bm_keys (pi_includes i)). covered (cm_dag c) un r p))
       \<and> (pi_round i = Suc (Suc r) \<longrightarrow> (\<forall>p\<in>set (bm_keys (pi_witness i)). covered (cm_dag c) un r p)))"
proof -
  let ?C = "history_dag next conf c" and ?a = "ea_anchor next"
  obtain un where un: "gather_uncommitted shuffle seed (cm_full_history_bottom c) ?a conf ?C = Ok un"
      "back_wf ?C" "ad_history a = map vp_info un"
    by (rule dequeue_cases [OF assms(2,3)])
  obtain limit ds n where g: "history_limit ?a conf = (Ok limit :: (sync_error, round) outcome)"
      "\<forall>d\<in>set ds. bm_get ?C (dr_round d) = Some d"
      "gather_rounds shuffle ds (seed (pi_digest ?a)) (pi_round ?a) (pi_includes ?a) (pi_witness ?a) [] = Ok (n, un)"
      "cm_full_history_bottom c \<le> limit \<longrightarrow> n = limit"
    by (rule gather_cases [OF un(2,1)])
  have sub: "point_at (cm_dag c) x = Some v" if "point_at ?C x = Some v" for x v
    using that assms(2) by (auto simp: history_dag_def back_wf_def drop_upto_facts split: if_splits)
  from gather_rounds_takes [OF assms(1) un(2) g(2) assms(4,5) g(3)]
  have takes: "distinct (map (\<lambda>v. pi_id (vp_info v)) un)" "sorted (map (\<lambda>v. pi_round (vp_info v)) un)"
    "\<forall>v\<in>set un. \<not> vp_is_committed v \<and> point_at ?C (pi_id (vp_info v)) = Some v" by auto
  have "pending ?C [] (pi_round ?a) (pi_includes ?a) (pi_witness ?a) ?a" by (simp add: pending_def)
  with gather_rounds_closed [OF assms(1) un(2) g(2) assms(4,5) g(3), of ?a] obtain r0 r1 where
    "\<forall>i\<in>insert ?a (vp_info ` set un). pending ?C un n r0 r1 i" by auto
  then have "\<forall>i\<in>insert ?a (vp_info ` set un). \<forall>r\<ge>n.
         (pi_round i = Suc r \<longrightarrow> (\<forall>p\<in>set (bm_keys (pi_includes i)). covered (cm_dag c) un r p))
       \<and> (pi_round i = Suc (Suc r) \<longrightarrow> (\<forall>p\<in>set (bm_keys (pi_witness i)). covered (cm_dag c) un r p))"
    using pending_covered covered_mono [of ?C "cm_dag c", OF sub] by blast
  with g(1,4) takes sub un(3) show ?thesis
    by (intro exI [of _ un] exI [of _ n] exI [of _ limit]) (auto simp: comp_def)
qed

section \<open>Every point is committed at most once\<close>

text \<open>
  \<open>h\<close> are the ids of the points committed so far: each is marked in the DAG, or its round was dropped
  for good because all kept rounds are above it.
\<close>

definition once_inv :: "committer \<Rightarrow> point_id list \<Rightarrow> bool" where
  "once_inv c h \<longleftrightarrow> back_wf (cm_dag c) \<and> distinct h
     \<and> (\<forall>x\<in>set h. (\<exists>v. point_at (cm_dag c) x = Some v \<and> vp_is_committed v)
          \<or> (\<forall>r\<in>set (bm_keys (cm_dag c)). pid_round x < r))"

lemma point_at_key: "point_at rounds x = Some v \<Longrightarrow> pid_round x \<in> set (bm_keys rounds)"
  by (auto simp: point_at_def dest: bm_get_keys split: option.splits)

lemma once_inv_committed:
  assumes "once_inv c h" "x \<in> set h" "point_at (cm_dag c) x = Some v"
  shows "vp_is_committed v"
  using assms point_at_key [OF assms(3)] unfolding once_inv_def by auto

lemma once_inv_dag:
  assumes "once_inv c h" "back_wf (cm_dag c')"
    and "\<And>x v. point_at (cm_dag c) x = Some v \<Longrightarrow> vp_is_committed v \<Longrightarrow>
      (\<exists>w. point_at (cm_dag c') x = Some w \<and> vp_is_committed w)
      \<or> (\<forall>r\<in>set (bm_keys (cm_dag c')). pid_round x < r)"
    and "\<And>r'. r' \<in> set (bm_keys (cm_dag c')) \<Longrightarrow> \<exists>r\<in>set (bm_keys (cm_dag c)). r \<le> r'"
  shows "once_inv c' h"
  unfolding once_inv_def
proof (intro conjI ballI)
  fix x
  assume x: "x \<in> set h"
  show "(\<exists>v. point_at (cm_dag c') x = Some v \<and> vp_is_committed v)
      \<or> (\<forall>r\<in>set (bm_keys (cm_dag c')). pid_round x < r)"
  proof (cases "\<exists>v. point_at (cm_dag c) x = Some v \<and> vp_is_committed v")
    case True
    then show ?thesis using assms(3) by blast
  next
    case False
    with assms(1) x have "\<forall>r\<in>set (bm_keys (cm_dag c)). pid_round x < r" by (auto simp: once_inv_def)
    with assms(4) show ?thesis by (meson less_le_trans)
  qed
qed (use assms(1,2) in \<open>simp_all add: once_inv_def\<close>)

lemma once_dropped:
  assumes "once_inv c h" "cm_dag c' = db_drop_upto nb (cm_dag c)" "cm_dag c' \<noteq> []"
  shows "once_inv c' h"
proof -
  have wf: "bm_wf (cm_dag c)" "back_wf (cm_dag c)" using assms(1) by (simp_all add: once_inv_def back_wf_def)
  note drop = drop_upto_facts [OF wf(1), of nb]
  show ?thesis
  proof (rule once_inv_dag [OF assms(1)])
    show "back_wf (cm_dag c')" using back_wf_drop [OF wf(2)] assms(2,3) by simp
    fix x v
    assume "point_at (cm_dag c) x = Some v" "vp_is_committed v"
    then show "(\<exists>w. point_at (cm_dag c') x = Some w \<and> vp_is_committed w)
        \<or> (\<forall>r\<in>set (bm_keys (cm_dag c')). pid_round x < r)"
      by (cases "pid_round x < nb") (auto simp: assms(2) drop)
  qed (auto simp: assms(2) drop(2))
qed

lemma once_dequeued:
  assumes perm: "gathers shuffle" and once: "once_inv c h"
    and deq: "cm_dequeue_anchor shuffle seed next conf c = Ok (Inr a, c')"
    and maps: "bm_wf (pi_includes (ea_anchor next))" "bm_wf (pi_witness (ea_anchor next))"
  shows "once_inv c' (h @ map pi_id (ad_history a))"
proof -
  let ?C = "history_dag next conf c" and ?a = "ea_anchor next"
  from once have wf: "back_wf (cm_dag c)" by (simp add: once_inv_def)
  obtain un where un: "gather_uncommitted shuffle seed (cm_full_history_bottom c) ?a conf ?C = Ok un"
      "back_wf ?C" "back_wf (cm_dag c')" "ad_history a = map vp_info un"
      "set (bm_keys (cm_dag c')) = set (bm_keys ?C)" "point_at (cm_dag c') = marked_points un ?C"
    by (rule dequeue_cases [OF wf deq])
  obtain ds n where g: "\<forall>d\<in>set ds. bm_get ?C (dr_round d) = Some d"
      "gather_rounds shuffle ds (seed (pi_digest ?a)) (pi_round ?a) (pi_includes ?a) (pi_witness ?a) [] = Ok (n, un)"
    by (rule gather_cases [OF un(2,1)])
  from gather_rounds_takes [OF perm un(2) g(1) maps g(2)]
  have takes: "distinct (map (\<lambda>v. pi_id (vp_info v)) un)"
    "\<forall>v\<in>set un. \<not> vp_is_committed v \<and> point_at ?C (pi_id (vp_info v)) = Some v" by auto
  have mid: "once_inv (c\<lparr>cm_dag := ?C\<rparr>) h"
    by (rule once_dropped [OF once]) (use un(2) in \<open>simp_all add: history_dag_def back_wf_def\<close>)
  have marked: "\<exists>w. point_at (cm_dag c') x = Some w \<and> (x \<in> (\<lambda>v. pi_id (vp_info v)) ` set un \<or> vp_is_committed v \<longrightarrow> vp_is_committed w)"
    if "point_at ?C x = Some v" for x v
    using that by (auto simp: un(6) marked_points_def)
  have "once_inv c' h"
    by (rule once_inv_dag [OF mid un(3)]) (use marked in \<open>auto simp: un(5)\<close>)
  moreover have "\<forall>x\<in>(\<lambda>v. pi_id (vp_info v)) ` set un. \<exists>v. point_at (cm_dag c') x = Some v \<and> vp_is_committed v"
    using takes(2) marked by fastforce
  moreover have "set h \<inter> (\<lambda>v. pi_id (vp_info v)) ` set un = {}"
    using once_inv_committed [OF mid] takes(2) by fastforce
  ultimately show ?thesis
    using takes(1) un(4) by (auto simp: once_inv_def comp_def)
qed

text \<open>Anchors in the queue come from the DAG, so their maps are sorted maps.\<close>

definition maps_ok :: "anchor_chain \<Rightarrow> bool" where
  "maps_ok q \<longleftrightarrow> (\<forall>e\<in>set q. bm_wf (pi_includes (ea_anchor e)) \<and> bm_wf (pi_witness (ea_anchor e)))"

lemma ready_maps:
  "round_wf d \<Longrightarrow> ready_valid_point d a g = Ok v \<Longrightarrow> bm_wf (pi_includes (vp_info v)) \<and> bm_wf (pi_witness (vp_info v))"
  unfolding round_wf_def by blast

lemma bindR_OkE: "bindR m f = Ok y \<Longrightarrow> (\<And>a. m = Ok a \<Longrightarrow> f a = Ok y \<Longrightarrow> P) \<Longrightarrow> P"
  by (cases m) auto

lemma if_OkE: "(if b then x else y) = Ok z \<Longrightarrow> (b \<Longrightarrow> x = Ok z \<Longrightarrow> P) \<Longrightarrow> (\<not> b \<Longrightarrow> y = Ok z \<Longrightarrow> P) \<Longrightarrow> P"
  by (cases b) auto

lemma option_OkE:
  "(case x of None \<Rightarrow> a | Some v \<Rightarrow> f v) = Ok z \<Longrightarrow> (x = None \<Longrightarrow> a = Ok z \<Longrightarrow> P)
   \<Longrightarrow> (\<And>v. x = Some v \<Longrightarrow> f v = Ok z \<Longrightarrow> P) \<Longrightarrow> P"
  by (cases x) auto

lemma list_OkE:
  "(case xs of [] \<Rightarrow> a | x # r \<Rightarrow> f x r) = Ok z \<Longrightarrow> (xs = [] \<Longrightarrow> a = Ok z \<Longrightarrow> P)
   \<Longrightarrow> (\<And>x r. xs = x # r \<Longrightarrow> f x r = Ok z \<Longrightarrow> P) \<Longrightarrow> P"
  by (cases xs) auto

lemma prod_OkE: "(case p of (a, b) \<Rightarrow> f a b) = Ok z \<Longrightarrow> (\<And>a b. p = (a, b) \<Longrightarrow> f a b = Ok z \<Longrightarrow> P) \<Longrightarrow> P"
  by (cases p) auto

lemmas outcome_elims = bindR_OkE if_OkE option_OkE list_OkE prod_OkE

lemma maps_ok_Cons:
  "round_wf d \<Longrightarrow> ready_valid_point d a g = Ok v \<Longrightarrow> maps_ok q
   \<Longrightarrow> maps_ok (\<lparr>ea_anchor = vp_info v, ea_proof = p, ea_direct_trigger = t\<rparr> # q)"
  using ready_maps by (fastforce simp: maps_ok_def)

lemma chain_back_maps:
  assumes "chain_back bottom lpr trigger lookup ds res = Ok (res', used)" "\<forall>d\<in>set ds. round_wf d" "maps_ok res"
  shows "maps_ok res'"
  using assms
proof (induction ds arbitrary: lookup res rule: length_induct)
  case (1 ds)
  show ?case
  proof (cases ds)
    case Nil
    with 1 show ?thesis by simp
  next
    case (Cons d older)
    have skip: "maps_ok res'" if "chain_back bottom lpr trigger l older res = Ok (res', used)" for l
      using 1(1,3,4) that Cons by auto
    have add: "maps_ok res'" if "chain_back bottom lpr trigger l older' (\<lparr>ea_anchor = vp_info v, ea_proof = p, ea_direct_trigger = t\<rparr> # res)
         = Ok (res', used)" "older = a # older'" "ready_valid_point a x g = Ok v" for a older' x g v l p t
    proof -
      have "maps_ok (\<lparr>ea_anchor = vp_info v, ea_proof = p, ea_direct_trigger = t\<rparr> # res)"
        by (rule maps_ok_Cons [OF _ that(3) 1(4)]) (use 1(3) Cons that(2) in simp)
      then show ?thesis
        by (intro 1(1) [rule_format, OF _ that(1)]) (use 1(3) that(2) Cons in auto)
    qed
    have fin: "maps_ok res'" if "Ok (res, b) = Ok (res', used)" for b
      using that 1(4) by simp
    show ?thesis
      using 1(2) unfolding Cons chain_back.simps(2)
      by (elim outcome_elims) (erule skip | erule add, assumption, assumption | erule fin | simp)+
  qed
qed

lemma range_rounds: "db_range lo hi rounds = Ok ds \<Longrightarrow> set ds \<subseteq> snd ` set rounds"
  by (auto simp: db_range_def bm_range_def split: if_splits)

lemma anchor_chain_maps:
  assumes "db_anchor_chain lpr trigger rounds = Ok part" "back_wf rounds"
  shows "maps_ok part"
proof -
  have wf: "\<forall>d\<in>set (rev ds). round_wf d" if "(db_range lo hi rounds :: (sync_error, dag_round list) outcome) = Ok ds" for lo hi ds
    using range_rounds [OF that] assms(2) unfolding back_wf_def by force
  have none: "maps_ok []" by (simp add: maps_ok_def)
  have chained: "maps_ok r" if "chain_back b l t p (rev ds) [] = Ok (r, u)"
      "(db_range lo hi rounds :: (sync_error, dag_round list) outcome) = Ok ds" for b l t p ds r u lo hi
    by (rule chain_back_maps [OF that(1) wf [OF that(2)] none])
  show ?thesis
    using assms(1) unfolding db_anchor_chain_def
    by (elim outcome_elims) (auto simp: none intro: chained)
qed

lemma enqueue_all_maps:
  "cm_enqueue_all part q = Ok q' \<Longrightarrow> maps_ok part \<Longrightarrow> maps_ok q \<Longrightarrow> maps_ok q'"
proof (induction part arbitrary: q)
  case Nil
  then show ?case by (simp add: cm_enqueue_all_def)
next
  case (Cons e part)
  from Cons.prems(1) have "cm_enqueue_all part (ac_enqueue e q) = Ok q'"
    by (auto simp: cm_enqueue_all_def bindR_Ok_iff split: if_splits)
  then show ?case
    by (rule Cons.IH) (use Cons.prems in \<open>auto simp: maps_ok_def ac_enqueue_def\<close>)
qed

lemma enqueue_triggers_maps:
  "cm_enqueue_triggers dag ts q = Ok (conflict, q') \<Longrightarrow> back_wf dag \<Longrightarrow> maps_ok q \<Longrightarrow> maps_ok q'"
proof (induction ts arbitrary: q)
  case (Cons trigger rest)
  have step: "maps_ok q1" if "db_anchor_chain l trigger dag = Ok part" "cm_enqueue_all part q = Ok q1" for l part q1
    by (rule enqueue_all_maps [OF that(2) anchor_chain_maps [OF that(1)]]) (use Cons.prems in simp_all)
  from Cons.prems show ?case
    by (auto split: outcome.split_asm sync_error.split_asm option.split_asm elim: Cons.IH intro: step)
qed simp

lemma enqueue_new_maps:
  assumes "cm_enqueue_new_anchors current c = Ok (conflict, c')" "back_wf (cm_dag c)" "maps_ok (cm_anchor_chain c)"
  shows "cm_dag c' = cm_dag c" "maps_ok (cm_anchor_chain c')"
proof -
  from assms(1) obtain ts q where "c' = c \<or> cm_enqueue_triggers (cm_dag c) ts (cm_anchor_chain c) = Ok (conflict, q)
      \<and> c' = c\<lparr>cm_anchor_chain := q\<rparr>"
    unfolding cm_enqueue_new_anchors_def by (elim bindR_OkE) (auto simp: bindR_Ok_iff split: sum.split_asm)
  then show "cm_dag c' = cm_dag c" "maps_ok (cm_anchor_chain c')"
    using enqueue_triggers_maps [OF _ assms(2,3)] assms(3) by auto
qed

lemma once_inv_conflict:
  assumes "once_inv c h" "cm_dequeue_anchor shuffle seed next conf c = Ok (Inl e, c')"
  shows "once_inv c' h" "cm_anchor_chain c' = next # cm_anchor_chain c"
proof -
  have *: "gather_uncommitted shuffle seed (cm_full_history_bottom c) (ea_anchor next) conf (history_dag next conf c) = Err e"
    "c' = c\<lparr>cm_dag := history_dag next conf c, cm_anchor_chain := next # cm_anchor_chain c\<rparr>"
    using assms(2) unfolding cm_dequeue_anchor_def history_dag_def [symmetric] Let_def
    by (auto simp: bindR_Ok_iff split: outcome.splits)
  have "history_dag next conf c \<noteq> []"
  proof
    assume "history_dag next conf c = []"
    with *(1) show False
      by (auto simp: gather_uncommitted_def history_limit_def round_next_def round_prev_def db_range_def bm_range_def
          split: option.splits if_splits)
  qed
  then show "once_inv c' h" by (intro once_dropped [OF assms(1)]) (auto simp: *(2) history_dag_def)
  show "cm_anchor_chain c' = next # cm_anchor_chain c" by (simp add: *(2))
qed

definition committed_ids :: "anchor_data list \<Rightarrow> point_id list" where
  "committed_ids datas = concat (map (\<lambda>a. map pi_id (ad_history a)) datas)"

lemma once_inv_prefix: "once_inv c (h @ hs) \<Longrightarrow> once_inv c h"
  by (auto simp: once_inv_def)

lemma once_inv_dag_only: "once_inv c h \<Longrightarrow> cm_dag c' = cm_dag c \<Longrightarrow> once_inv c' h"
  by (simp add: once_inv_def)

lemma commit_loop_cases:
  assumes "cm_commit_loop shuffle seed conf c = Ok (out, c')" "cm_anchor_chain c = next # rest"
  obtains
    (stop) e where "cm_dequeue_anchor shuffle seed next conf (c\<lparr>cm_anchor_chain := rest\<rparr>) = Ok (Inl e, c')"
      "out = Inr [] \<or> (\<exists>round. out = Inl round)"
  | (more) a c1 out1 where "cm_dequeue_anchor shuffle seed next conf (c\<lparr>cm_anchor_chain := rest\<rparr>) = Ok (Inr a, c1)"
      "cm_commit_loop shuffle seed conf c1 = Ok (out1, c')"
      "out = (case out1 of Inl round \<Rightarrow> Inl round | Inr committed \<Rightarrow> Inr (a # committed))"
proof -
  from assms(1) have "bindR (cm_dequeue_anchor shuffle seed next conf (c\<lparr>cm_anchor_chain := rest\<rparr>)) (\<lambda>(res, c).
            case res of
              Inl TryLater \<Rightarrow> Ok (Inr [], c)
            | Inl (HistoryConflict round) \<Rightarrow> Ok (Inl round, c)
            | Inr data \<Rightarrow>
                bindR (cm_commit_loop shuffle seed conf c) (\<lambda>(out, c).
                  Ok (case out of Inl round \<Rightarrow> Inl round | Inr committed \<Rightarrow> Inr (data # committed), c))) = Ok (out, c')"
    by (subst (asm) cm_commit_loop.simps) (simp only: assms(2) list.case)
  then obtain res c1 where d: "cm_dequeue_anchor shuffle seed next conf (c\<lparr>cm_anchor_chain := rest\<rparr>) = Ok (res, c1)"
      "(case res of
              Inl TryLater \<Rightarrow> Ok (Inr [], c1)
            | Inl (HistoryConflict round) \<Rightarrow> Ok (Inl round, c1)
            | Inr data \<Rightarrow>
                bindR (cm_commit_loop shuffle seed conf c1) (\<lambda>(out, c).
                  Ok (case out of Inl round \<Rightarrow> Inl round | Inr committed \<Rightarrow> Inr (data # committed), c))) = Ok (out, c')"
    by (elim bindR_OkE prod_OkE) simp
  show thesis
  proof (cases res)
    case (Inl e)
    with d(2) have "c1 = c' \<and> (out = Inr [] \<or> (\<exists>round. out = Inl round))" by (cases e) auto
    with d(1) Inl show thesis by (intro stop [of e]) simp_all
  next
    case (Inr a)
    with d(2) have "bindR (cm_commit_loop shuffle seed conf c1) (\<lambda>(out, c).
        Ok (case out of Inl round \<Rightarrow> Inl round | Inr committed \<Rightarrow> Inr (a # committed), c)) = Ok (out, c')" by simp
    then obtain x where x: "cm_commit_loop shuffle seed conf c1 = Ok x" "(case x of (out, c) \<Rightarrow>
        Ok (case out of Inl round \<Rightarrow> Inl round | Inr committed \<Rightarrow> Inr (a # committed), c)) = (Ok (out, c') :: (unit, (round + anchor_data list) \<times> committer) outcome)"
      by (rule bindR_OkE) (rule that)
    obtain out1 c2 where x_eq: "x = (out1, c2)" by (cases x)
    with x(2) have "c2 = c'" "out = (case out1 of Inl round \<Rightarrow> Inl round | Inr committed \<Rightarrow> Inr (a # committed))"
      by simp_all
    with x(1) x_eq d(1) Inr show thesis by (intro more [of a c1 out1]) simp_all
  qed
qed

lemma commit_loop_once:
  assumes "gathers shuffle" "cm_commit_loop shuffle seed conf c = Ok (out, c')" "once_inv c h" "maps_ok (cm_anchor_chain c)"
  shows "maps_ok (cm_anchor_chain c') \<and> once_inv c' h \<and> (\<forall>datas. out = Inr datas \<longrightarrow> once_inv c' (h @ committed_ids datas))"
  using assms(2-)
proof (induction "cm_anchor_chain c" arbitrary: c h out)
  case Nil
  have "cm_commit_loop shuffle seed conf c = Ok (Inr [], c)"
    by (subst cm_commit_loop.simps) (simp flip: Nil.hyps)
  with Nil.prems show ?case by (auto simp: committed_ids_def)
next
  case (Cons "next" rest)
  note q = Cons.hyps(2) [symmetric]
  let ?c = "c\<lparr>cm_anchor_chain := rest\<rparr>"
  have inv: "once_inv ?c h" by (rule once_inv_dag_only [OF Cons.prems(2)]) simp
  have maps: "maps_ok rest" "bm_wf (pi_includes (ea_anchor next))" "bm_wf (pi_witness (ea_anchor next))"
    using Cons.prems(3) unfolding q by (simp_all add: maps_ok_def)
  show ?case
  proof (rule commit_loop_cases [OF Cons.prems(1) q])
    fix e
    assume "cm_dequeue_anchor shuffle seed next conf ?c = Ok (Inl e, c')" and o: "out = Inr [] \<or> (\<exists>round. out = Inl round)"
    from once_inv_conflict [OF inv this(1)] Cons.prems(3) q o show ?thesis by (auto simp: committed_ids_def)
  next
    fix a c1 out1
    assume d: "cm_dequeue_anchor shuffle seed next conf ?c = Ok (Inr a, c1)"
      and o: "cm_commit_loop shuffle seed conf c1 = Ok (out1, c')"
        "out = (case out1 of Inl round \<Rightarrow> Inl round | Inr committed \<Rightarrow> Inr (a # committed))"
    have c1: "once_inv c1 (h @ map pi_id (ad_history a))" "rest = cm_anchor_chain c1"
      using once_dequeued [OF assms(1) inv d maps(2,3)] cm_dequeue_chain [OF d] by simp_all
    have IH: "maps_ok (cm_anchor_chain c')" "once_inv c' (h @ map pi_id (ad_history a))"
        "\<forall>datas. out1 = Inr datas \<longrightarrow> once_inv c' ((h @ map pi_id (ad_history a)) @ committed_ids datas)"
      using Cons.hyps(1) [OF c1(2) o(1) c1(1)] maps(1) c1(2) by blast+
    show ?thesis
      using IH(1,3) once_inv_prefix [OF IH(2)] o(2) by (cases out1) (simp_all add: committed_ids_def)
  qed
qed

lemma commit_once:
  assumes "gathers shuffle" "cm_commit shuffle seed conf c = Ok (out, c')" "once_inv c h" "maps_ok (cm_anchor_chain c)"
  shows "maps_ok (cm_anchor_chain c') \<and> once_inv c' h \<and> (\<forall>datas. out = Inr datas \<longrightarrow> once_inv c' (h @ committed_ids datas))"
proof -
  from assms(2) obtain current conflict c1 where e: "cm_enqueue_new_anchors current c = Ok (conflict, c1)"
      "(case conflict of Some round \<Rightarrow> Ok (Inl round, c1) | None \<Rightarrow> cm_commit_loop shuffle seed conf c1) = Ok (out, c')"
    unfolding cm_commit_def cm_commit_up_to_def by (elim outcome_elims) auto
  have "back_wf (cm_dag c)" using assms(3) by (simp add: once_inv_def)
  note enq = enqueue_new_maps [OF e(1) this assms(4)]
  have "once_inv c1 h" by (rule once_inv_dag_only [OF assms(3) enq(1)])
  with e(2) enq(2) commit_loop_once [OF assms(1)] show ?thesis by (auto split: option.split_asm)
qed

lemma extend_rounds_fold:
  assumes "bm_wf m"
  shows "bm_wf (extend_rounds t front m) \<and> (\<forall>r\<le>t. bm_get (extend_rounds t front m) r = bm_get m r)
    \<and> set (bm_keys (extend_rounds t front m)) \<subseteq> set (bm_keys m) \<union> {r. t < r}
    \<and> (\<forall>r d. bm_get (extend_rounds t front m) r = Some d \<longrightarrow> bm_get m r = Some d \<or> d \<in> set front \<and> dr_round d = r)"
  unfolding extend_rounds_def using assms
proof (induction front arbitrary: m)
  case (Cons d front)
  define n where "n = (if dr_round d \<le> t then m else bm_insert (dr_round d) d m)"
  have n: "bm_wf n" "\<forall>r\<le>t. bm_get n r = bm_get m r" "set (bm_keys n) \<subseteq> set (bm_keys m) \<union> {r. t < r}"
      "\<forall>r e. bm_get n r = Some e \<longrightarrow> bm_get m r = Some e \<or> e = d \<and> dr_round d = r"
    using Cons.prems unfolding n_def by (auto simp: bm_wf_insert bm_get_insert set_bm_keys_insert split: if_splits)
  define m' where "m' = fold (\<lambda>d m. if dr_round d \<le> t then m else bm_insert (dr_round d) d m) front n"
  have m': "fold (\<lambda>d m. if dr_round d \<le> t then m else bm_insert (dr_round d) d m) (d # front) m = m'"
    by (simp add: m'_def n_def)
  have IH: "bm_wf m'" "\<forall>r\<le>t. bm_get m' r = bm_get n r" "set (bm_keys m') \<subseteq> set (bm_keys n) \<union> {r. t < r}"
      "\<forall>r e. bm_get m' r = Some e \<longrightarrow> bm_get n r = Some e \<or> e \<in> set front \<and> dr_round e = r"
    using Cons.IH [OF n(1)] unfolding m'_def by blast+
  have "\<forall>r e. bm_get m' r = Some e \<longrightarrow> bm_get m r = Some e \<or> e \<in> set (d # front) \<and> dr_round e = r"
    using IH(4) n(4) by (metis list.set_intros)
  moreover have "set (bm_keys m') \<subseteq> set (bm_keys m) \<union> {r. t < r}" using IH(3) n(3) by blast
  ultimately show ?case unfolding m' using IH(1,2) n(2) by simp
qed simp

lemma extend_rounds_facts:
  assumes "bm_wf m"
  shows "bm_wf (extend_rounds t front m)" "\<forall>r\<le>t. bm_get (extend_rounds t front m) r = bm_get m r"
    "set (bm_keys (extend_rounds t front m)) \<subseteq> set (bm_keys m) \<union> {r. t < r}"
    "\<forall>r d. bm_get (extend_rounds t front m) r = Some d \<longrightarrow> bm_get m r = Some d \<or> d \<in> set front \<and> dr_round d = r"
  using extend_rounds_fold [OF assms, of t front] by blast+

lemma sorted_last_max: "sorted_wrt (<) (ks :: nat list) \<Longrightarrow> r \<in> set ks \<Longrightarrow> r \<le> last ks"
  by (induction ks) (auto simp: less_imp_le)

lemma extend_cases:
  assumes "db_extend_from_front front rounds = Ok rounds'" "back_wf rounds" "\<forall>d\<in>set front. round_wf d"
  obtains t where "rounds' = rounds \<or> rounds' = extend_rounds t front rounds"
    "t \<in> set (bm_keys rounds)" "\<forall>r\<in>set (bm_keys rounds). r \<le> t" "back_wf rounds'"
proof -
  have ne: "rounds \<noteq> []" "bm_wf rounds" "dr_round (snd (last rounds)) = fst (last rounds)"
    using assms(2) last_in_set [of rounds] unfolding back_wf_def by (auto simp: case_prod_beta)
  define t where "t = fst (last rounds)"
  have last: "t \<in> set (bm_keys rounds)" "\<forall>r\<in>set (bm_keys rounds). r \<le> t"
    using ne sorted_last_max [of "map fst rounds"] unfolding t_def bm_keys_def bm_wf_def by (auto simp: last_map)
  have r: "rounds' = rounds \<or> rounds' = extend_rounds t front rounds"
    using assms(1) ne by (auto simp: db_extend_from_front_def db_top_def bindR_Ok_iff Let_def t_def split: list.split_asm if_splits)
  note ext = extend_rounds_facts [OF ne(2), of t front]
  from last(1) ext(2) have "bm_get (extend_rounds t front rounds) t \<noteq> None"
    by (auto simp: bm_keys_def bm_get_def map_of_eq_None_iff)
  then have "extend_rounds t front rounds \<noteq> []" by (auto simp: bm_get_def)
  moreover have "\<forall>(r, d)\<in>set (extend_rounds t front rounds). dr_round d = r \<and> round_wf d"
    using ext(4) assms(2,3) unfolding back_wf_def
    by (fastforce simp: bm_get_in [OF ext(1)] bm_get_in [OF ne(2), symmetric])
  ultimately have "back_wf (extend_rounds t front rounds)" using ext(1) by (simp add: back_wf_def)
  with r assms(2) that last show thesis by blast
qed

lemma extend_once:
  assumes "cm_extend_from_ahead front c = Ok c'" "once_inv c h" "\<forall>d\<in>set front. round_wf d"
  shows "once_inv c' h \<and> cm_anchor_chain c' = cm_anchor_chain c"
proof -
  from assms(1) have e: "db_extend_from_front front (cm_dag c) = Ok (cm_dag c')" "cm_anchor_chain c' = cm_anchor_chain c"
    by (auto simp: cm_extend_from_ahead_def bindR_Ok_iff)
  have wf: "back_wf (cm_dag c)" "bm_wf (cm_dag c)" using assms(2) by (simp_all add: once_inv_def back_wf_def)
  obtain t where t: "cm_dag c' = cm_dag c \<or> cm_dag c' = extend_rounds t front (cm_dag c)"
    "t \<in> set (bm_keys (cm_dag c))" "\<forall>r\<in>set (bm_keys (cm_dag c)). r \<le> t" "back_wf (cm_dag c')"
    by (rule extend_cases [OF e(1) wf(1) assms(3)])
  note ext = extend_rounds_facts [OF wf(2), of t front]
  have same: "point_at (cm_dag c') x = point_at (cm_dag c) x" if "point_at (cm_dag c) x = Some v" for x v
    using t(1,3) ext(2) point_at_key [OF that] by (auto simp: point_at_def)
  have keys: "\<exists>r\<in>set (bm_keys (cm_dag c)). r \<le> r'" if "r' \<in> set (bm_keys (cm_dag c'))" for r'
    using t(1)
  proof
    assume "cm_dag c' = extend_rounds t front (cm_dag c)"
    with ext(3) that have "r' \<in> set (bm_keys (cm_dag c)) \<or> t < r'" by auto
    with t(2) show ?thesis by (auto intro: less_imp_le)
  qed (use that in auto)
  have "once_inv c' h"
    by (rule once_inv_dag [OF assms(2) t(4)]) (use same keys in auto)
  with e(2) show ?thesis by simp
qed

text \<open>
  The life of a committer between a start and the next restart. Its rounds are shared: between two
  operations other tasks resolve points, which keeps the points that are resolved already. The list
  collects the ids of all committed points in the order of commits; the anchors that were dequeued in
  a call that ends with a conflict are lost for the output and not in the list.
\<close>

definition points_kept :: "dag_round \<Rightarrow> dag_round \<Rightarrow> bool" where
  "points_kept d d' \<longleftrightarrow> dr_round d' = dr_round d \<and> round_wf d'
     \<and> (\<forall>peer dg v. ready_valid_point d peer dg = Ok v \<longrightarrow>
          (\<exists>w. ready_valid_point d' peer dg = Ok w \<and> vp_info w = vp_info v \<and> vp_is_committed w = vp_is_committed v))"

inductive cm_run ::
  "('g \<Rightarrow> (peer_id \<times> digest) list \<Rightarrow> (peer_id \<times> digest) list \<times> 'g) \<Rightarrow> (digest \<Rightarrow> 'g) \<Rightarrow> mempool_config
   \<Rightarrow> committer \<Rightarrow> point_id list \<Rightarrow> bool" for shuffle seed conf where
  start: "round_wf bottom \<Longrightarrow> cm_init bottom conf cm_default = Ok (full, c) \<Longrightarrow> cm_run shuffle seed conf c []"
| extend: "cm_run shuffle seed conf c h \<Longrightarrow> \<forall>d\<in>set front. round_wf d \<Longrightarrow> cm_extend_from_ahead front c = Ok c'
    \<Longrightarrow> cm_run shuffle seed conf c' h"
| drop: "cm_run shuffle seed conf c h \<Longrightarrow> cm_drop_upto new_bottom conf c = Ok (res, c') \<Longrightarrow> cm_run shuffle seed conf c' h"
| resolve: "cm_run shuffle seed conf c h \<Longrightarrow> bm_get (cm_dag c) r = Some d \<Longrightarrow> points_kept d d'
    \<Longrightarrow> cm_run shuffle seed conf (c\<lparr>cm_dag := bm_insert r d' (cm_dag c)\<rparr>) h"
| commits: "cm_run shuffle seed conf c h \<Longrightarrow> cm_commit shuffle seed conf c = Ok (Inr datas, c')
    \<Longrightarrow> cm_run shuffle seed conf c' (h @ committed_ids datas)"
| conflict: "cm_run shuffle seed conf c h \<Longrightarrow> cm_commit shuffle seed conf c = Ok (Inl r, c') \<Longrightarrow> cm_run shuffle seed conf c' h"

lemma drop_once:
  assumes "cm_drop_upto nb conf c = Ok (res, c')" "once_inv c h" "maps_ok (cm_anchor_chain c)"
  shows "once_inv c' h \<and> maps_ok (cm_anchor_chain c')"
proof -
  from assms(2) have wf: "back_wf (cm_dag c)" "cm_dag c \<noteq> []" by (simp_all add: once_inv_def back_wf_def)
  define t where "t = min nb (dr_round (snd (last (cm_dag c))))"
  have c': "cm_dag c' = db_drop_upto t (cm_dag c)" "cm_anchor_chain c' = ac_drop_upto t (cm_anchor_chain c)"
    using assms(1) wf(2) by (auto simp: cm_drop_upto_def db_top_def Let_def t_def)
  have "last (cm_dag c) \<in> set (cm_dag c)" "\<not> fst (last (cm_dag c)) < t"
    using wf last_in_set [of "cm_dag c"] unfolding back_wf_def t_def by (auto simp: case_prod_beta)
  then have "db_drop_upto t (cm_dag c) \<noteq> []" by (auto simp: db_drop_upto_def dropWhile_eq_Nil_conv)
  with once_dropped [OF assms(2) c'(1)] c' assms(3) show ?thesis by (auto simp: maps_ok_def ac_drop_upto_def)
qed

lemma resolve_once:
  assumes "once_inv c h" "bm_get (cm_dag c) r = Some d" "points_kept d d'"
  shows "once_inv (c\<lparr>cm_dag := bm_insert r d' (cm_dag c)\<rparr>) h"
proof -
  from assms(1) have wf: "back_wf (cm_dag c)" "bm_wf (cm_dag c)" by (simp_all add: once_inv_def back_wf_def)
  let ?D = "bm_insert r d' (cm_dag c)"
  have get: "bm_get ?D = (bm_get (cm_dag c))(r \<mapsto> d')" by (rule bm_get_insert [OF wf(2)])
  have "(r, d) \<in> set (cm_dag c)" using assms(2) by (simp add: bm_get_in [OF wf(2)])
  with wf(1) have r: "dr_round d = r" unfolding back_wf_def by fastforce
  have D: "bm_wf ?D" by (rule bm_wf_insert [OF wf(2)])
  have "dr_round e = k \<and> round_wf e" if "(k, e) \<in> set ?D" for k e
  proof -
    from that have "(k = r \<and> e = d') \<or> (k, e) \<in> set (cm_dag c)"
      by (auto simp: bm_get_in [OF D] get bm_get_in [OF wf(2)] split: if_splits)
    with wf(1) assms(3) r show ?thesis by (auto simp: points_kept_def back_wf_def)
  qed
  moreover have "?D \<noteq> []" using set_bm_keys_insert [of r d' "cm_dag c"] by (auto simp: bm_keys_def)
  ultimately have bwf: "back_wf ?D" using D by (auto simp: back_wf_def)
  have keep: "\<exists>w. point_at ?D x = Some w \<and> vp_is_committed w" if "point_at (cm_dag c) x = Some v" "vp_is_committed v" for x v
  proof (cases "pid_round x = r")
    case True
    with that(1) assms(2) have "ready_valid_point d (pid_author x) (pid_digest x) = Ok v"
      by (auto simp: point_at_def split: outcome.splits)
    with assms(3) that(2) have "\<exists>w. ready_valid_point d' (pid_author x) (pid_digest x) = Ok w \<and> vp_is_committed w"
      unfolding points_kept_def by metis
    with True show ?thesis by (auto simp: point_at_def get)
  qed (use that in \<open>auto simp: point_at_def get\<close>)
  show ?thesis
    by (rule once_inv_dag [OF assms(1)]) (use bwf keep bm_get_keys [OF assms(2)] in \<open>auto simp: set_bm_keys_insert\<close>)
qed

lemma run_once:
  assumes "gathers shuffle" "cm_run shuffle seed conf c h"
  shows "once_inv c h \<and> maps_ok (cm_anchor_chain c)"
  using assms(2)
proof induction
  case (start bottom full c)
  then show ?case
    by (auto simp: cm_init_def cm_default_def db_init_def Let_def once_inv_def back_wf_def bm_wf_def maps_ok_def)
next
  case (extend c h front c')
  then show ?case using extend_once by metis
next
  case (drop c h new_bottom res c')
  then show ?case using drop_once by blast
next
  case (resolve c h r d d')
  then show ?case using resolve_once by simp
next
  case (commits c h datas c')
  then show ?case using commit_once [OF assms(1) commits.hyps(2)] by blast
next
  case (conflict c h r c')
  then show ?case using commit_once [OF assms(1) conflict.hyps(2)] by blast
qed

text \<open>
  C2. No point is committed twice: over the whole life of a committer, whatever rounds are added,
  dropped or resolved in between, the histories of all committed anchors are disjoint and without
  repetitions.
\<close>

theorem points_committed_once:
  assumes "gathers shuffle" "cm_run shuffle seed conf c h"
  shows "distinct h"
  using run_once [OF assms] by (simp add: once_inv_def)

section \<open>An example\<close>

text \<open>
  Two authors, rounds 4 to 8: the anchor is the first author's point at round 5, its proof and trigger
  are at rounds 6 and 7. The history covers one round.
\<close>

definition ex_commit_conf :: mempool_config where
  "ex_commit_conf = \<lparr>mc_consensus = ex_consensus\<lparr>cc_commit_history_rounds := 1\<rparr>, mc_genesis_round = 1,
     mc_point_max_bytes = 1000\<rparr>"

definition ex_commit_point :: "peer_id \<Rightarrow> round \<Rightarrow> point_info" where
  "ex_commit_point author round =
     \<lparr>pi_digest = of_nat (10 * round) + author, pi_signature = 0, pi_author = author, pi_round = round,
       pi_payload_len = 0, pi_payload_bytes = 0,
       pi_data = \<lparr>pd_includes = map (\<lambda>p. (p, of_nat (10 * (round - 1)) + p)) [1, 2],
         pd_witness = [], pd_evidence = [(3, 0)],
         pd_anchor_trigger = (if round = 7 \<and> author = 1 then ToSelf else Direct (Includes 1)),
         pd_anchor_proof = (if round = 6 \<and> author = 1 then ToSelf else if round \<ge> 7 then Direct (Includes 1)
           else Indirect \<lparr>pid_author = 2, pid_round = 2, pid_digest = 22\<rparr> (Includes 1)),
         pd_time = 100 * round, pd_anchor_time = 50\<rparr>\<rparr>"

definition ex_commit_loc :: "peer_id \<Rightarrow> round \<Rightarrow> dag_location" where
  "ex_commit_loc author round = dl_new\<lparr>dl_versions := [(of_nat (10 * round) + author,
     FutValidate (Ready (Valid \<lparr>vp_info = ex_commit_point author round, vp_first_valid = True,
       vp_is_first_resolved = True, vp_certified = False, vp_is_committed = False\<rparr>)) 0)]\<rparr>"

definition ex_commit_round :: "round \<Rightarrow> dag_round" where
  "ex_commit_round round = \<lparr>dr_round = round, dr_peer_count = pc_genesis,
     dr_anchor_stage = map_option (\<lambda>role. \<lparr>as_role = role, as_leader = 1, as_is_used = False\<rparr>) (stage_role round),
     dr_locations = [(1, ex_commit_loc 1 round), (2, ex_commit_loc 2 round)],
     dr_threshold = th_new round pc_genesis ex_commit_conf\<rparr>"

definition ex_shuffle :: "unit \<Rightarrow> (peer_id \<times> digest) list \<Rightarrow> (peer_id \<times> digest) list \<times> unit" where
  "ex_shuffle rng m = (rev m, ())"

lemmas ex_commit_simps = ex_commit_conf_def ex_consensus_def ex_commit_point_def ex_commit_loc_def
  ex_commit_round_def ex_shuffle_def

lemma ex_shuffle_gathers: "gathers ex_shuffle"
  by (simp add: gathers_def ex_shuffle_def)

lemma ex_commit_round_wf: "round_wf (ex_commit_round r)"
  unfolding round_wf_def ready_valid_point_def dr_view_def
  by (auto simp: ex_commit_round_def ex_commit_loc_def ex_commit_point_def bm_get_def ready_dag_point_def
      pi_id_def pi_data_defs bm_wf_def split: if_splits)

definition ex_committer :: committer where
  "ex_committer = \<lparr>cm_dag = map (\<lambda>r. (r, ex_commit_round r)) [4, 5, 6, 7, 8], cm_anchor_chain = [],
     cm_full_history_bottom = 5\<rparr>"

definition ex_valid :: "peer_id \<Rightarrow> round \<Rightarrow> valid_point" where
  "ex_valid a r = \<lparr>vp_info = ex_commit_point a r, vp_first_valid = True,
       vp_is_first_resolved = True, vp_certified = False, vp_is_committed = False\<rparr>"

lemma ex_ready:
  "ready_valid_point (ex_commit_round r) 1 g = (if g = of_nat (10 * r) + 1 then Ok (ex_valid 1 r) else Err TryLater)"
  "ready_valid_point (ex_commit_round r) 2 g = (if g = of_nat (10 * r) + 2 then Ok (ex_valid 2 r) else Err TryLater)"
  by (simp_all add: ready_valid_point_def dr_view_def ex_commit_round_def ex_commit_loc_def bm_get_def ready_dag_point_def ex_valid_def)

lemma ex_round_round [simp]: "dr_round (ex_commit_round r) = r" by (simp add: ex_commit_round_def)
lemma ex_stage: "dr_anchor_stage (ex_commit_round r) = map_option (\<lambda>role. \<lparr>as_role = role, as_leader = 1, as_is_used = False\<rparr>) (stage_role r)"
 by (simp add: ex_commit_round_def)

lemmas ex_point_links = ex_commit_point_def pi_prev_id_def pi_prev_digest_def pi_data_defs bm_get_def pi_anchor_id_def
  pd_anchor_id_def pd_anchor_link_id_def pd_link_hop_def pi_anchor_round_def pd_anchor_round_def pi_id_def pi_anchor_link_def pd_anchor_link_def round_prev_def checked_sub_def
  proof_stage_def ex_stage stage_role_def wave_rounds_def ex_ready ex_valid_def
   
lemma ex_trigger: "any_ready_valid_trigger (ex_commit_round 7) 1 = Inr (ex_valid 1 7)"
 by (simp add: any_ready_valid_trigger_def dr_view_def ex_commit_round_def ex_commit_loc_def bm_get_def trigger_candidate_def find_or_first_def map_filter_simps pi_anchor_link_def pd_anchor_link_def ex_commit_point_def ex_valid_def)

lemma ex_unusable: "db_last_unusable_proof_round (ex_commit_point 1 7) (cm_dag ex_committer) = Ok 2"
  by (simp add: db_last_unusable_proof_round_def ex_committer_def ex_point_links)

lemma ex_chain: "db_anchor_chain 2 (ex_commit_point 1 7) (cm_dag ex_committer) = Ok
   [\<lparr>ea_anchor = ex_commit_point 1 5, ea_proof = ex_commit_point 1 6, ea_direct_trigger = Some (ex_commit_point 1 7)\<rparr>]"
  by (simp add: db_anchor_chain_def ex_committer_def db_range_def bm_range_def ex_point_links round_next_lt u32_max_def)

text \<open>The anchor that the trigger at round 7 commits.\<close>

definition ex_anchor :: enqueued_anchor where
  "ex_anchor = \<lparr>ea_anchor = ex_commit_point 1 5, ea_proof = ex_commit_point 1 6, ea_direct_trigger = Some (ex_commit_point 1 7)\<rparr>"

lemma ex_enqueue: "cm_enqueue_new_anchors 7 ex_committer = Ok (None, ex_committer\<lparr>cm_anchor_chain := [ex_anchor]\<rparr>)"
proof -
  have "db_triggers 4 7 (cm_dag ex_committer) = Ok (Inr [ex_commit_point 1 7])"
    by (simp add: db_triggers_def ex_committer_def db_range_def bm_range_def ex_stage stage_role_def wave_rounds_def ex_trigger ex_valid_def)
  moreover have "cm_anchor_chain ex_committer = []" "db_bottom_round (cm_dag ex_committer) = Ok 4"
    by (simp_all add: ex_committer_def db_bottom_round_def)
  ultimately show ?thesis
    by (simp add: cm_enqueue_new_anchors_def ac_top_proof_round_def ex_unusable ex_chain cm_enqueue_all_def ac_enqueue_def ex_anchor_def)
qed

lemma ex_gather: "gather_uncommitted ex_shuffle (\<lambda>_. ()) full (ex_commit_point 1 5) ex_commit_conf (cm_dag ex_committer)
  = Ok [ex_valid 1 4, ex_valid 2 4]"
  by (simp add: gather_uncommitted_def history_limit_def ex_committer_def ex_commit_conf_def ex_consensus_def round_next_def
    checked_add_def u32_max_def round_sub_def db_range_def bm_range_def ex_shuffle_def gather_point_def gather_extend_def ex_point_links
    foldR.simps bm_extend_def)

definition ex_rounds :: "round list \<Rightarrow> dag_back" where
  "ex_rounds rs = map (\<lambda>r. (r, ex_commit_round r)) rs"

text \<open>Committers that know the rounds from 4 to 8, whatever older rounds they have.\<close>

lemma ex_dequeue:
  assumes "dropWhile (\<lambda>r. r < 4) rs = [4, 5, 6, 7, 8]"
  shows "\<exists>a c'. cm_dequeue_anchor ex_shuffle (\<lambda>_. ()) ex_anchor ex_commit_conf
      \<lparr>cm_dag = ex_rounds rs, cm_anchor_chain = [], cm_full_history_bottom = full\<rparr> = Ok (Inr a, c')
  \<and> ad_history a = [ex_commit_point 1 4, ex_commit_point 2 4] \<and> ad_anchor a = ex_commit_point 1 5 \<and> cm_anchor_chain c' = []"
proof -
  have drop: "db_drop_upto 4 (ex_rounds rs) = cm_dag ex_committer"
    using assms by (simp add: db_drop_upto_def ex_rounds_def dropWhile_map comp_def ex_committer_def)
  obtain dag where dag: "db_mark_used Proof 6 (cm_dag ex_committer) = Ok dag" "bm_get dag 7 = Some (ex_commit_round 7)"
    by (simp add: db_mark_used_def ex_committer_def bm_get_def ex_stage stage_role_def wave_rounds_def)
  obtain dag' where dag': "db_mark_used Trigger 7 dag = Ok dag'"
    using dag(2) by (simp add: db_mark_used_def ex_stage stage_role_def wave_rounds_def)
  have anchor: "ea_anchor ex_anchor = ex_commit_point 1 5" "pi_round (ea_proof ex_anchor) = 6"
    "ea_direct_trigger ex_anchor = Some (ex_commit_point 1 7)" by (simp_all add: ex_anchor_def ex_commit_point_def)
  have point: "pi_round (ex_commit_point a r) = r" "vp_info (ex_valid a r) = ex_commit_point a r" for a r
    by (simp_all add: ex_commit_point_def ex_valid_def)
  have sub: "round_sub 5 (cc_commit_history_rounds (mc_consensus ex_commit_conf)) = 4" "mc_genesis_round ex_commit_conf = 1"
    by (simp_all add: ex_commit_conf_def round_sub_def)
  have linked: "pi_anchor_round (ex_commit_point 1 5) Proof = (Ok 2 :: (unit, round) outcome)" by (simp add: ex_point_links)
  show ?thesis
    by (simp add: cm_dequeue_anchor_def anchor point sub drop ex_gather dag dag' linked round_prev_def checked_sub_def)
qed

lemma ex_commit: "\<exists>a c'. cm_commit ex_shuffle (\<lambda>_. ()) ex_commit_conf ex_committer = Ok (Inr [a], c')
  \<and> ad_history a = [ex_commit_point 1 4, ex_commit_point 2 4] \<and> ad_anchor a = ex_commit_point 1 5"
proof -
  obtain a c' where a: "cm_dequeue_anchor ex_shuffle (\<lambda>_. ()) ex_anchor ex_commit_conf ex_committer = Ok (Inr a, c')"
    "ad_history a = [ex_commit_point 1 4, ex_commit_point 2 4]" "cm_anchor_chain c' = []" "ad_anchor a = ex_commit_point 1 5"
    using ex_dequeue [of "[4, 5, 6, 7, 8]" 5] by (auto simp: ex_committer_def ex_rounds_def)
  have top: "db_top (cm_dag ex_committer) = Ok (ex_commit_round 8)" by (simp add: db_top_def ex_committer_def)
  have chain: "ex_committer\<lparr>cm_anchor_chain := []\<rparr> = ex_committer" by (simp add: ex_committer_def)
  have "cm_commit ex_shuffle (\<lambda>_. ()) ex_commit_conf ex_committer = Ok (Inr [a], c')"
    by (simp add: cm_commit_def top round_prev_def checked_sub_def cm_commit_up_to_def ex_enqueue
       cm_commit_loop.simps a(1,3) chain)
  with a(2,4) show ?thesis by blast
qed

lemma ex_run: "cm_run ex_shuffle (\<lambda>_. ()) ex_commit_conf ex_committer []"
proof -
  have 1: "cm_run ex_shuffle (\<lambda>_. ()) ex_commit_conf (ex_committer\<lparr>cm_dag := [(4, ex_commit_round 4)]\<rparr>) []"
    by (rule cm_run.start [OF ex_commit_round_wf [of 4], of _ 5])
      (simp add: cm_init_def cm_default_def db_init_def round_add_def ex_commit_conf_def ex_consensus_def ex_committer_def
        sat_add_def u32_max_def)
  have "cm_extend_from_ahead (map ex_commit_round [5, 6, 7, 8]) (ex_committer\<lparr>cm_dag := [(4, ex_commit_round 4)]\<rparr>) = Ok ex_committer"
    by (simp add: cm_extend_from_ahead_def db_extend_from_front_def db_top_def ex_committer_def round_next_def checked_add_def u32_max_def
       extend_rounds_def db_assert_len_def db_bottom_round_def checked_sub_def)
  then show ?thesis by (intro cm_run.extend [OF 1]) (auto simp: ex_commit_round_wf)
qed

theorem points_committed_once_witness:
  "\<exists>c. cm_run ex_shuffle (\<lambda>_. ()) ex_commit_conf c [pi_id (ex_commit_point 1 4), pi_id (ex_commit_point 2 4)]
    \<and> distinct [pi_id (ex_commit_point 1 4), pi_id (ex_commit_point 2 4)]"
proof -
  obtain a c where "cm_commit ex_shuffle (\<lambda>_. ()) ex_commit_conf ex_committer = Ok (Inr [a], c)"
      "ad_history a = [ex_commit_point 1 4, ex_commit_point 2 4]" using ex_commit by blast
  with cm_run.commits [OF ex_run this(1)]
  have run: "cm_run ex_shuffle (\<lambda>_. ()) ex_commit_conf c [pi_id (ex_commit_point 1 4), pi_id (ex_commit_point 2 4)]"
    by (simp add: committed_ids_def)
  with points_committed_once [OF ex_shuffle_gathers run] show ?thesis by blast
qed

lemma ex_rounds_wf: "sorted_wrt (<) rs \<Longrightarrow> rs \<noteq> [] \<Longrightarrow> back_wf (ex_rounds rs)"
  by (auto simp: back_wf_def ex_rounds_def bm_wf_def ex_commit_round_wf comp_def)

lemma ex_point_at: "point_at (ex_rounds rs) x = Some v \<Longrightarrow> v = ex_valid (pid_author x) (pid_round x)"
  by (auto simp: point_at_def ex_rounds_def bm_get_def map_of_map_restrict restrict_map_def ready_valid_point_def dr_view_def
      ex_commit_round_def ex_commit_loc_def ready_dag_point_def ex_valid_def comp_def split: option.splits if_splits)

theorem commit_agreement_witness:
  "\<exists>a b c' d'. cm_dequeue_anchor ex_shuffle (\<lambda>_. ()) ex_anchor ex_commit_conf
        \<lparr>cm_dag = ex_rounds [4, 5, 6, 7, 8], cm_anchor_chain = [], cm_full_history_bottom = 4\<rparr> = Ok (Inr a, c')
    \<and> cm_dequeue_anchor ex_shuffle (\<lambda>_. ()) ex_anchor ex_commit_conf
        \<lparr>cm_dag = ex_rounds [3, 4, 5, 6, 7, 8], cm_anchor_chain = [], cm_full_history_bottom = 3\<rparr> = Ok (Inr b, d')
    \<and> ad_history a = [ex_commit_point 1 4, ex_commit_point 2 4] \<and> ad_history a = ad_history b \<and> agree (cm_dag c') (cm_dag d')"
proof -
  let ?c = "\<lparr>cm_dag = ex_rounds [4, 5, 6, 7, 8], cm_anchor_chain = [], cm_full_history_bottom = 4\<rparr> :: committer"
  let ?d = "\<lparr>cm_dag = ex_rounds [3, 4, 5, 6, 7, 8], cm_anchor_chain = [], cm_full_history_bottom = 3\<rparr> :: committer"
  obtain a c' where a: "cm_dequeue_anchor ex_shuffle (\<lambda>_. ()) ex_anchor ex_commit_conf ?c = Ok (Inr a, c')"
    "ad_history a = [ex_commit_point 1 4, ex_commit_point 2 4]"
    using ex_dequeue [of "[4, 5, 6, 7, 8]" 4] by auto
  obtain b d' where b: "cm_dequeue_anchor ex_shuffle (\<lambda>_. ()) ex_anchor ex_commit_conf ?d = Ok (Inr b, d')"
    using ex_dequeue [of "[3, 4, 5, 6, 7, 8]" 3] by auto
  have wf: "back_wf (cm_dag ?c)" "back_wf (cm_dag ?d)" using ex_rounds_wf by simp_all
  have "agree (cm_dag ?c) (cm_dag ?d)" unfolding agree_def by (auto dest: ex_point_at)
  moreover have "history_limit (ea_anchor ex_anchor) ex_commit_conf = (Ok 4 :: (sync_error, round) outcome)"
    by (simp add: history_limit_def ex_anchor_def ex_commit_point_def ex_commit_conf_def round_sub_def round_next_def
        checked_add_def u32_max_def)
  ultimately show ?thesis
    using commit_agreement [OF wf _ a(1) b] a b by simp
qed

theorem history_is_closed_witness:
  "\<exists>a c'. cm_dequeue_anchor ex_shuffle (\<lambda>_. ()) ex_anchor ex_commit_conf
        \<lparr>cm_dag = ex_rounds [4, 5, 6, 7, 8], cm_anchor_chain = [], cm_full_history_bottom = 4\<rparr> = Ok (Inr a, c')
    \<and> ad_history a = [ex_commit_point 1 4, ex_commit_point 2 4] \<and> sorted (map pi_round (ad_history a))"
proof -
  let ?c = "\<lparr>cm_dag = ex_rounds [4, 5, 6, 7, 8], cm_anchor_chain = [], cm_full_history_bottom = 4\<rparr> :: committer"
  obtain a c' where a: "cm_dequeue_anchor ex_shuffle (\<lambda>_. ()) ex_anchor ex_commit_conf ?c = Ok (Inr a, c')"
    "ad_history a = [ex_commit_point 1 4, ex_commit_point 2 4]"
    using ex_dequeue [of "[4, 5, 6, 7, 8]" 4] by auto
  have wf: "back_wf (cm_dag ?c)" using ex_rounds_wf by simp
  have maps: "bm_wf (pi_includes (ea_anchor ex_anchor))" "bm_wf (pi_witness (ea_anchor ex_anchor))"
    by (simp_all add: ex_anchor_def ex_commit_point_def pi_data_defs bm_wf_def)
  from history_is_closed [OF ex_shuffle_gathers wf a(1) maps] have "sorted (map pi_round (ad_history a))" by blast
  with a show ?thesis by blast
qed

end
