(* ===== verification/Deduplicator.thy ===== *)
theory Deduplicator
  imports Point_Model
begin

text \<open>
  Deduplication of external messages: \<^verbatim>\<open>collator/src/mempool/impls/std_impl/deduplicator.rs\<close> and
  \<^verbatim>\<open>parser.rs\<close>.

  The map from rounds to hashes keeps its insertion order (\<^verbatim>\<open>IndexMap\<close>) and is an association list;
  its binary search is what the library documents for sorted keys, which reachable states have. A
  hash set is a list without repetitions. Decoding of messages and the hash functions are parameters.

  The lemmas show that the two maps remember exactly the last round of every hash inside a sliding
  window of rounds: checks in the order of rounds never panic and find a hash unique iff it was not
  checked at the same round or inside the window, whatever was cleaned in between.
\<close>

section \<open>Model\<close>

record deduplicator =
  dd_hash_max_round :: "digest \<rightharpoonup> round"
  dd_round_to_hashes :: "(round \<times> digest list) list"
  dd_round_threshold :: nat

definition dd_new :: "nat \<Rightarrow> deduplicator" where
  "dd_new round_threshold =
     \<lparr>dd_hash_max_round = Map.empty, dd_round_to_hashes = [], dd_round_threshold = round_threshold\<rparr>"

text \<open>The sum is not checked in release builds and wraps.\<close>

definition dd_bottom :: "round \<Rightarrow> nat \<Rightarrow> round" where
  "dd_bottom anchor_round round_threshold = (anchor_round - round_threshold + 1) mod (u32_max + 1)"

fun im_update :: "'k \<Rightarrow> 'v \<Rightarrow> ('k \<times> 'v) list \<Rightarrow> ('k \<times> 'v) list" where
  "im_update k v [] = [(k, v)]"
| "im_update k v ((k', v') # m) = (if k = k' then (k, v) # m else (k', v') # im_update k v m)"

definition dd_forget :: "round \<Rightarrow> digest \<Rightarrow> (round \<times> digest list) list \<Rightarrow> (unit, (round \<times> digest list) list) outcome"
  where
  "dd_forget old_round h rounds =
     (case map_of rounds old_round of
        None \<Rightarrow> Ok rounds
      | Some hashes \<Rightarrow> if h \<in> set hashes then Ok (im_update old_round (remove1 h hashes) rounds) else Panic)"

definition dd_check_unique :: "round \<Rightarrow> digest \<Rightarrow> deduplicator \<Rightarrow> (unit, bool \<times> deduplicator) outcome" where
  "dd_check_unique anchor_round h d =
     (let hashes = (case map_of (dd_round_to_hashes d) anchor_round of None \<Rightarrow> [] | Some hs \<Rightarrow> hs)
      in if h \<in> set hashes then Ok (False, d)
         else
           let rounds = im_update anchor_round (hashes @ [h]) (dd_round_to_hashes d);
               hash_max_round = (dd_hash_max_round d)(h \<mapsto> anchor_round)
           in (case dd_hash_max_round d h of
                 None \<Rightarrow> Ok (True, d\<lparr>dd_hash_max_round := hash_max_round, dd_round_to_hashes := rounds\<rparr>)
               | Some old_round \<Rightarrow>
                   if \<not> old_round < anchor_round then Panic
                   else bindR (dd_forget old_round h rounds) (\<lambda>rounds.
                     Ok (old_round < dd_bottom anchor_round (dd_round_threshold d),
                         d\<lparr>dd_hash_max_round := hash_max_round, dd_round_to_hashes := rounds\<rparr>))))"

definition dd_evict :: "round \<Rightarrow> digest \<Rightarrow> (digest \<rightharpoonup> round) \<Rightarrow> (unit, digest \<rightharpoonup> round) outcome" where
  "dd_evict bottom_round h m =
     (case m h of
        None \<Rightarrow> Panic
      | Some max_round \<Rightarrow> Ok (if max_round < bottom_round then m(h := None) else m))"

definition im_search :: "round \<Rightarrow> (round \<times> 'v) list \<Rightarrow> nat" where
  "im_search k m = length (takeWhile (\<lambda>e. fst e < k) m)"

definition dd_clean :: "round \<Rightarrow> deduplicator \<Rightarrow> (unit, deduplicator) outcome" where
  "dd_clean anchor_round d =
     (let bottom_round = dd_bottom anchor_round (dd_round_threshold d);
          bottom_index = im_search bottom_round (dd_round_to_hashes d);
          drained = take bottom_index (dd_round_to_hashes d)
      in bindR (foldR (dd_evict bottom_round) (concat (map snd drained)) (dd_hash_max_round d)) (\<lambda>m.
           Ok (d\<lparr>dd_hash_max_round := m, dd_round_to_hashes := drop bottom_index (dd_round_to_hashes d)\<rparr>)))"

text \<open>The stateful filters over a list of keyed messages; collecting in parallel keeps the order.\<close>

fun dd_filter :: "round \<Rightarrow> ('x \<Rightarrow> digest) \<Rightarrow> 'x list \<Rightarrow> deduplicator \<Rightarrow> (unit, 'x list \<times> deduplicator) outcome" where
  "dd_filter anchor_id key [] d = Ok ([], d)"
| "dd_filter anchor_id key (x # xs) d =
     bindR (dd_check_unique anchor_id (key x) d) (\<lambda>(unique, d).
     bindR (dd_filter anchor_id key xs d) (\<lambda>(ys, d). Ok (if unique then x # ys else ys, d)))"

text \<open>What the code uses of the cell library; \<open>load_ext_in\<close> is \<open>None\<close> for other kinds of messages and for errors.\<close>

record ('c, 'i) cell_lib =
  cl_boc_decode :: "byte list \<Rightarrow> 'c option"
  cl_is_exotic :: "'c \<Rightarrow> bool"
  cl_level :: "'c \<Rightarrow> nat"
  cl_repr_depth :: "'c \<Rightarrow> nat"
  cl_repr_hash :: "'c \<Rightarrow> digest"
  cl_load_ext_in :: "'c \<Rightarrow> 'i option"

record ('c, 'i) external_message =
  em_cell :: 'c
  em_info :: 'i

definition max_boc_size :: nat where "max_boc_size = 65535"
definition max_repr_depth :: nat where "max_repr_depth = 512"

definition parse_message_bytes :: "('c, 'i) cell_lib \<Rightarrow> byte list \<Rightarrow> ('c, 'i) external_message option" where
  "parse_message_bytes lib message =
     (case cl_boc_decode lib message of
        None \<Rightarrow> None
      | Some cell \<Rightarrow>
          if cl_is_exotic lib cell \<or> cl_level lib cell \<noteq> 0 \<or> cl_repr_depth lib cell > max_repr_depth then None
          else (case cl_load_ext_in lib cell of
                  None \<Rightarrow> None
                | Some info \<Rightarrow> Some \<lparr>em_cell = cell, em_info = info\<rparr>))"

record parser =
  prs_blake :: deduplicator
  prs_sha :: deduplicator

definition prs_new :: "nat \<Rightarrow> parser" where
  "prs_new round_threshold = \<lparr>prs_blake = dd_new round_threshold, prs_sha = dd_new round_threshold\<rparr>"

definition prs_clean :: "round \<Rightarrow> parser \<Rightarrow> (unit, parser) outcome" where
  "prs_clean anchor_id p =
     bindR (dd_clean anchor_id (prs_blake p)) (\<lambda>blake.
     bindR (dd_clean anchor_id (prs_sha p)) (\<lambda>sha. Ok \<lparr>prs_blake = blake, prs_sha = sha\<rparr>))"

definition prs_hashed :: "(byte list \<Rightarrow> digest) \<Rightarrow> byte list list \<Rightarrow> (digest \<times> byte list) list" where
  "prs_hashed blake3 payloads =
     List.map_filter (\<lambda>bytes. if length bytes \<le> max_boc_size then Some (blake3 bytes, bytes) else None) payloads"

definition prs_parsed :: "('c, 'i) cell_lib \<Rightarrow> byte list list \<Rightarrow> (('c, 'i) external_message \<times> nat) list" where
  "prs_parsed lib =
     List.map_filter (\<lambda>bytes. map_option (\<lambda>cell. (cell, length bytes)) (parse_message_bytes lib bytes))"

definition prs_parse_unique ::
  "(byte list \<Rightarrow> digest) \<Rightarrow> ('c, 'i) cell_lib \<Rightarrow> round \<Rightarrow> byte list list \<Rightarrow> parser
   \<Rightarrow> (unit, (('c, 'i) external_message list \<times> nat) \<times> parser) outcome" where
  "prs_parse_unique blake3 lib anchor_id payloads p =
     bindR (dd_filter anchor_id fst (prs_hashed blake3 payloads) (prs_blake p)) (\<lambda>(uniq, blake).
     bindR (dd_filter anchor_id (\<lambda>m. cl_repr_hash lib (em_cell (fst m))) (prs_parsed lib (map snd uniq)) (prs_sha p))
       (\<lambda>(uniq, sha). Ok ((map fst uniq, sum_list (map snd uniq)), \<lparr>prs_blake = blake, prs_sha = sha\<rparr>)))"

section \<open>What is remembered\<close>

text \<open>The two maps describe the same relation; rounds are in order.\<close>

definition dd_ok :: "deduplicator \<Rightarrow> bool" where
  "dd_ok d \<longleftrightarrow> sorted_wrt (<) (map fst (dd_round_to_hashes d))
     \<and> (\<forall>(r, hs)\<in>set (dd_round_to_hashes d). distinct hs)
     \<and> (\<forall>r h. dd_hash_max_round d h = Some r \<longleftrightarrow> (\<exists>hs. (r, hs) \<in> set (dd_round_to_hashes d) \<and> h \<in> set hs))"

lemma im_update_keys:
  "map fst (im_update k v m) = (if k \<in> fst ` set m then map fst m else map fst m @ [k])"
  by (induction k v m rule: im_update.induct) auto

lemma im_update_key_set: "fst ` set (im_update k v m) = insert k (fst ` set m)"
  by (induction k v m rule: im_update.induct) auto

lemma map_of_im_update: "map_of (im_update k v m) = (map_of m)(k \<mapsto> v)"
  by (induction k v m rule: im_update.induct) auto

lemma sorted_keys_distinct: "sorted_wrt (<) (ks :: nat list) \<Longrightarrow> distinct ks"
  by (induction ks) auto

lemma in_rounds: "sorted_wrt (<) (map fst (m :: (nat \<times> 'v) list)) \<Longrightarrow> (r, v) \<in> set m \<longleftrightarrow> map_of m r = Some v"
  using map_of_is_SomeI [OF sorted_keys_distinct] map_of_SomeD by metis

definition hashes_at :: "(round \<times> digest list) list \<Rightarrow> round \<Rightarrow> digest list" where
  "hashes_at rounds r = (case map_of rounds r of None \<Rightarrow> [] | Some hs \<Rightarrow> hs)"

lemma hashes_at_update: "hashes_at (im_update k v m) = (hashes_at m)(k := v)"
  by (auto simp: hashes_at_def map_of_im_update)

lemma in_hashes_at:
  "sorted_wrt (<) (map fst m) \<Longrightarrow> h \<in> set (hashes_at m r) \<longleftrightarrow> (\<exists>hs. (r, hs) \<in> set m \<and> h \<in> set hs)"
  by (cases "map_of m r") (auto simp: hashes_at_def in_rounds)

lemma dd_ok_alt:
  "dd_ok d \<longleftrightarrow> sorted_wrt (<) (map fst (dd_round_to_hashes d))
    \<and> (\<forall>r. distinct (hashes_at (dd_round_to_hashes d) r))
    \<and> (\<forall>r h. dd_hash_max_round d h = Some r \<longleftrightarrow> h \<in> set (hashes_at (dd_round_to_hashes d) r))"
proof (cases "sorted_wrt (<) (map fst (dd_round_to_hashes d))")
  case True
  have "(\<forall>(r, hs)\<in>set (dd_round_to_hashes d). distinct hs) \<longleftrightarrow> (\<forall>r. distinct (hashes_at (dd_round_to_hashes d) r))"
    using in_rounds [OF True] by (fastforce simp: hashes_at_def split: option.splits)
  with True show ?thesis by (simp add: dd_ok_def in_hashes_at [OF True])
qed (simp add: dd_ok_def)

lemma sorted_append_last:
  "sorted_wrt (<) (ks :: nat list) \<Longrightarrow> \<forall>k\<in>set ks. k \<le> r \<Longrightarrow> r \<notin> set ks \<Longrightarrow> sorted_wrt (<) (ks @ [r])"
  by (auto simp: sorted_wrt_append) (metis le_neq_implies_less)

lemma im_update_sorted:
  assumes "sorted_wrt (<) (map fst (m :: (nat \<times> 'v) list))" "k \<in> fst ` set m \<or> (\<forall>k'\<in>fst ` set m. k' \<le> k)"
  shows "sorted_wrt (<) (map fst (im_update k v m))"
  using assms sorted_append_last [of "map fst m" k] by (auto simp: im_update_keys)

lemma dd_ok_round: "dd_ok d \<Longrightarrow> dd_hash_max_round d h = Some m \<Longrightarrow> m \<in> fst ` set (dd_round_to_hashes d)"
  unfolding dd_ok_def by force

lemma dd_ok_unique:
  "dd_ok d \<Longrightarrow> (r, hs) \<in> set (dd_round_to_hashes d) \<Longrightarrow> h \<in> set hs
   \<Longrightarrow> (r', hs') \<in> set (dd_round_to_hashes d) \<Longrightarrow> h \<in> set hs' \<Longrightarrow> r = r'"
  unfolding dd_ok_def by (metis option.inject)

lemma dd_check_ok:
  assumes "dd_ok d" "\<forall>k\<in>fst ` set (dd_round_to_hashes d). k \<le> r"
  obtains d' where
    "dd_check_unique r h d = Ok (case dd_hash_max_round d h of None \<Rightarrow> True
       | Some m \<Rightarrow> m \<noteq> r \<and> m < dd_bottom r (dd_round_threshold d), d')"
    "dd_ok d'" "\<forall>k\<in>fst ` set (dd_round_to_hashes d'). k \<le> r"
    "dd_hash_max_round d' = (dd_hash_max_round d)(h \<mapsto> r)" "dd_round_threshold d' = dd_round_threshold d"
proof -
  let ?rs = "dd_round_to_hashes d" and ?max = "dd_hash_max_round d"
  have sorted: "sorted_wrt (<) (map fst ?rs)" and dist: "distinct (hashes_at ?rs k)"
    and mem: "h' \<in> set (hashes_at ?rs k) \<longleftrightarrow> ?max h' = Some k" for h' k using assms(1) by (simp_all add: dd_ok_alt)
  note check = dd_check_unique_def hashes_at_def [of ?rs r, symmetric] mem
  define rs where "rs = im_update r (hashes_at ?rs r @ [h]) ?rs"
  have rs: "sorted_wrt (<) (map fst rs)" "hashes_at rs = (hashes_at ?rs)(r := hashes_at ?rs r @ [h])" "fst ` set rs = insert r (fst ` set ?rs)"
    unfolding rs_def im_update_key_set hashes_at_update by (rule im_update_sorted [OF sorted]) (use assms(2) in auto)
  let ?d = "\<lambda>rs. d\<lparr>dd_hash_max_round := ?max(h \<mapsto> r), dd_round_to_hashes := rs\<rparr>"
  consider (same) "?max h = Some r" | (none) "?max h = None" | (old) old where "?max h = Some old" "old \<noteq> r"
    by (cases "?max h") auto
  then show thesis
  proof cases
    case same
    then show thesis using assms by (intro that [of d]) (auto simp: check)
  next
    case none
    have "dd_ok (?d rs)" using none dist by (auto simp: dd_ok_alt rs mem)
    then show thesis
      using assms(2) by (intro that [of "?d rs"]) (simp_all add: check rs_def [symmetric] none rs(3))
  next
    case (old old)
    with dd_ok_round [OF assms(1)] assms(2) have lt: "old < r" by fastforce
    have "map_of rs old = map_of ?rs old" using old(2) by (simp add: rs_def map_of_im_update)
    moreover have "h \<in> set (hashes_at ?rs old)" using old(1) by (simp add: mem)
    ultimately have forget: "dd_forget old h rs = Ok (im_update old (remove1 h (hashes_at ?rs old)) rs)" (is "_ = Ok ?rs'")
      by (cases "map_of ?rs old") (auto simp: dd_forget_def hashes_at_def)
    have rs': "sorted_wrt (<) (map fst ?rs')" "fst ` set ?rs' = insert r (insert old (fst ` set ?rs))"
      using im_update_sorted [OF rs(1), of old] dd_ok_round [OF assms(1) old(1)]
      by (auto simp: im_update_key_set rs(3))
    have "dd_ok (?d ?rs')"
      using old dist rs'(1) by (auto simp: dd_ok_alt hashes_at_update rs(2) mem)
    then show thesis
      using assms(2) lt by (intro that [of "?d ?rs'"]) (simp_all add: check rs_def [symmetric] old forget rs'(2))
  qed
qed

text \<open>A clean drops the rounds below the bottom and the hashes last seen there.\<close>

lemma takeWhile_split:
  fixes m :: "(nat \<times> 'v) list"
  assumes "sorted_wrt (<) (map fst m)"
  shows "take (im_search k m) m = filter (\<lambda>e. fst e < k) m" "drop (im_search k m) m = filter (\<lambda>e. k \<le> fst e) m"
proof -
  from assms have "takeWhile (\<lambda>e. fst e < k) m = filter (\<lambda>e. fst e < k) m
      \<and> dropWhile (\<lambda>e. fst e < k) m = filter (\<lambda>e. k \<le> fst e) m"
  proof (induction m)
    case (Cons e m)
    show ?case
    proof (cases "fst e < k")
      case False
      with Cons.prems have "\<forall>x\<in>set m. k \<le> fst x" by fastforce
      then have "filter (\<lambda>e. fst e < k) m = []" "filter (\<lambda>e. k \<le> fst e) m = m"
        by (auto simp: filter_empty_conv filter_id_conv)
      with False show ?thesis by simp
    qed (use Cons in auto)
  qed simp
  moreover have "take (im_search k m) m = takeWhile (\<lambda>e. fst e < k) m" "drop (im_search k m) m = dropWhile (\<lambda>e. fst e < k) m"
    unfolding im_search_def by (rule takeWhile_eq_take [symmetric], rule dropWhile_eq_drop [symmetric])
  ultimately show "take (im_search k m) m = filter (\<lambda>e. fst e < k) m" "drop (im_search k m) m = filter (\<lambda>e. k \<le> fst e) m"
    by simp_all
qed

lemma map_of_filter_key: "map_of (filter (\<lambda>e. P (fst e)) m) k = (if P k then map_of m k else None)"
  by (induction m) auto

lemma evict_all:
  assumes "distinct hs" "\<forall>h\<in>set hs. \<exists>r<b. m h = Some r"
  shows "foldR (dd_evict b) hs m = Ok (\<lambda>h. if h \<in> set hs then None else m h)"
  using assms
proof (induction hs arbitrary: m)
  case (Cons h hs)
  then have "dd_evict b h m = Ok (m(h := None))" by (auto simp: dd_evict_def)
  moreover have "foldR (dd_evict b) hs (m(h := None)) = Ok (\<lambda>h'. if h' \<in> set hs then None else (m(h := None)) h')"
    using Cons.prems by (intro Cons.IH) auto
  ultimately show ?case by (auto simp: fun_eq_iff)
qed simp

lemma distinct_drained:
  assumes "dd_ok d"
  shows "distinct (concat (map snd (filter P (dd_round_to_hashes d))))"
proof -
  let ?rs = "dd_round_to_hashes d"
  have sorted: "sorted_wrt (<) (map fst ?rs)" using assms by (simp add: dd_ok_def)
  have "distinct (concat (map snd rs))" if "set rs \<subseteq> set ?rs" "distinct (map fst rs)" for rs
    using that
  proof (induction rs)
    case (Cons e rs)
    obtain r hs where e: "e = (r, hs)" by (cases e)
    have "h \<notin> set (concat (map snd rs))" if "h \<in> set hs" for h
    proof
      assume "h \<in> set (concat (map snd rs))"
      then obtain r' hs' where "(r', hs') \<in> set rs" "h \<in> set hs'" by auto
      with dd_ok_unique [OF assms, of r hs h r' hs'] Cons.prems e that show False by force
    qed
    moreover have "distinct hs" using Cons.prems(1) e assms by (auto simp: dd_ok_def)
    ultimately show ?case using Cons e by auto
  qed simp
  moreover have "distinct (map fst (filter P ?rs))"
    using sorted_keys_distinct [OF sorted] by (simp add: distinct_map_filter)
  ultimately show ?thesis by simp
qed

lemma dd_clean_ok:
  assumes "dd_ok d"
  obtains d' where "dd_clean r d = Ok d'" "dd_ok d'" "dd_round_threshold d' = dd_round_threshold d"
    "dd_round_to_hashes d' = filter (\<lambda>e. dd_bottom r (dd_round_threshold d) \<le> fst e) (dd_round_to_hashes d)"
    "dd_hash_max_round d' = (\<lambda>h. case dd_hash_max_round d h of None \<Rightarrow> None
       | Some m \<Rightarrow> if m < dd_bottom r (dd_round_threshold d) then None else Some m)"
proof -
  let ?rs = "dd_round_to_hashes d" and ?max = "dd_hash_max_round d" and ?b = "dd_bottom r (dd_round_threshold d)"
  have sorted: "sorted_wrt (<) (map fst ?rs)" using assms by (simp add: dd_ok_def)
  let ?hs = "concat (map snd (filter (\<lambda>e. fst e < ?b) ?rs))"
  have hs: "h \<in> set ?hs \<longleftrightarrow> (\<exists>m<?b. ?max h = Some m)" for h
    using assms unfolding dd_ok_def by (auto simp: image_iff)
  let ?max' = "\<lambda>h. case ?max h of None \<Rightarrow> None | Some m \<Rightarrow> if m < ?b then None else Some m"
  have "foldR (dd_evict ?b) ?hs ?max = Ok (\<lambda>h. if h \<in> set ?hs then None else ?max h)"
    by (rule evict_all [OF distinct_drained [OF assms]]) (use hs in blast)
  also have "(\<lambda>h. if h \<in> set ?hs then None else ?max h) = ?max'"
    unfolding hs by (auto split: option.splits)
  finally have clean: "dd_clean r d = Ok (d\<lparr>dd_hash_max_round := ?max', dd_round_to_hashes := filter (\<lambda>e. ?b \<le> fst e) ?rs\<rparr>)" (is "_ = Ok ?d")
    by (simp add: dd_clean_def Let_def takeWhile_split [OF sorted])
  have "sorted_wrt (<) (map fst (filter (\<lambda>e. ?b \<le> fst e) ?rs))"
    using sorted by (simp add: sorted_wrt_map sorted_wrt_filter)
  moreover have "hashes_at (filter (\<lambda>e. ?b \<le> fst e) ?rs) k = (if ?b \<le> k then hashes_at ?rs k else [])" for k
    by (simp add: hashes_at_def map_of_filter_key)
  moreover have "distinct (hashes_at ?rs k)" "h \<in> set (hashes_at ?rs k) \<longleftrightarrow> ?max h = Some k" for h k
    using assms by (simp_all add: dd_ok_alt)
  ultimately have ok: "dd_ok ?d"
    by (auto simp: dd_ok_alt linorder_not_less split: option.splits)
  show thesis by (rule that [OF clean ok]) simp_all
qed

section \<open>The window\<close>

text \<open>
  \<open>log\<close> are the checks so far, at rounds up to \<open>now\<close>. A hash that is not remembered was last
  checked before the window.
\<close>

definition dd_inv :: "nat \<Rightarrow> (round \<times> digest) list \<Rightarrow> round \<Rightarrow> deduplicator \<Rightarrow> bool" where
  "dd_inv t log now d \<longleftrightarrow> dd_ok d \<and> dd_round_threshold d = t
     \<and> (\<forall>k\<in>fst ` set (dd_round_to_hashes d). k \<le> now) \<and> (\<forall>e\<in>set log. 1 \<le> fst e \<and> fst e \<le> now)
     \<and> (\<forall>h. case dd_hash_max_round d h of
          None \<Rightarrow> \<forall>r. (r, h) \<in> set log \<longrightarrow> r + t \<le> now
        | Some m \<Rightarrow> (m, h) \<in> set log \<and> (\<forall>r. (r, h) \<in> set log \<longrightarrow> r \<le> m))"

definition outside_window :: "nat \<Rightarrow> (round \<times> digest) list \<Rightarrow> round \<Rightarrow> digest \<Rightarrow> bool" where
  "outside_window t log r h \<longleftrightarrow> (\<forall>e\<in>set log. snd e = h \<longrightarrow> fst e + t \<le> r)"

lemma dd_bottom_exact: "r < u32_max \<Longrightarrow> dd_bottom r t = r - t + 1"
  by (simp add: dd_bottom_def)

lemma dd_inv_later: "dd_inv t log now d \<Longrightarrow> now \<le> r \<Longrightarrow> dd_inv t log r d"
  unfolding dd_inv_def by (fastforce split: option.splits)

lemma dd_inv_check:
  assumes "dd_inv t log now d" "1 \<le> t" "now \<le> r" "1 \<le> r" "r < u32_max"
  obtains d' where "dd_check_unique r h d = Ok (outside_window t log r h, d')" "dd_inv t (log @ [(r, h)]) r d'"
proof -
  from dd_inv_later [OF assms(1,3)] have inv: "dd_ok d" "dd_round_threshold d = t"
      "\<forall>k\<in>fst ` set (dd_round_to_hashes d). k \<le> r" "\<forall>e\<in>set log. 1 \<le> fst e \<and> fst e \<le> r"
      and seen: "\<And>h. case dd_hash_max_round d h of None \<Rightarrow> \<forall>r'. (r', h) \<in> set log \<longrightarrow> r' + t \<le> r
        | Some m \<Rightarrow> (m, h) \<in> set log \<and> (\<forall>r. (r, h) \<in> set log \<longrightarrow> r \<le> m)"
    unfolding dd_inv_def by auto
  obtain d' where d': "dd_check_unique r h d = Ok (case dd_hash_max_round d h of None \<Rightarrow> True
       | Some m \<Rightarrow> m \<noteq> r \<and> m < dd_bottom r (dd_round_threshold d), d')"
    "dd_ok d'" "\<forall>k\<in>fst ` set (dd_round_to_hashes d'). k \<le> r"
    "dd_hash_max_round d' = (dd_hash_max_round d)(h \<mapsto> r)" "dd_round_threshold d' = dd_round_threshold d"
    by (rule dd_check_ok [OF inv(1,3)])
  have "(case dd_hash_max_round d h of None \<Rightarrow> True | Some m \<Rightarrow> m \<noteq> r \<and> m < dd_bottom r (dd_round_threshold d))
      = outside_window t log r h"
  proof (cases "dd_hash_max_round d h")
    case None
    with seen [of h] show ?thesis by (auto simp: outside_window_def)
  next
    case (Some m)
    with seen [of h] inv(4) have m: "(m, h) \<in> set log" "\<forall>r. (r, h) \<in> set log \<longrightarrow> r \<le> m" "1 \<le> m" by force+
    have "outside_window t log r h \<longleftrightarrow> m + t \<le> r"
      unfolding outside_window_def using m(1,2) by (auto intro: order_trans [of _ "m + t"])
    with m(3) assms(2) show ?thesis by (auto simp: Some inv(2) dd_bottom_exact [OF assms(5)])
  qed
  with d'(1) have "dd_check_unique r h d = Ok (outside_window t log r h, d')" by simp
  moreover have "case dd_hash_max_round d' x of None \<Rightarrow> \<forall>r'. (r', x) \<in> set (log @ [(r, h)]) \<longrightarrow> r' + t \<le> r
        | Some m \<Rightarrow> (m, x) \<in> set (log @ [(r, h)]) \<and> (\<forall>k. (k, x) \<in> set (log @ [(r, h)]) \<longrightarrow> k \<le> m)" for x
    using seen [of x] inv(4) by (fastforce simp: d'(4) split: option.splits)
  then have "dd_inv t (log @ [(r, h)]) r d'"
    using inv d'(2,3,5) assms(4) unfolding dd_inv_def by auto
  ultimately show thesis using that by blast
qed

lemma dd_inv_clean:
  assumes "dd_inv t log now d" "1 \<le> t" "now \<le> r" "r < u32_max"
  obtains d' where "dd_clean r d = Ok d'" "dd_inv t log r d'" "length (dd_round_to_hashes d') \<le> t"
proof -
  from dd_inv_later [OF assms(1,3)] have inv: "dd_ok d" "dd_round_threshold d = t"
      "\<forall>k\<in>fst ` set (dd_round_to_hashes d). k \<le> r" "\<forall>e\<in>set log. 1 \<le> fst e \<and> fst e \<le> r"
      and seen: "\<And>h. case dd_hash_max_round d h of None \<Rightarrow> \<forall>r'. (r', h) \<in> set log \<longrightarrow> r' + t \<le> r
        | Some m \<Rightarrow> (m, h) \<in> set log \<and> (\<forall>r. (r, h) \<in> set log \<longrightarrow> r \<le> m)"
    unfolding dd_inv_def by auto
  obtain d' where d': "dd_clean r d = Ok d'" "dd_ok d'" "dd_round_threshold d' = dd_round_threshold d"
    "dd_round_to_hashes d' = filter (\<lambda>e. dd_bottom r (dd_round_threshold d) \<le> fst e) (dd_round_to_hashes d)"
    "dd_hash_max_round d' = (\<lambda>h. case dd_hash_max_round d h of None \<Rightarrow> None
       | Some m \<Rightarrow> if m < dd_bottom r (dd_round_threshold d) then None else Some m)"
    by (rule dd_clean_ok [OF inv(1)])
  have "case dd_hash_max_round d' h of None \<Rightarrow> \<forall>r'. (r', h) \<in> set log \<longrightarrow> r' + t \<le> r
        | Some m \<Rightarrow> (m, h) \<in> set log \<and> (\<forall>r. (r, h) \<in> set log \<longrightarrow> r \<le> m)" for h
  proof (cases "dd_hash_max_round d h")
    case (Some m)
    with seen [of h] inv(4) have m: "(m, h) \<in> set log" "\<forall>r. (r, h) \<in> set log \<longrightarrow> r \<le> m" "1 \<le> m" by force+
    have "r' + t \<le> r" if "m < r - t + 1" "(r', h) \<in> set log" for r' using m that by fastforce
    with m show ?thesis by (auto simp: d'(5) Some inv(2) dd_bottom_exact [OF assms(4)])
  qed (use seen [of h] in \<open>simp add: d'(5)\<close>)
  then have "dd_inv t log r d'" using inv d'(2-4) unfolding dd_inv_def by auto
  moreover have "length (dd_round_to_hashes d') \<le> t"
  proof -
    have "distinct (map fst (dd_round_to_hashes d'))" using d'(2) sorted_keys_distinct by (auto simp: dd_ok_def)
    moreover have "set (map fst (dd_round_to_hashes d')) \<subseteq> {r - t + 1 .. r}"
      using inv(2,3) by (auto simp: d'(4) dd_bottom_exact [OF assms(4)])
    ultimately have "length (map fst (dd_round_to_hashes d')) \<le> card {r - t + 1 .. r}"
      by (metis card_mono distinct_card finite_atLeastAtMost)
    then show ?thesis by simp
  qed
  ultimately show thesis using d'(1) that by blast
qed

text \<open>Checks and cleans in the order of rounds; rounds start at one.\<close>

inductive dd_life :: "nat \<Rightarrow> (round \<times> digest) list \<Rightarrow> round \<Rightarrow> deduplicator \<Rightarrow> bool" for t where
  fresh: "dd_life t [] 1 (dd_new t)"
| check: "dd_life t log now d \<Longrightarrow> now \<le> r \<Longrightarrow> r < u32_max \<Longrightarrow> dd_check_unique r h d = Ok (unique, d')
    \<Longrightarrow> dd_life t (log @ [(r, h)]) r d'"
| clean: "dd_life t log now d \<Longrightarrow> now \<le> r \<Longrightarrow> r < u32_max \<Longrightarrow> dd_clean r d = Ok d' \<Longrightarrow> dd_life t log r d'"

lemma dd_inv_new: "dd_inv t [] now (dd_new t)"
  by (simp add: dd_inv_def dd_ok_def dd_new_def)

lemma dd_life_inv:
  assumes "dd_life t log now d" "1 \<le> t"
  shows "dd_inv t log now d \<and> 1 \<le> now"
  using assms(1)
proof induction
  case (check log now d r h unique d')
  then have inv: "dd_inv t log now d" "1 \<le> r" by auto
  obtain d'' where "dd_check_unique r h d = Ok (outside_window t log r h, d'')" "dd_inv t (log @ [(r, h)]) r d''"
    by (rule dd_inv_check [OF inv(1) assms(2) check.hyps(2) inv(2) check.hyps(3)])
  with check.hyps(4) inv(2) show ?case by simp
next
  case (clean log now d r d')
  obtain d'' where "dd_clean r d = Ok d''" "dd_inv t log r d''" "length (dd_round_to_hashes d'') \<le> t"
    by (rule dd_inv_clean [OF conjunct1 [OF clean.IH] assms(2) clean.hyps(2,3)])
  with clean.hyps(2,4) clean.IH show ?case by simp
qed (simp add: dd_inv_new)

text \<open>
  C37. Deduplication is exact over a sliding window: when hashes are checked and old rounds cleaned in
  the order of rounds, no check and no clean panics, a hash is found unique if and only if it was not
  checked during the last \<open>t\<close> rounds including the current one, and a clean keeps at most \<open>t\<close> rounds
  in memory.
\<close>

theorem dedup_window:
  assumes "dd_life t log now d" "1 \<le> t" "now \<le> r" "r < u32_max"
  shows "(\<exists>d'. dd_check_unique r h d = Ok (\<forall>(r', h')\<in>set log. h' = h \<longrightarrow> r' + t \<le> r, d'))
    \<and> (\<exists>d'. dd_clean r d = Ok d' \<and> length (dd_round_to_hashes d') \<le> t)"
proof -
  from dd_life_inv [OF assms(1,2)] assms(3) have inv: "dd_inv t log now d" "1 \<le> r" by auto
  obtain d1 where d1: "dd_check_unique r h d = Ok (outside_window t log r h, d1)"
    by (rule dd_inv_check [OF inv(1) assms(2,3) inv(2) assms(4)])
  obtain d2 where "dd_clean r d = Ok d2" "length (dd_round_to_hashes d2) \<le> t"
    by (rule dd_inv_clean [OF inv(1) assms(2-4)])
  with d1 show ?thesis by (auto simp: outside_window_def case_prod_beta)
qed

theorem dedup_window_witness:
  "dd_life 3 [(5, 7)] 5 \<lparr>dd_hash_max_round = [7 \<mapsto> 5], dd_round_to_hashes = [(5, [7])], dd_round_threshold = 3\<rparr>
   \<and> (\<exists>d. dd_check_unique 7 7 \<lparr>dd_hash_max_round = [7 \<mapsto> 5], dd_round_to_hashes = [(5, [7])], dd_round_threshold = 3\<rparr> = Ok (False, d))
   \<and> (\<exists>d. dd_check_unique 8 7 \<lparr>dd_hash_max_round = [7 \<mapsto> 5], dd_round_to_hashes = [(5, [7])], dd_round_threshold = 3\<rparr> = Ok (True, d))"
proof -
  let ?d = "\<lparr>dd_hash_max_round = [7 \<mapsto> 5], dd_round_to_hashes = [(5, [7])], dd_round_threshold = 3\<rparr> :: deduplicator"
  have "dd_check_unique 5 7 (dd_new 3) = Ok (True, ?d)" by (simp add: dd_check_unique_def dd_new_def)
  from dd_life.check [OF dd_life.fresh, of 5, OF _ _ this] have life: "dd_life 3 [(5, 7)] 5 ?d" by (simp add: u32_max_def)
  from dedup_window [OF life, of 7 7] dedup_window [OF life, of 8 7] life show ?thesis by (simp add: u32_max_def)
qed

section \<open>Lists of messages\<close>

text \<open>What the stateful filter keeps, as a function of the log.\<close>

fun first_seen :: "nat \<Rightarrow> (round \<times> digest) list \<Rightarrow> round \<Rightarrow> ('x \<Rightarrow> digest) \<Rightarrow> 'x list \<Rightarrow> 'x list" where
  "first_seen t log r key [] = []"
| "first_seen t log r key (x # xs) =
     (if outside_window t log r (key x) then x # first_seen t (log @ [(r, key x)]) r key xs
      else first_seen t (log @ [(r, key x)]) r key xs)"

lemma dd_filter_first_seen:
  assumes "dd_inv t log now d" "1 \<le> t" "now \<le> r" "1 \<le> r" "r < u32_max"
  shows "\<exists>d'. dd_filter r key xs d = Ok (first_seen t log r key xs, d') \<and> dd_inv t (log @ map (\<lambda>x. (r, key x)) xs) r d'"
  using dd_inv_later [OF assms(1,3)]
proof (induction xs arbitrary: log d)
  case Nil
  then show ?case by simp
next
  case (Cons x xs)
  obtain d1 where d1: "dd_check_unique r (key x) d = Ok (outside_window t log r (key x), d1)" "dd_inv t (log @ [(r, key x)]) r d1"
    by (rule dd_inv_check [OF Cons.prems assms(2) order_refl assms(4,5)])
  from Cons.IH [OF d1(2)] d1(1) show ?case by auto
qed

lemma outside_window_snoc: "outside_window t (log @ [(r, k)]) r h \<longleftrightarrow> outside_window t log r h \<and> (k = h \<longrightarrow> t = 0)"
  by (auto simp: outside_window_def)

lemma first_seen_cong:
  "(\<And>h. outside_window t log r h \<longleftrightarrow> outside_window t log' r h) \<Longrightarrow> first_seen t log r key xs = first_seen t log' r key xs"
proof (induction xs arbitrary: log log')
  case (Cons x xs)
  have "first_seen t (log @ [(r, key x)]) r key xs = first_seen t (log' @ [(r, key x)]) r key xs"
    by (rule Cons.IH) (simp add: outside_window_snoc Cons.prems)
  with Cons.prems show ?case by simp
qed simp

lemma first_seen_sound:
  assumes "x \<in> set (first_seen t log r key xs)"
  shows "x \<in> set xs \<and> outside_window t log r (key x)"
  using assms
proof (induction xs arbitrary: log)
  case (Cons y xs)
  then consider "x = y" "outside_window t log r (key y)" | "x \<in> set (first_seen t (log @ [(r, key y)]) r key xs)"
    by (auto split: if_splits)
  then show ?case using Cons.IH [of "log @ [(r, key y)]"] by cases (auto simp: outside_window_snoc)
qed simp

lemma first_seen_distinct: "1 \<le> t \<Longrightarrow> distinct (map key (first_seen t log r key xs))"
proof (induction xs arbitrary: log)
  case (Cons x xs)
  have "key x \<notin> key ` set (first_seen t (log @ [(r, key x)]) r key xs)"
    using Cons.prems by (auto dest: first_seen_sound simp: outside_window_snoc)
  with Cons show ?case by auto
qed simp

lemma first_seen_all:
  "\<forall>x\<in>set xs. outside_window t log r (key x) \<Longrightarrow> distinct (map key xs) \<Longrightarrow> first_seen t log r key xs = xs"
proof (induction xs arbitrary: log)
  case (Cons x xs)
  have "first_seen t (log @ [(r, key x)]) r key xs = xs"
    by (rule Cons.IH) (use Cons.prems in \<open>auto simp: outside_window_snoc\<close>)
  with Cons.prems show ?case by simp
qed simp

section \<open>Parsing an anchor\<close>

definition prs_inv :: "nat \<Rightarrow> (round \<times> digest) list \<Rightarrow> (round \<times> digest) list \<Rightarrow> round \<Rightarrow> parser \<Rightarrow> bool" where
  "prs_inv t bl sl now p \<longleftrightarrow> dd_inv t bl now (prs_blake p) \<and> dd_inv t sl now (prs_sha p)"

lemma prs_inv_new: "prs_inv t [] [] now (prs_new t)"
  by (simp add: prs_inv_def prs_new_def dd_inv_new)

definition fresh_bytes :: "(byte list \<Rightarrow> digest) \<Rightarrow> nat \<Rightarrow> (round \<times> digest) list \<Rightarrow> round \<Rightarrow> byte list list \<Rightarrow> byte list list" where
  "fresh_bytes blake3 t bl r payloads = map snd (first_seen t bl r fst (prs_hashed blake3 payloads))"

abbreviation msg_hash :: "('c, 'i) cell_lib \<Rightarrow> ('c, 'i) external_message \<times> nat \<Rightarrow> digest" where
  "msg_hash lib m \<equiv> cl_repr_hash lib (em_cell (fst m))"

text \<open>Both logs after an anchor; a message enters the second one only when its bytes are fresh.\<close>

definition blake_log :: "(byte list \<Rightarrow> digest) \<Rightarrow> round \<Rightarrow> byte list list \<Rightarrow> (round \<times> digest) list" where
  "blake_log blake3 r payloads = map (\<lambda>x. (r, fst x)) (prs_hashed blake3 payloads)"

definition sha_log :: "('c, 'i) cell_lib \<Rightarrow> round \<Rightarrow> byte list list \<Rightarrow> (round \<times> digest) list" where
  "sha_log lib r fresh = map (\<lambda>m. (r, msg_hash lib m)) (prs_parsed lib fresh)"

lemma parse_unique_first_seen:
  assumes "prs_inv t bl sl now p" "1 \<le> t" "now \<le> r" "1 \<le> r" "r < u32_max"
  shows "\<exists>n p' p''. prs_parse_unique blake3 lib r payloads p
      = Ok ((map fst (first_seen t sl r (msg_hash lib) (prs_parsed lib (fresh_bytes blake3 t bl r payloads))), n), p')
    \<and> prs_clean r p' = Ok p''
    \<and> prs_inv t (bl @ blake_log blake3 r payloads) (sl @ sha_log lib r (fresh_bytes blake3 t bl r payloads)) r p''"
proof -
  let ?fresh = "fresh_bytes blake3 t bl r payloads"
  from assms(1) have inv: "dd_inv t bl now (prs_blake p)" "dd_inv t sl now (prs_sha p)" by (simp_all add: prs_inv_def)
  obtain b where b: "dd_filter r fst (prs_hashed blake3 payloads) (prs_blake p)
      = Ok (first_seen t bl r fst (prs_hashed blake3 payloads), b)" "dd_inv t (bl @ blake_log blake3 r payloads) r b"
    using dd_filter_first_seen [OF inv(1) assms(2-5)] unfolding blake_log_def by blast
  obtain s where s: "dd_filter r (msg_hash lib) (prs_parsed lib ?fresh) (prs_sha p)
      = Ok (first_seen t sl r (msg_hash lib) (prs_parsed lib ?fresh), s)" "dd_inv t (sl @ sha_log lib r ?fresh) r s"
    using dd_filter_first_seen [OF inv(2) assms(2-5)] unfolding sha_log_def by blast
  obtain b' where b': "dd_clean r b = Ok b'" "dd_inv t (bl @ blake_log blake3 r payloads) r b'"
    by (rule dd_inv_clean [OF b(2) assms(2) order_refl assms(5)])
  obtain s' where s': "dd_clean r s = Ok s'" "dd_inv t (sl @ sha_log lib r ?fresh) r s'"
    by (rule dd_inv_clean [OF s(2) assms(2) order_refl assms(5)])
  from b(1) s(1) b' s' show ?thesis
    by (simp add: prs_parse_unique_def prs_clean_def prs_inv_def fresh_bytes_def)
qed

text \<open>
  A message has one encoding when equal cells come from equally hashed bytes. Then the second filter
  never drops a message.
\<close>

definition one_encoding :: "(byte list \<Rightarrow> digest) \<Rightarrow> ('c, 'i) cell_lib \<Rightarrow> bool" where
  "one_encoding blake3 lib \<longleftrightarrow> (\<forall>x y m n. parse_message_bytes lib x = Some m \<longrightarrow> parse_message_bytes lib y = Some n
     \<longrightarrow> cl_repr_hash lib (em_cell m) = cl_repr_hash lib (em_cell n) \<longrightarrow> blake3 x = blake3 y)"

definition logs_linked :: "(byte list \<Rightarrow> digest) \<Rightarrow> ('c, 'i) cell_lib \<Rightarrow> (round \<times> digest) list \<Rightarrow> (round \<times> digest) list \<Rightarrow> bool" where
  "logs_linked blake3 lib bl sl \<longleftrightarrow> (\<forall>(r, s)\<in>set sl. \<exists>x m. parse_message_bytes lib x = Some m
     \<and> cl_repr_hash lib (em_cell m) = s \<and> (r, blake3 x) \<in> set bl)"

lemma in_ps_parsed: "m \<in> set (prs_parsed lib xs) \<longleftrightarrow> (\<exists>x\<in>set xs. parse_message_bytes lib x = Some (fst m) \<and> snd m = length x)"
  unfolding prs_parsed_def List.map_filter_def by (cases m) force

lemma in_ps_hashed: "e \<in> set (prs_hashed blake3 payloads) \<Longrightarrow> fst e = blake3 (snd e)"
  unfolding prs_hashed_def List.map_filter_def by (auto split: if_splits)

lemma fresh_bytes_sound:
  assumes "x \<in> set (fresh_bytes blake3 t bl r payloads)"
  shows "outside_window t bl r (blake3 x)" "(r, blake3 x) \<in> set (blake_log blake3 r payloads)"
proof -
  from assms obtain e where e: "e \<in> set (first_seen t bl r fst (prs_hashed blake3 payloads))" "snd e = x"
    unfolding fresh_bytes_def by auto
  from first_seen_sound [OF e(1)] in_ps_hashed [of e] e(2)
  show "outside_window t bl r (blake3 x)" "(r, blake3 x) \<in> set (blake_log blake3 r payloads)"
    unfolding blake_log_def by force+
qed

lemma fresh_bytes_distinct: "1 \<le> t \<Longrightarrow> distinct (map blake3 (fresh_bytes blake3 t bl r payloads))"
proof -
  assume "1 \<le> t"
  have "map fst (first_seen t bl r fst (prs_hashed blake3 payloads)) = map blake3 (fresh_bytes blake3 t bl r payloads)"
    unfolding fresh_bytes_def by (auto dest: first_seen_sound in_ps_hashed)
  with first_seen_distinct [OF \<open>1 \<le> t\<close>, of fst bl r "prs_hashed blake3 payloads"] show ?thesis by simp
qed

lemma logs_linked_step:
  "logs_linked blake3 lib bl sl \<Longrightarrow>
   logs_linked blake3 lib (bl @ blake_log blake3 r payloads) (sl @ sha_log lib r (fresh_bytes blake3 t bl r payloads))"
  unfolding logs_linked_def sha_log_def by (fastforce simp: in_ps_parsed dest: fresh_bytes_sound(2))

lemma parsed_distinct:
  assumes "one_encoding blake3 lib" "distinct (map blake3 xs)"
  shows "distinct (map (msg_hash lib) (prs_parsed lib xs))"
  using assms(2)
proof (induction xs)
  case (Cons x xs)
  show ?case
  proof (cases "parse_message_bytes lib x")
    case (Some m)
    have "cl_repr_hash lib (em_cell m) \<noteq> msg_hash lib n" if "n \<in> set (prs_parsed lib xs)" for n
    proof -
      from that obtain y where "y \<in> set xs" "parse_message_bytes lib y = Some (fst n)" by (auto simp: in_ps_parsed)
      with assms(1) Some Cons.prems show ?thesis unfolding one_encoding_def by (metis image_eqI list.set_map distinct.simps(2) list.simps(9))
    qed
    with Cons Some show ?thesis by (auto simp: prs_parsed_def)
  qed (use Cons in \<open>simp add: prs_parsed_def\<close>)
qed (simp add: prs_parsed_def)

lemma sha_filter_inert:
  assumes "one_encoding blake3 lib" "logs_linked blake3 lib bl sl" "1 \<le> t"
  shows "first_seen t sl r (msg_hash lib) (prs_parsed lib (fresh_bytes blake3 t bl r payloads))
    = prs_parsed lib (fresh_bytes blake3 t bl r payloads)"
proof (rule first_seen_all)
  show "distinct (map (msg_hash lib) (prs_parsed lib (fresh_bytes blake3 t bl r payloads)))"
    by (rule parsed_distinct [OF assms(1) fresh_bytes_distinct [OF assms(3)]])
  show "\<forall>m\<in>set (prs_parsed lib (fresh_bytes blake3 t bl r payloads)). outside_window t sl r (msg_hash lib m)"
  proof
    fix m
    assume "m \<in> set (prs_parsed lib (fresh_bytes blake3 t bl r payloads))"
    then obtain x where x: "x \<in> set (fresh_bytes blake3 t bl r payloads)" "parse_message_bytes lib x = Some (fst m)"
      by (auto simp: in_ps_parsed)
    have "r' + t \<le> r" if "(r', msg_hash lib m) \<in> set sl" for r'
    proof -
      from assms(2) that obtain y n where "parse_message_bytes lib y = Some n" "cl_repr_hash lib (em_cell n) = msg_hash lib m"
        "(r', blake3 y) \<in> set bl" unfolding logs_linked_def by fastforce
      with assms(1) x(2) have "(r', blake3 x) \<in> set bl" unfolding one_encoding_def by metis
      with fresh_bytes_sound(1) [OF x(1)] show ?thesis unfolding outside_window_def by force
    qed
    then show "outside_window t sl r (msg_hash lib m)" by (auto simp: outside_window_def)
  qed
qed

text \<open>Logs that agree from a round on give the same fresh bytes once the window lies above it.\<close>

lemma fresh_bytes_agree:
  assumes "\<forall>e. b \<le> fst e \<longrightarrow> (e \<in> set bl \<longleftrightarrow> e \<in> set bl')" "b + t \<le> r"
  shows "fresh_bytes blake3 t bl r payloads = fresh_bytes blake3 t bl' r payloads"
proof -
  have "outside_window t bl r h \<longleftrightarrow> outside_window t bl' r h" for h
    unfolding outside_window_def using assms by (meson add_le_cancel_right le_trans nle_le)
  then show ?thesis unfolding fresh_bytes_def by (simp cong: first_seen_cong)
qed

end
