(* ===== verification/Mempool_Store.thy ===== *)
theory Mempool_Store
  imports Point_Status Mempool_Config "HOL-Library.List_Lexorder"
begin

text \<open>
  The mempool database: \<^verbatim>\<open>consensus/src/effects/store.rs\<close> and \<^verbatim>\<open>storage/src/store/mempool/mod.rs\<close>.

  A column family of the database is a map in the order of byte keys, as its iterators document. The
  statuses of a key are the value and the merge operands written after it, oldest first; a read merges
  them. The serialization of points, generated from their declaration, is a record of parameters.
  Errors of the database itself, metrics and compaction are left out.

  The lemmas show that keys are ordered as rounds and digests are, so that every range of prefixes is a
  range of rounds; that the payloads of a history are returned in the order of the history; and what a
  clean deletes and keeps.
\<close>

section \<open>Keys\<close>

type_synonym db_key = "byte list"

definition fill_key :: "round \<Rightarrow> digest \<Rightarrow> db_key" where
  "fill_key round dg = u32_be round @ be_bytes 32 dg"

text \<open>The prefix is written into a zeroed key.\<close>

definition fill_prefix :: "round \<Rightarrow> db_key" where
  "fill_prefix round = u32_be round @ replicate 32 0"

definition parse_round :: "byte list \<Rightarrow> round option" where
  "parse_round bytes = (if length bytes < 4 then None else Some (be_nat (take 4 bytes)))"

section \<open>Tables\<close>

record status_cell =
  sc_value :: "byte list option"
  sc_operands :: "byte list list"

record mempool_db =
  mdb_points :: "(db_key, byte list) bmap"
  mdb_points_info :: "(db_key, byte list) bmap"
  mdb_points_status :: "(db_key, status_cell) bmap"
  mdb_default :: "byte list list"

definition mdb_empty :: mempool_db where
  "mdb_empty = \<lparr>mdb_points = [], mdb_points_info = [], mdb_points_status = [], mdb_default = []\<rparr>"

text \<open>What the generated serialization provides.\<close>

record point_tl =
  tl_info_write :: "point_info \<Rightarrow> byte list"
  tl_info_read :: "byte list \<Rightarrow> point_info option"
  tl_point_read :: "byte list \<Rightarrow> (unit, point_read) outcome"
  tl_payload_read :: "byte list \<Rightarrow> byte list list option"

definition merge_cf :: "db_key \<Rightarrow> byte list \<Rightarrow> (db_key, status_cell) bmap \<Rightarrow> (db_key, status_cell) bmap" where
  "merge_cf key operand table =
     bm_insert key (case bm_get table key of
         None \<Rightarrow> \<lparr>sc_value = None, sc_operands = [operand]\<rparr>
       | Some cell \<Rightarrow> cell\<lparr>sc_operands := sc_operands cell @ [operand]\<rparr>) table"

definition read_status :: "status_cell \<Rightarrow> byte list" where
  "read_status cell =
     (if sc_operands cell = [] then (case sc_value cell of None \<Rightarrow> [] | Some v \<Rightarrow> v)
      else (case status_merge (sc_value cell) (sc_operands cell) of None \<Rightarrow> [] | Some v \<Rightarrow> v))"

text \<open>Entries from one key up to another, exclusive.\<close>

definition cf_range :: "db_key \<Rightarrow> db_key \<Rightarrow> (db_key, 'v) bmap \<Rightarrow> (db_key, 'v) bmap" where
  "cf_range lower upper table = filter (\<lambda>e. lower \<le> fst e \<and> fst e < upper) table"

definition cf_delete_range :: "db_key \<Rightarrow> db_key \<Rightarrow> (db_key, 'v) bmap \<Rightarrow> (db_key, 'v) bmap" where
  "cf_delete_range lower upper table = filter (\<lambda>e. \<not> (lower \<le> fst e \<and> fst e < upper)) table"

section \<open>Writes\<close>

definition ms_insert_point :: "point_tl \<Rightarrow> point \<Rightarrow> status_stored \<Rightarrow> mempool_db \<Rightarrow> mempool_db" where
  "ms_insert_point lib point status db =
     (let key = fill_key (pi_round (pt_info point)) (pi_digest (pt_info point))
      in db\<lparr>mdb_points := bm_insert key (pt_serialized point) (mdb_points db),
            mdb_points_info := bm_insert key (tl_info_write lib (pt_info point)) (mdb_points_info db),
            mdb_points_status := merge_cf key (status_encode status) (mdb_points_status db)\<rparr>)"

definition ms_set_status :: "round \<Rightarrow> digest \<Rightarrow> status_stored \<Rightarrow> mempool_db \<Rightarrow> mempool_db" where
  "ms_set_status round dg status db =
     db\<lparr>mdb_points_status := merge_cf (fill_key round dg) (status_encode status) (mdb_points_status db)\<rparr>"

definition ms_set_committed :: "point_info \<Rightarrow> point_info list \<Rightarrow> mempool_db \<Rightarrow> mempool_db" where
  "ms_set_committed anchor history db =
     (let status_encoded = sv_encode (sv_default\<lparr>sv_committed_at_round := Some (pi_round anchor)\<rparr>)
      in db\<lparr>mdb_points_status :=
           fold (\<lambda>info. merge_cf (fill_key (pi_round info) (pi_digest info)) status_encoded) history
             (mdb_points_status db)\<rparr>)"

definition ms_reset_statuses :: "round \<Rightarrow> round \<Rightarrow> mempool_db \<Rightarrow> (unit, mempool_db) outcome" where
  "ms_reset_statuses from_round to_round db =
     bindR (round_next to_round) (\<lambda>after.
       let start = fill_prefix from_round;
           end_excl = fill_prefix after;
           keys = map fst (cf_range start end_excl (mdb_points_status db))
       in Ok (db\<lparr>mdb_points_status :=
            fold (\<lambda>k. bm_insert k \<lparr>sc_value = Some [], sc_operands = []\<rparr>) keys
              (cf_delete_range start end_excl (mdb_points_status db))\<rparr>))"

text \<open>Returns the first and the last round of the deleted statuses.\<close>

definition ms_clean :: "db_key \<Rightarrow> mempool_db \<Rightarrow> (round \<times> round) option \<times> mempool_db" where
  "ms_clean up_to_exclusive db =
     (let found = filter (\<lambda>e. fst e < up_to_exclusive) (mdb_points_status db);
          shown = (\<lambda>key. case parse_round key of None \<Rightarrow> 0 | Some r \<Rightarrow> r);
          bounds = (if found = [] then None else Some (shown (fst (hd found)), shown (fst (last found))));
          zero = replicate 36 0
      in (bounds, db\<lparr>mdb_points_status := cf_delete_range zero up_to_exclusive (mdb_points_status db),
            mdb_points_info := cf_delete_range zero up_to_exclusive (mdb_points_info db),
            mdb_points := cf_delete_range zero up_to_exclusive (mdb_points db)\<rparr>))"

definition ms_has_compatible_data :: "byte list \<Rightarrow> mempool_db \<Rightarrow> bool \<times> mempool_db" where
  "ms_has_compatible_data data_version db =
     (let has_same = data_version \<in> set (mdb_default db);
          other_values = filter (\<lambda>k. k \<noteq> data_version) (mdb_default db)
      in if has_same \<and> other_values = [] then (True, db)
         else (False, db\<lparr>mdb_default := [data_version]\<rparr>))"

definition ms_init_storage :: "byte list \<Rightarrow> mempool_db \<Rightarrow> mempool_db" where
  "ms_init_storage overlay_id db =
     (let (compatible, db) = ms_has_compatible_data overlay_id db
      in if compatible then db else snd (ms_clean (replicate 36 255) db))"

section \<open>Reads\<close>

datatype store_error = DbNotFound | DbDeserialize | DbNotSorted | DbEmpty | DbMissing nat | DbCollision | DbZeroRound | DbBadKey

definition ms_get_point_raw :: "round \<Rightarrow> digest \<Rightarrow> mempool_db \<Rightarrow> byte list option" where
  "ms_get_point_raw round dg db = bm_get (mdb_points db) (fill_key round dg)"

definition ms_get_point :: "point_tl \<Rightarrow> round \<Rightarrow> digest \<Rightarrow> mempool_db \<Rightarrow> (unit, point option) outcome" where
  "ms_get_point lib round dg db =
     (case bm_get (mdb_points db) (fill_key round dg) of
        None \<Rightarrow> Ok None
      | Some bytes \<Rightarrow> bindR (point_from_bytes (tl_point_read lib) bytes) (\<lambda>p. Ok (Some p)))"

definition ms_get_info :: "point_tl \<Rightarrow> round \<Rightarrow> digest \<Rightarrow> mempool_db \<Rightarrow> (store_error, point_info option) outcome" where
  "ms_get_info lib round dg db =
     (case bm_get (mdb_points_info db) (fill_key round dg) of
        None \<Rightarrow> Ok None
      | Some bytes \<Rightarrow> (case tl_info_read lib bytes of None \<Rightarrow> Err DbDeserialize | Some info \<Rightarrow> Ok (Some info)))"

definition ms_get_status :: "round \<Rightarrow> digest \<Rightarrow> mempool_db \<Rightarrow> (nat \<times> byte, status_stored option) outcome" where
  "ms_get_status round dg db =
     (case bm_get (mdb_points_status db) (fill_key round dg) of
        None \<Rightarrow> Ok None
      | Some cell \<Rightarrow> bindR (status_decode (read_status cell)) (\<lambda>st. Ok (Some st)))"

definition ms_multi_get_info :: "point_tl \<Rightarrow> (round \<times> digest) list \<Rightarrow> mempool_db \<Rightarrow> (store_error, point_info list) outcome" where
  "ms_multi_get_info lib keys db =
     (let key_bytes = map (\<lambda>(round, dg). fill_key round dg) keys
      in if \<not> sorted key_bytes then Err DbNotSorted
         else mapR (\<lambda>key.
           case bm_get (mdb_points_info db) key of
             None \<Rightarrow> Err DbNotFound
           | Some bytes \<Rightarrow> (case tl_info_read lib bytes of None \<Rightarrow> Err DbDeserialize | Some info \<Rightarrow> Ok info)) key_bytes)"

text \<open>
  The scan takes searched keys out of a set and stops when none is left; the result follows the order
  of the history.
\<close>

fun expand_scan ::
  "point_tl \<Rightarrow> db_key list \<Rightarrow> (db_key, byte list) bmap \<Rightarrow> (db_key \<rightharpoonup> byte list list)
   \<Rightarrow> (store_error, db_key list \<times> (db_key \<rightharpoonup> byte list list)) outcome" where
  "expand_scan lib keys [] found = Ok (keys, found)"
| "expand_scan lib keys ((key, bytes) # rest) found =
     bindR (if key \<in> set keys
            then (case tl_payload_read lib bytes of
                    None \<Rightarrow> Err DbDeserialize
                  | Some payload \<Rightarrow> if found key \<noteq> None then Panic
                                    else Ok (removeAll key keys, found(key \<mapsto> payload)))
            else Ok (keys, found)) (\<lambda>(keys, found).
       if keys = [] then Ok (keys, found) else expand_scan lib keys rest found)"

fun expand_collect :: "db_key list \<Rightarrow> (db_key \<rightharpoonup> byte list list) \<Rightarrow> (store_error, byte list list) outcome" where
  "expand_collect [] found = Ok []"
| "expand_collect (key # rest) found =
     (case found key of
        None \<Rightarrow> Err DbNotFound
      | Some payload \<Rightarrow> bindR (expand_collect rest (found(key := None))) (\<lambda>more. Ok (payload @ more)))"

definition ms_expand_anchor_history ::
  "point_tl \<Rightarrow> point_info list \<Rightarrow> mempool_db \<Rightarrow> (store_error, byte list list) outcome" where
  "ms_expand_anchor_history lib history db =
     (let key_of = (\<lambda>info. fill_key (pi_round info) (pi_digest info));
          keys = remdups (map key_of history)
      in if history = [] then Err DbEmpty
         else bindR (round_next (pi_round (last history))) (\<lambda>after.
           bindR (expand_scan lib keys
               (cf_range (fill_prefix (pi_round (hd history))) (fill_prefix after) (mdb_points db)) Map.empty)
             (\<lambda>(missing, found).
               if missing \<noteq> [] then Err (DbMissing (length missing))
               else if length keys \<noteq> length history then Err DbCollision
               else expand_collect (map key_of history) found)))"

definition ms_last_round :: "mempool_db \<Rightarrow> (store_error, round) outcome" where
  "ms_last_round db =
     (if mdb_points_status db = [] then Err DbEmpty
      else let round = be_nat (take 4 (fst (last (mdb_points_status db))))
           in if round > 0 then Ok round else Err DbZeroRound)"

datatype point_restore_select = NeedsVerify round digest | ReadyRestore point_restore

definition restore_one ::
  "point_tl \<Rightarrow> mempool_db \<Rightarrow> db_key \<times> status_cell \<Rightarrow> (store_error, point_restore_select) outcome" where
  "restore_one lib db e =
     (case e of (key, cell) \<Rightarrow>
        if length key \<noteq> 36 then Err DbBadKey
        else
          let round = be_nat (take 4 key);
              dg = word_of_nat (be_nat (drop 4 key));
              get_value = (case bm_get (mdb_points_info db) key of
                             None \<Rightarrow> Err DbNotFound
                           | Some bytes \<Rightarrow> (case tl_info_read lib bytes of
                                             None \<Rightarrow> Err DbDeserialize | Some info \<Rightarrow> Ok info))
          in (case status_decode (read_status cell) of
                Ok StExists \<Rightarrow> Ok (NeedsVerify round dg)
              | Ok (StNotFound status) \<Rightarrow> Ok (ReadyRestore (ReNotFound round dg status))
              | Ok (StValidated status) \<Rightarrow> bindR get_value (\<lambda>info. Ok (ReadyRestore (ReValidated info status)))
              | Ok (StIllFormed status) \<Rightarrow> bindR get_value (\<lambda>info. Ok (ReadyRestore (ReIllFormed (pi_id info) status)))
              | _ \<Rightarrow> Err DbDeserialize))"

definition ms_load_restore ::
  "point_tl \<Rightarrow> round \<Rightarrow> round \<Rightarrow> mempool_db \<Rightarrow> (store_error, point_restore_select list) outcome" where
  "ms_load_restore lib from_round to_round db =
     bindR (round_next to_round) (\<lambda>after.
       mapR (restore_one lib db) (cf_range (fill_prefix from_round) (fill_prefix after) (mdb_points_status db)))"

section \<open>Cleaner\<close>

definition least_to_keep :: "nat \<Rightarrow> round \<Rightarrow> round \<Rightarrow> round \<Rightarrow> mempool_config \<Rightarrow> round" where
  "least_to_keep clean_db_period_rounds consensus committed top_known_anchor conf =
     (let least = min (round_sub committed (reset_rounds (mc_consensus conf)))
                      (round_sub (max consensus top_known_anchor) (max_total_rounds (mc_consensus conf)));
          remainder = least mod clean_db_period_rounds
      in max (mc_genesis_round conf) (round_sub least remainder))"

text \<open>
  One turn of the cleaning task after one of the three watched rounds has changed; the state is the
  last bound that was cleaned.
\<close>

definition cleaner_turn ::
  "nat \<Rightarrow> mempool_config \<Rightarrow> round \<Rightarrow> round \<Rightarrow> round \<Rightarrow> round \<times> mempool_db \<Rightarrow> round \<times> mempool_db" where
  "cleaner_turn period conf consensus committed top_known s =
     (let new_least_to_keep = least_to_keep period consensus committed top_known conf
      in if fst s < new_least_to_keep
         then (new_least_to_keep, snd (ms_clean (fill_prefix new_least_to_keep) (snd s)))
         else s)"

section \<open>Order of keys\<close>

lemma be_nat_append: "be_nat (as @ bs) = be_nat as * 256 ^ length bs + be_nat bs"
proof -
  have "be_nat (as @ bs) = fold (\<lambda>b acc. acc * 256 + unat b) bs (be_nat as)" by (simp add: be_nat_def)
  then show ?thesis by (simp add: be_nat_from)
qed

lemma digit_order:
  fixes a b x y m :: nat
  assumes "x < m" "y < m"
  shows "a * m + x < b * m + y \<longleftrightarrow> a < b \<or> a = b \<and> x < y"
proof -
  have "a * m + x < b * m + y" if "a < b"
  proof -
    have "Suc a * m \<le> b * m" using that by (intro mult_le_mono1) simp
    with assms show ?thesis by simp
  qed
  moreover have "\<not> a * m + x < b * m + y" if "b < a"
  proof -
    have "Suc b * m \<le> a * m" using that by (intro mult_le_mono1) simp
    with assms show ?thesis by simp
  qed
  ultimately show ?thesis by (cases a b rule: linorder_cases) auto
qed

lemma bytes_less_be_nat: "length as = length bs \<Longrightarrow> as < bs \<longleftrightarrow> be_nat as < be_nat (bs :: byte list)"
proof (induction as bs rule: list_induct2)
  case (Cons a as b bs)
  then show ?case
    using digit_order [OF be_nat_less [of as], of "be_nat bs" "unat a" "unat b"] be_nat_less [of bs]
    by (simp add: be_nat_Cons word_less_nat_alt word_unat_eq_iff)
qed simp

lemma length_fill [simp]: "length (fill_key r d) = 36" "length (fill_prefix r) = 36"
  by (simp_all add: fill_key_def fill_prefix_def)

lemma be_nat_fill:
  assumes "r \<le> u32_max"
  shows "be_nat (fill_key r d) = r * 256 ^ 32 + unat d" "be_nat (fill_prefix r) = r * 256 ^ 32"
proof -
  have "r < 2 ^ 32" using assms by (simp add: u32_max_def)
  moreover have "unat d < 256 ^ 32" using unsigned_less [of d, where ?'a = nat] by simp
  moreover have "be_nat (replicate n 0) = 0" for n by (induction n) (simp_all add: be_nat_Cons, simp add: be_nat_def)
  ultimately show "be_nat (fill_key r d) = r * 256 ^ 32 + unat d" "be_nat (fill_prefix r) = r * 256 ^ 32"
    by (simp_all add: fill_key_def fill_prefix_def be_nat_append be_nat_u32 be_nat_be_bytes)
qed

lemma fill_order:
  assumes "r \<le> u32_max" "r' \<le> u32_max"
  shows "fill_key r d < fill_key r' d' \<longleftrightarrow> r < r' \<or> r = r' \<and> d < d'"
    and "fill_prefix r \<le> fill_key r' d' \<longleftrightarrow> r \<le> r'" and "fill_key r d < fill_prefix r' \<longleftrightarrow> r < r'"
    and "fill_key r d = fill_key r' d' \<longleftrightarrow> r = r' \<and> d = d'"
proof -
  have u: "unat (x :: digest) < 256 ^ 32" for x using unsigned_less [of x, where ?'a = nat] by simp
  show "fill_key r d < fill_key r' d' \<longleftrightarrow> r < r' \<or> r = r' \<and> d < d'"
    using digit_order [OF u [of d] u [of d'], of r r'] assms by (simp add: bytes_less_be_nat be_nat_fill word_less_nat_alt)
  show lt: "fill_key r d < fill_prefix r' \<longleftrightarrow> r < r'"
    using digit_order [OF u [of d], of 0 r r'] assms by (simp add: bytes_less_be_nat be_nat_fill)
  show "fill_prefix r \<le> fill_key r' d' \<longleftrightarrow> r \<le> r'"
    using digit_order [OF u [of d'], of 0 r' r] assms by (simp add: bytes_less_be_nat be_nat_fill flip: linorder_not_less)
  show "fill_key r d = fill_key r' d' \<longleftrightarrow> r = r' \<and> d = d'"
  proof
    assume eq: "fill_key r d = fill_key r' d'"
    then have "be_nat (fill_key r d) = be_nat (fill_key r' d')" by simp
    then have "r * 256 ^ 32 + unat d = r' * 256 ^ 32 + unat d'" using assms by (simp add: be_nat_fill)
    with digit_order [OF u [of d] u [of d'], of r r'] digit_order [OF u [of d'] u [of d], of r' r]
    show "r = r' \<and> d = d'" by (auto simp: word_unat_eq_iff)
  qed simp
qed

section \<open>Reading a history\<close>

lemma expand_scan_finds:
  assumes "distinct (map fst table)" "\<forall>k\<in>set keys. \<exists>bytes. (k, bytes) \<in> set table \<and> tl_payload_read lib bytes = Some (pl k)"
    and "\<forall>k\<in>set keys. found k = None"
  shows "expand_scan lib keys table found = Ok ([], \<lambda>k. if k \<in> set keys then Some (pl k) else found k)"
  using assms
proof (induction table arbitrary: keys found)
  case Nil
  then show ?case by (cases keys) auto
next
  case (Cons e rest)
  obtain key bytes where e: "e = (key, bytes)" by (cases e)
  have notin: "key \<notin> fst ` set rest" using Cons.prems(1) e by simp
  have rest: "expand_scan lib keys' rest found' = Ok ([], \<lambda>k. if k \<in> set keys' then Some (pl k) else found' k)"
    if "set keys' = set keys - {key}" "\<forall>k\<in>set keys'. found' k = None" for keys' found'
  proof (rule Cons.IH)
    show "\<forall>k\<in>set keys'. \<exists>bytes. (k, bytes) \<in> set rest \<and> tl_payload_read lib bytes = Some (pl k)"
      using Cons.prems(2) that(1) e by (metis DiffD1 DiffD2 prod.inject set_ConsD singletonI)
  qed (use Cons.prems(1) that in auto)
  show ?case
  proof (cases "key \<in> set keys")
    case True
    with Cons.prems(2) e notin have "tl_payload_read lib bytes = Some (pl key)" by force
    moreover have "k = key" if "removeAll key keys = []" "k \<in> set keys" for k
      using set_removeAll [of key keys] that by auto
    ultimately show ?thesis
      using True Cons.prems(3) rest [of "removeAll key keys" "found(key \<mapsto> pl key)"] e by (auto simp: fun_eq_iff)
  next
    case False
    with rest [of keys found] Cons.prems(3) e show ?thesis by (cases keys) (auto simp: fun_eq_iff)
  qed
qed

lemma expand_collect_all:
  "distinct keys \<Longrightarrow> \<forall>k\<in>set keys. found k = Some (pl k) \<Longrightarrow> expand_collect keys found = Ok (concat (map pl keys))"
proof (induction keys arbitrary: found)
  case (Cons k keys)
  have "expand_collect keys (found(k := None)) = Ok (concat (map pl keys))"
    by (rule Cons.IH) (use Cons.prems in auto)
  with Cons.prems show ?case by simp
qed simp

definition info_key :: "point_info \<Rightarrow> db_key" where
  "info_key i = fill_key (pi_round i) (pi_digest i)"

lemma expand_history:
  assumes "bm_wf (mdb_points db)" "history \<noteq> []" "sorted (map pi_round history)" "pi_round (last history) < u32_max"
    and "distinct (map (\<lambda>i. (pi_round i, pi_digest i)) history)"
    and stored: "\<forall>i\<in>set history. \<exists>bytes. ms_get_point_raw (pi_round i) (pi_digest i) db = Some bytes
      \<and> tl_payload_read lib bytes = Some (payload i)"
  shows "ms_expand_anchor_history lib history db = Ok (concat (map payload history))"
proof -
  let ?hi = "Suc (pi_round (last history))" and ?lo = "pi_round (hd history)"
  let ?table = "cf_range (fill_prefix ?lo) (fill_prefix ?hi) (mdb_points db)"
  have round: "pi_round i \<le> pi_round (last history)" "?lo \<le> pi_round i" if "i \<in> set history" for i
  proof -
    from that obtain j where j: "j < length history" "i = history ! j" by (metis in_set_conv_nth)
    with sorted_nth_mono [OF assms(3), of j "length history - 1"] sorted_nth_mono [OF assms(3), of 0 j] assms(2)
    show "pi_round i \<le> pi_round (last history)" "?lo \<le> pi_round i"
      by (auto simp: last_conv_nth hd_conv_nth)
  qed
  have bound: "pi_round i \<le> u32_max" if "i \<in> set history" for i using round(1) [OF that] assms(4) by simp
  have keys: "distinct (map info_key history)"
    using assms(5) bound by (auto simp: distinct_map inj_on_def info_key_def fill_order(4))
  define pl where "pl k = payload (the_inv_into (set history) info_key k)" for k
  have pl: "pl (info_key i) = payload i" if "i \<in> set history" for i
    using keys that by (simp add: pl_def distinct_map the_inv_into_f_f)
  have table: "distinct (map fst ?table)"
    using bm_wf_distinct [OF assms(1)] by (simp add: cf_range_def distinct_map_filter)
  have found: "\<exists>bytes. (k, bytes) \<in> set ?table \<and> tl_payload_read lib bytes = Some (pl k)" if "k \<in> set (map info_key history)" for k
  proof -
    from that obtain i where i: "i \<in> set history" "k = info_key i" by auto
    with stored obtain bytes where b: "(k, bytes) \<in> set (mdb_points db)" "tl_payload_read lib bytes = Some (pl k)"
      by (auto simp: ms_get_point_raw_def info_key_def [symmetric] bm_get_def pl dest: map_of_SomeD)
    have "fill_prefix ?lo \<le> k" "k < fill_prefix ?hi"
      using round [OF i(1)] bound [OF i(1)] assms(2,4) unfolding i(2) info_key_def
      by (simp_all add: fill_order)
    with b show ?thesis by (auto simp: cf_range_def)
  qed
  have "expand_scan lib (map info_key history) ?table Map.empty
      = Ok ([], \<lambda>k. if k \<in> set (map info_key history) then Some (pl k) else None)"
    by (rule expand_scan_finds [OF table]) (use found in auto)
  moreover have "expand_collect (map info_key history) (\<lambda>k. if k \<in> set (map info_key history) then Some (pl k) else None)
      = Ok (concat (map pl (map info_key history)))"
    by (rule expand_collect_all [OF keys]) auto
  moreover have "map pl (map info_key history) = map payload history" using pl by simp
  ultimately show ?thesis
    using assms(2,4) keys unfolding ms_expand_anchor_history_def info_key_def [symmetric]
    by (simp add: distinct_remdups_id round_next_lt del: map_map)
qed

text \<open>
  C38. The payload of an anchor: for a history in historical order without repetitions, all of whose
  points are stored, the scan of the database returns the payloads of the points in the order of the
  history, each of them whole and once.
\<close>

theorem history_payload:
  assumes "bm_wf (mdb_points db)" "history \<noteq> []" "sorted (map pi_round history)" "pi_round (last history) < u32_max"
    and "distinct (map (\<lambda>i. (pi_round i, pi_digest i)) history)"
    and stored: "\<forall>i\<in>set history. \<exists>bytes. ms_get_point_raw (pi_round i) (pi_digest i) db = Some bytes
      \<and> tl_payload_read lib bytes = Some (payload i)"
  shows "ms_expand_anchor_history lib history db = Ok (concat (map payload history))"
  by (rule expand_history [OF assms])

section \<open>Cleaning\<close>

text \<open>All keys are made of rounds and digests.\<close>

definition keyed :: "(db_key, 'v) bmap \<Rightarrow> bool" where
  "keyed table \<longleftrightarrow> bm_wf table \<and> (\<forall>k\<in>set (bm_keys table). \<exists>r d. r \<le> u32_max \<and> k = fill_key r d)"

definition db_wf :: "mempool_db \<Rightarrow> bool" where
  "db_wf db \<longleftrightarrow> keyed (mdb_points db) \<and> keyed (mdb_points_info db) \<and> keyed (mdb_points_status db)"

lemma zero_least: "length k = 36 \<Longrightarrow> replicate 36 0 \<le> (k :: byte list)"
proof -
  assume len: "length k = 36"
  have "be_nat (replicate n 0) = 0" for n by (induction n) (simp_all add: be_nat_Cons, simp add: be_nat_def)
  with bytes_less_be_nat [of k "replicate 36 0"] len show ?thesis by (simp add: not_less [symmetric])
qed

lemma delete_below:
  assumes "keyed table" "b \<le> u32_max" "r \<le> u32_max"
  shows "bm_get (cf_delete_range (replicate 36 0) (fill_prefix b) table) (fill_key r d)
      = (if r < b then None else bm_get table (fill_key r d))"
    and "keyed (cf_delete_range (replicate 36 0) (fill_prefix b) table)"
proof -
  have get: "bm_get (filter (\<lambda>e. P (fst e)) m) k = (if P k then bm_get m k else None)" for P k and m :: "(db_key, 'a) bmap"
    unfolding bm_get_def by (induction m) auto
  show "bm_get (cf_delete_range (replicate 36 0) (fill_prefix b) table) (fill_key r d)
      = (if r < b then None else bm_get table (fill_key r d))"
    unfolding cf_delete_range_def get [of "\<lambda>k. \<not> (replicate 36 0 \<le> k \<and> k < fill_prefix b)"]
    using zero_least [of "fill_key r d"] fill_order(3) [OF assms(3,2)] by simp
  show "keyed (cf_delete_range (replicate 36 0) (fill_prefix b) table)"
    using assms(1) unfolding keyed_def cf_delete_range_def bm_wf_def bm_keys_def
    by (auto simp: sorted_wrt_map sorted_wrt_filter)
qed

lemma clean_exact:
  assumes "db_wf db" "b \<le> u32_max" "r \<le> u32_max"
  shows "ms_get_point_raw r d (snd (ms_clean (fill_prefix b) db)) = (if r < b then None else ms_get_point_raw r d db)"
    and "ms_get_info lib r d (snd (ms_clean (fill_prefix b) db)) = (if r < b then Ok None else ms_get_info lib r d db)"
    and "ms_get_status r d (snd (ms_clean (fill_prefix b) db)) = (if r < b then Ok None else ms_get_status r d db)"
    and "db_wf (snd (ms_clean (fill_prefix b) db))"
  using assms(1)
  by (simp_all add: delete_below [OF _ assms(2,3)] db_wf_def ms_clean_def Let_def ms_get_point_raw_def ms_get_info_def
      ms_get_status_def)

lemma least_to_keep_bounds:
  assumes "consensus \<le> u32_max" "committed \<le> u32_max" "top_known \<le> u32_max" "mc_genesis_round conf \<le> u32_max"
  shows "least_to_keep period consensus committed top_known conf \<le> u32_max"
    and "mc_genesis_round conf \<le> r \<Longrightarrow> committed \<le> r + reset_rounds (mc_consensus conf)
      \<Longrightarrow> least_to_keep period consensus committed top_known conf \<le> r"
    and "mc_genesis_round conf \<le> r \<Longrightarrow> max consensus top_known \<le> r + max_total_rounds (mc_consensus conf)
      \<Longrightarrow> least_to_keep period consensus committed top_known conf \<le> r"
  using assms by (auto simp: least_to_keep_def Let_def round_sub_def)

text \<open>
  C39. Cleaning keeps what may still be needed: one turn of the cleaner leaves every table unchanged at
  and above the genesis for all rounds that are within \<^verbatim>\<open>reset_rounds\<close> of the last finished commit
  or within \<^verbatim>\<open>max_total_rounds\<close> of the consensus and the top known anchor; a turn that cleans
  deletes everything below its new bound from all three tables at once.
\<close>

theorem cleaner_keeps_needed:
  assumes "db_wf db" and bounds: "consensus \<le> u32_max" "committed \<le> u32_max" "top_known \<le> u32_max" "mc_genesis_round conf \<le> u32_max"
    and "r \<le> u32_max" and turn: "cleaner_turn period conf consensus committed top_known (bound, db) = (bound', db')"
  shows "bound \<le> bound' \<and> db_wf db'
    \<and> (mc_genesis_round conf \<le> r \<and> (committed \<le> r + reset_rounds (mc_consensus conf)
         \<or> max consensus top_known \<le> r + max_total_rounds (mc_consensus conf)) \<longrightarrow>
         ms_get_point_raw r d db' = ms_get_point_raw r d db \<and> ms_get_info lib r d db' = ms_get_info lib r d db
       \<and> ms_get_status r d db' = ms_get_status r d db)
    \<and> (bound < bound' \<and> r < bound' \<longrightarrow>
         ms_get_point_raw r d db' = None \<and> ms_get_info lib r d db' = Ok None \<and> ms_get_status r d db' = Ok None)"
proof -
  let ?n = "least_to_keep period consensus committed top_known conf"
  note n = least_to_keep_bounds [OF bounds]
  note clean = clean_exact [OF assms(1) least_to_keep_bounds(1) [OF bounds] assms(6)]
  show ?thesis
  proof (cases "bound < ?n")
    case True
    with turn have b: "bound' = ?n" "db' = snd (ms_clean (fill_prefix ?n) db)" by (auto simp: cleaner_turn_def Let_def)
    define needed where "needed \<longleftrightarrow> mc_genesis_round conf \<le> r \<and> (committed \<le> r + reset_rounds (mc_consensus conf)
        \<or> max consensus top_known \<le> r + max_total_rounds (mc_consensus conf))"
    have "needed \<longrightarrow> \<not> r < ?n" unfolding needed_def using n(2,3) by (meson linorder_not_less)
    with True clean(4) show ?thesis unfolding needed_def [symmetric] b clean(1-3) by auto
  qed (use turn assms(1) in \<open>auto simp: cleaner_turn_def Let_def\<close>)
qed

section \<open>Examples\<close>

definition ex_tl :: point_tl where
  "ex_tl = \<lparr>tl_info_write = \<lambda>_. [], tl_info_read = \<lambda>_. None, tl_point_read = \<lambda>_. Err (),
     tl_payload_read = \<lambda>bytes. Some [bytes, bytes]\<rparr>"

definition ex_stored_point :: "round \<Rightarrow> digest \<Rightarrow> point" where
  "ex_stored_point r d = \<lparr>pt_serialized = [word_of_nat r],
     pt_info = \<lparr>pi_digest = d, pi_signature = 0, pi_author = 1, pi_round = r, pi_payload_len = 2, pi_payload_bytes = 2,
       pi_data = \<lparr>pd_includes = [], pd_witness = [], pd_evidence = [], pd_anchor_trigger = ToSelf,
         pd_anchor_proof = ToSelf, pd_time = 0, pd_anchor_time = 0\<rparr>\<rparr>\<rparr>"

definition ex_db :: mempool_db where
  "ex_db = ms_insert_point ex_tl (ex_stored_point 300 5) StExists (ms_insert_point ex_tl (ex_stored_point 7 9) StExists mdb_empty)"

lemma keyed_insert: "keyed table \<Longrightarrow> r \<le> u32_max \<Longrightarrow> keyed (bm_insert (fill_key r d) v table)"
  unfolding keyed_def by (auto simp: bm_wf_insert set_bm_keys_insert)

lemma ms_insert_point_wf: "db_wf db \<Longrightarrow> pi_round (pt_info p) \<le> u32_max \<Longrightarrow> db_wf (ms_insert_point lib p st db)"
  by (simp add: db_wf_def ms_insert_point_def Let_def merge_cf_def keyed_insert)

lemma mdb_empty_wf: "db_wf mdb_empty"
  by (simp add: db_wf_def mdb_empty_def keyed_def bm_wf_def bm_keys_def)

lemma ex_db_wf: "db_wf ex_db"
  unfolding ex_db_def by (intro ms_insert_point_wf mdb_empty_wf) (simp_all add: ex_stored_point_def u32_max_def)

lemma raw_after_insert:
  assumes "db_wf db" "pi_round (pt_info p) \<le> u32_max" "r \<le> u32_max"
  shows "ms_get_point_raw r d (ms_insert_point lib p st db)
    = (if r = pi_round (pt_info p) \<and> d = pi_digest (pt_info p) then Some (pt_serialized p) else ms_get_point_raw r d db)"
  using assms by (auto simp: ms_get_point_raw_def ms_insert_point_def Let_def db_wf_def keyed_def bm_get_insert fill_order(4))

lemma ex_db_raw: "ms_get_point_raw 300 5 ex_db = Some [44]" "ms_get_point_raw 7 9 ex_db = Some [7]"
proof -
  have b: "pi_round (pt_info (ex_stored_point r d)) = r" "pi_digest (pt_info (ex_stored_point r d)) = d"
    "pt_serialized (ex_stored_point r d) = [word_of_nat r]" for r d by (simp_all add: ex_stored_point_def)
  have "db_wf (ms_insert_point ex_tl (ex_stored_point 7 9) StExists mdb_empty)"
    by (intro ms_insert_point_wf mdb_empty_wf) (simp add: b u32_max_def)
  note raw = raw_after_insert [OF this] raw_after_insert [OF mdb_empty_wf]
  show "ms_get_point_raw 300 5 ex_db = Some [44]" "ms_get_point_raw 7 9 ex_db = Some [7]"
    by (simp_all add: ex_db_def raw b u32_max_def)
qed

theorem history_payload_witness:
  "ms_expand_anchor_history ex_tl [pt_info (ex_stored_point 7 9), pt_info (ex_stored_point 300 5)] ex_db
   = Ok [[7], [7], [44], [44]]"
proof -
  have "bm_wf (mdb_points ex_db)" using ex_db_wf by (simp add: db_wf_def keyed_def)
  from history_payload [OF this, of "[pt_info (ex_stored_point 7 9), pt_info (ex_stored_point 300 5)]" ex_tl
      "\<lambda>i. if pi_round i = 7 then [[7], [7]] else [[44], [44]]"]
  show ?thesis by (simp add: ex_stored_point_def ex_tl_def ex_db_raw u32_max_def)
qed

theorem cleaner_keeps_needed_witness:
  "\<exists>db'. cleaner_turn 105 \<lparr>mc_consensus = ex_consensus, mc_genesis_round = 2, mc_point_max_bytes = 1000\<rparr> 1500 500 1400 (0, ex_db)
      = (105, db')
    \<and> ms_get_point_raw 300 5 db' = Some [44] \<and> ms_get_point_raw 7 9 db' = None"
proof -
  let ?conf = "\<lparr>mc_consensus = ex_consensus, mc_genesis_round = 2, mc_point_max_bytes = 1000\<rparr>"
  obtain db' where turn: "cleaner_turn 105 ?conf 1500 500 1400 (0, ex_db) = (105, db')"
    by (simp add: cleaner_turn_def least_to_keep_def round_sub_def depth_defs ex_consensus_def)
  note keep = cleaner_keeps_needed [OF ex_db_wf _ _ _ _ _ turn]
  from keep [of 300 5] have "ms_get_point_raw 300 5 db' = Some [44]"
    by (simp add: ex_db_raw u32_max_def depth_defs ex_consensus_def)
  moreover from keep [of 7 9] have "ms_get_point_raw 7 9 db' = None"
    by (simp add: u32_max_def depth_defs ex_consensus_def)
  ultimately show ?thesis using turn by blast
qed

end
