(* ===== verification/State_Update_Queue.thy ===== *)
theory State_Update_Queue
  imports Mempool_Config
begin

text \<open>
  The queue of masterchain state updates in front of the mempool:
  \<^verbatim>\<open>collator/src/mempool/impls/std_impl/state_update_queue.rs\<close> with the context of
  \<^verbatim>\<open>collator/src/mempool/state_update_context.rs\<close>.

  A block is received and its signatures become known in any order; the queue holds a block until
  it is signed. The lemmas show that the mempool sees blocks in their order and misses none but those
  that a newer one has overtaken.
\<close>

section \<open>State updates\<close>

record consensus_info =
  ci_genesis_info :: genesis_info
  ci_prev_vset_switch_round :: round
  ci_vset_switch_round :: round

text \<open>The validator lists are given with their subsets, which the key block's library computes.\<close>

record state_update_context =
  cx_seqno :: nat
  cx_mc_block_chain_time :: nat
  cx_top_processed_to_anchor_id :: round
  cx_consensus_info :: consensus_info
  cx_consensus_config :: consensus_config
  cx_prev_v_set :: "peer_id list"
  cx_prev_v_subset :: "peer_id list"
  cx_curr_v_set :: "peer_id list"
  cx_curr_v_subset :: "peer_id list"
  cx_next_v_set :: "peer_id list"

record state_update_queue =
  su_unsigned :: "(nat, state_update_context) bmap"
  su_drained :: nat
  su_signed :: nat

definition su_default :: state_update_queue where
  "su_default = \<lparr>su_unsigned = [], su_drained = 0, su_signed = 0\<rparr>"

datatype drain_error = DrainedUnsigned | RepeatedSeqno

definition su_push ::
  "state_update_context \<Rightarrow> state_update_queue \<Rightarrow> (drain_error, state_update_context option \<times> state_update_queue) outcome" where
  "su_push ctx q =
     (let new_seqno = cx_seqno ctx
      in if new_seqno < su_drained q then Ok (None, q)
         else if new_seqno = su_drained q then Ok (if new_seqno = 0 then Some ctx else None, q)
         else if new_seqno \<le> su_signed q then Ok (Some ctx, q\<lparr>su_drained := new_seqno\<rparr>)
         else Ok (None, q\<lparr>su_unsigned := bm_insert new_seqno ctx (su_unsigned q)\<rparr>))"

text \<open>Entries are taken from the lower end while they are signed.\<close>

definition su_drain ::
  "state_update_queue \<Rightarrow> (drain_error, state_update_context list \<times> state_update_queue) outcome" where
  "su_drain q =
     (if \<not> su_drained q \<le> su_signed q then Err DrainedUnsigned
      else if su_drained q = su_signed q then Ok ([], q)
      else
        let vec = map snd (takeWhile (\<lambda>e. \<not> fst e > su_signed q) (su_unsigned q));
            q = q\<lparr>su_unsigned := dropWhile (\<lambda>e. \<not> fst e > su_signed q) (su_unsigned q)\<rparr>
        in (case vec of
              [] \<Rightarrow> Ok (vec, q)
            | first # _ \<Rightarrow> if \<not> su_drained q < cx_seqno first then Err RepeatedSeqno
                           else Ok (vec, q\<lparr>su_drained := cx_seqno (last vec)\<rparr>)))"

definition su_signed_block ::
  "nat \<Rightarrow> state_update_queue \<Rightarrow> (drain_error, state_update_context list \<times> state_update_queue) outcome" where
  "su_signed_block seqno q =
     (if su_signed q < seqno then su_drain (q\<lparr>su_signed := seqno\<rparr>) else Ok ([], q))"

section \<open>Order of state updates\<close>

text \<open>Any interleaving of received and of signed blocks, with what is passed on to the mempool.\<close>

datatype su_event = Received state_update_context | Signed nat

fun su_event_step :: "su_event \<Rightarrow> state_update_queue \<Rightarrow> (drain_error, state_update_context list \<times> state_update_queue) outcome" where
  "su_event_step (Received cx) q =
     bindR (su_push cx q) (\<lambda>(out, q). Ok (case out of None \<Rightarrow> [] | Some cx \<Rightarrow> [cx], q))"
| "su_event_step (Signed seqno) q = su_signed_block seqno q"

fun su_events :: "su_event list \<Rightarrow> state_update_queue \<Rightarrow> (drain_error, state_update_context list \<times> state_update_queue) outcome" where
  "su_events [] q = Ok ([], q)"
| "su_events (e # es) q =
     bindR (su_event_step e q) (\<lambda>(out, q). bindR (su_events es q) (\<lambda>(more, q). Ok (out @ more, q)))"

definition su_inv :: "state_update_queue \<Rightarrow> bool" where
  "su_inv q \<longleftrightarrow> bm_wf (su_unsigned q) \<and> su_drained q \<le> su_signed q
     \<and> (\<forall>(k, cx)\<in>set (su_unsigned q). cx_seqno cx = k \<and> su_signed q < k)"

text \<open>What holds after some received contexts, when some of them have been passed on.\<close>

definition su_history :: "state_update_context list \<Rightarrow> state_update_context list \<Rightarrow> state_update_queue \<Rightarrow> bool" where
  "su_history received out q \<longleftrightarrow> su_inv q \<and> set out \<subseteq> set received \<and> snd ` set (su_unsigned q) \<subseteq> set received
     \<and> sorted_wrt (<) (filter ((<) 0) (map cx_seqno out)) \<and> (\<forall>cx\<in>set out. cx_seqno cx \<le> su_drained q)
     \<and> (su_drained q = 0 \<or> su_drained q \<in> cx_seqno ` set out)
     \<and> (\<forall>cx\<in>set received. cx_seqno cx \<le> su_signed q \<longrightarrow> (\<exists>cx'\<in>set out. cx_seqno cx \<le> cx_seqno cx'))
     \<and> (\<forall>cx\<in>set received. su_signed q < cx_seqno cx \<longrightarrow> cx_seqno cx \<in> fst ` set (su_unsigned q))"

lemma bm_wf_split:
  assumes "bm_wf (m :: (nat, 'v) bmap)"
  shows "takeWhile (\<lambda>e. \<not> fst e > n) m = filter (\<lambda>e. fst e \<le> n) m"
    "dropWhile (\<lambda>e. \<not> fst e > n) m = filter (\<lambda>e. n < fst e) m"
  using assms unfolding bm_wf_def by (induction m) (auto simp: not_le intro!: filter_True [symmetric] filter_False [symmetric])

lemma sorted_positive_append:
  "sorted_wrt (<) (filter ((<) (0::nat)) xs) \<Longrightarrow> sorted_wrt (<) ys \<Longrightarrow> \<forall>x\<in>set xs. \<forall>y\<in>set ys. 0 < y \<longrightarrow> x < y \<Longrightarrow>
   sorted_wrt (<) (filter ((<) 0) (xs @ ys))"
  by (auto simp: sorted_wrt_append sorted_wrt_filter)

lemma su_historyD:
  assumes "su_history received out q"
  shows "bm_wf (su_unsigned q)" "su_drained q \<le> su_signed q"
    and "\<And>e. e \<in> set (su_unsigned q) \<Longrightarrow> cx_seqno (snd e) = fst e \<and> su_signed q < fst e"
    and "set out \<subseteq> set received" "snd ` set (su_unsigned q) \<subseteq> set received"
    and "sorted_wrt (<) (filter ((<) 0) (map cx_seqno out))" "\<And>cx. cx \<in> set out \<Longrightarrow> cx_seqno cx \<le> su_drained q"
    and "su_drained q = 0 \<or> su_drained q \<in> cx_seqno ` set out"
    and "\<And>cx. cx \<in> set received \<Longrightarrow> cx_seqno cx \<le> su_signed q \<Longrightarrow> \<exists>cx'\<in>set out. cx_seqno cx \<le> cx_seqno cx'"
    and "\<And>cx. cx \<in> set received \<Longrightarrow> su_signed q < cx_seqno cx \<Longrightarrow> cx_seqno cx \<in> fst ` set (su_unsigned q)"
  using assms unfolding su_history_def su_inv_def by auto

lemma su_historyI:
  assumes "bm_wf (su_unsigned q)" "su_drained q \<le> su_signed q"
    and "\<And>e. e \<in> set (su_unsigned q) \<Longrightarrow> cx_seqno (snd e) = fst e \<and> su_signed q < fst e"
    and "set out \<subseteq> set received" "snd ` set (su_unsigned q) \<subseteq> set received"
    and "sorted_wrt (<) (filter ((<) 0) (map cx_seqno out))" "\<And>cx. cx \<in> set out \<Longrightarrow> cx_seqno cx \<le> su_drained q"
    and "su_drained q = 0 \<or> su_drained q \<in> cx_seqno ` set out"
    and "\<And>cx. cx \<in> set received \<Longrightarrow> cx_seqno cx \<le> su_signed q \<Longrightarrow> \<exists>cx'\<in>set out. cx_seqno cx \<le> cx_seqno cx'"
    and "\<And>cx. cx \<in> set received \<Longrightarrow> su_signed q < cx_seqno cx \<Longrightarrow> cx_seqno cx \<in> fst ` set (su_unsigned q)"
  shows "su_history received out q"
  using assms unfolding su_history_def su_inv_def by auto

lemma bm_insert_entries: "e \<in> set (bm_insert k v m) \<Longrightarrow> e = (k, v) \<or> e \<in> set m"
  by (induction k v m rule: bm_insert.induct) (auto split: if_splits)

lemma su_push_history:
  assumes "su_history received out q"
  shows "\<exists>o' q'. su_push cx q = Ok (o', q')
    \<and> su_history (received @ [cx]) (out @ (case o' of None \<Rightarrow> [] | Some cx \<Rightarrow> [cx])) q'"
proof -
  note h = su_historyD [OF assms]
  consider "cx_seqno cx < su_drained q \<or> cx_seqno cx = su_drained q \<and> cx_seqno cx \<noteq> 0" | "cx_seqno cx = su_drained q" "cx_seqno cx = 0"
    | "su_drained q < cx_seqno cx" "cx_seqno cx \<le> su_signed q" | "su_drained q < cx_seqno cx" "su_signed q < cx_seqno cx"
    by linarith
  then show ?thesis
  proof cases
    case 1
    then have push: "su_push cx q = Ok (None, q)" by (auto simp: su_push_def Let_def)
    from 1 h(8) obtain cx' where cx': "cx' \<in> set out" "cx_seqno cx \<le> cx_seqno cx'" by force
    have "su_history (received @ [cx]) out q"
    proof (rule su_historyI)
      show "\<exists>cx'\<in>set out. cx_seqno c \<le> cx_seqno cx'" if "c \<in> set (received @ [cx])" "cx_seqno c \<le> su_signed q" for c
        using that h(9) cx' by auto
      show "cx_seqno c \<in> fst ` set (su_unsigned q)" if "c \<in> set (received @ [cx])" "su_signed q < cx_seqno c" for c
        using that h(10) h(2) 1 by auto
    qed (use h in auto)
    with push show ?thesis by auto
  next
    case 2
    then have push: "su_push cx q = Ok (Some cx, q)" by (simp add: su_push_def Let_def)
    have "su_history (received @ [cx]) (out @ [cx]) q"
    proof (rule su_historyI)
      show "\<exists>cx'\<in>set (out @ [cx]). cx_seqno c \<le> cx_seqno cx'" if "c \<in> set (received @ [cx])" "cx_seqno c \<le> su_signed q" for c
        using that h(9) [of c] 2 by auto
      show "cx_seqno c \<in> fst ` set (su_unsigned q)" if "c \<in> set (received @ [cx])" "su_signed q < cx_seqno c" for c
        using that h(10) h(2) 2 by auto
    qed (use h(3-8) 2 in \<open>auto intro: h(1,2)\<close>)
    with push show ?thesis by auto
  next
    case 3
    let ?q = "q\<lparr>su_drained := cx_seqno cx\<rparr>"
    from 3 have push: "su_push cx q = Ok (Some cx, ?q)" by (simp add: su_push_def Let_def)
    have less: "cx_seqno c < cx_seqno cx" if "c \<in> set out" for c using h(7) [OF that] 3 by simp
    have "su_history (received @ [cx]) (out @ [cx]) ?q"
    proof (rule su_historyI)
      show "sorted_wrt (<) (filter ((<) 0) (map cx_seqno (out @ [cx])))"
        using sorted_positive_append [of "map cx_seqno out" "[cx_seqno cx]"] h(6) less by simp
      show "\<exists>cx'\<in>set (out @ [cx]). cx_seqno c \<le> cx_seqno cx'" if "c \<in> set (received @ [cx])" "cx_seqno c \<le> su_signed ?q" for c
        using that h(9) [of c] by auto
      show "cx_seqno c \<in> fst ` set (su_unsigned ?q)" if "c \<in> set (received @ [cx])" "su_signed ?q < cx_seqno c" for c
        using that h(10) 3 by auto
      show "cx_seqno c \<le> su_drained ?q" if "c \<in> set (out @ [cx])" for c using that less by (auto intro: less_imp_le)
    qed (use h(3-5) 3 in \<open>auto intro: h(1,2)\<close>)
    with push show ?thesis by auto
  next
    case 4
    let ?q = "q\<lparr>su_unsigned := bm_insert (cx_seqno cx) cx (su_unsigned q)\<rparr>"
    from 4 have push: "su_push cx q = Ok (None, ?q)" by (simp add: su_push_def Let_def)
    have keys: "fst ` set (bm_insert (cx_seqno cx) cx (su_unsigned q)) = insert (cx_seqno cx) (fst ` set (su_unsigned q))"
      using set_bm_insert_keys [of "cx_seqno cx" cx "su_unsigned q"] by simp
    have "su_history (received @ [cx]) out ?q"
    proof (rule su_historyI)
      show "\<exists>cx'\<in>set out. cx_seqno c \<le> cx_seqno cx'" if "c \<in> set (received @ [cx])" "cx_seqno c \<le> su_signed ?q" for c
        using that h(9) [of c] 4 by auto
      show "cx_seqno c \<in> fst ` set (su_unsigned ?q)" if "c \<in> set (received @ [cx])" "su_signed ?q < cx_seqno c" for c
        using that h(10) by (auto simp: keys)
      show "snd ` set (su_unsigned ?q) \<subseteq> set (received @ [cx])" using h(5) by (auto dest!: bm_insert_entries)
      show "cx_seqno (snd e) = fst e \<and> su_signed ?q < fst e" if "e \<in> set (su_unsigned ?q)" for e
        using bm_insert_entries [of e "cx_seqno cx" cx "su_unsigned q"] that h(3) [of e] 4 by auto
    qed (use h in \<open>auto simp: bm_wf_insert\<close>)
    with push show ?thesis by auto
  qed
qed

lemma su_signed_drains:
  assumes "su_history received out q" "su_signed q < seqno"
  defines "vec \<equiv> map snd (filter (\<lambda>e. fst e \<le> seqno) (su_unsigned q))"
    and "q1 \<equiv> q\<lparr>su_signed := seqno, su_unsigned := filter (\<lambda>e. seqno < fst e) (su_unsigned q)\<rparr>"
  shows "su_signed_block seqno q = Ok (vec, if vec = [] then q1 else q1\<lparr>su_drained := cx_seqno (last vec)\<rparr>)"
    and "sorted_wrt (<) (map cx_seqno vec)" "\<And>cx. cx \<in> set vec \<Longrightarrow> su_drained q < cx_seqno cx \<and> cx_seqno cx \<le> seqno"
proof -
  note h = su_historyD [OF assms(1)]
  have "map cx_seqno vec = map fst (filter (\<lambda>e. fst e \<le> seqno) (su_unsigned q))"
    using h(3) unfolding vec_def by simp
  then show "sorted_wrt (<) (map cx_seqno vec)" using bm_wf_filter [OF h(1)] by (simp add: bm_wf_def)
  show new: "su_drained q < cx_seqno cx \<and> cx_seqno cx \<le> seqno" if "cx \<in> set vec" for cx
  proof -
    from that obtain e where e: "e \<in> set (su_unsigned q)" "fst e \<le> seqno" "snd e = cx" unfolding vec_def by auto
    from h(3) [OF e(1)] h(2) e show ?thesis by auto
  qed
  have "su_drained q < seqno" using h(2) assms(2) by simp
  with assms(2) bm_wf_split [OF h(1), of seqno] new [of "hd vec"]
  show "su_signed_block seqno q = Ok (vec, if vec = [] then q1 else q1\<lparr>su_drained := cx_seqno (last vec)\<rparr>)"
    by (cases vec) (simp_all add: su_signed_block_def su_drain_def Let_def vec_def [symmetric] q1_def)
qed

lemma su_signed_history:
  assumes "su_history received out q"
  shows "\<exists>o' q'. su_signed_block seqno q = Ok (o', q') \<and> su_history received (out @ o') q' \<and> seqno \<le> su_signed q'"
proof (cases "su_signed q < seqno")
  case False
  with assms show ?thesis by (auto simp: su_signed_block_def)
next
  case True
  note h = su_historyD [OF assms]
  let ?m = "su_unsigned q"
  define vec where "vec = map snd (filter (\<lambda>e. fst e \<le> seqno) ?m)"
  define q1 where "q1 = q\<lparr>su_signed := seqno, su_unsigned := filter (\<lambda>e. seqno < fst e) ?m\<rparr>"
  define q2 where "q2 = (if vec = [] then q1 else q1\<lparr>su_drained := cx_seqno (last vec)\<rparr>)"
  note d = su_signed_drains [OF assms True, folded vec_def q1_def, folded q2_def]
  have q2: "su_unsigned q2 = filter (\<lambda>e. seqno < fst e) ?m" "su_signed q2 = seqno"
      "su_drained q2 = (if vec = [] then su_drained q else cx_seqno (last vec))" by (simp_all add: q2_def q1_def)
  have le_last: "cx_seqno cx \<le> cx_seqno (last vec)" if "cx \<in> set vec" for cx
    using d(2) that by (cases vec rule: rev_cases) (auto simp: sorted_wrt_append less_imp_le)
  have "su_history received (out @ vec) q2"
  proof (rule su_historyI)
    show "sorted_wrt (<) (filter ((<) 0) (map cx_seqno (out @ vec)))"
      using sorted_positive_append [of "map cx_seqno out" "map cx_seqno vec"] h(6,7) d(2,3) by fastforce
    show "set (out @ vec) \<subseteq> set received" using h(4,5) unfolding vec_def by auto
    show "su_drained q2 \<le> su_signed q2" using h(2) True d(3) by (simp add: q2)
    show "cx_seqno cx \<le> su_drained q2" if "cx \<in> set (out @ vec)" for cx
      using that h(7) [of cx] le_last [of cx] d(3) [of "last vec"] by (cases "vec = []") (auto simp: q2)
    show "su_drained q2 = 0 \<or> su_drained q2 \<in> cx_seqno ` set (out @ vec)" using h(8) by (auto simp: q2)
    show "cx_seqno cx \<in> fst ` set (su_unsigned q2)" if "cx \<in> set received" "su_signed q2 < cx_seqno cx" for cx
      using h(10) [OF that(1)] that(2) True by (auto simp: q2)
    show "\<exists>cx'\<in>set (out @ vec). cx_seqno cx \<le> cx_seqno cx'" if "cx \<in> set received" "cx_seqno cx \<le> su_signed q2" for cx
    proof (cases "cx_seqno cx \<le> su_signed q")
      case True
      from h(9) [OF that(1) True] show ?thesis by auto
    next
      case False
      with h(10) [OF that(1)] obtain e where e: "e \<in> set ?m" "fst e = cx_seqno cx" by auto
      then have "snd e \<in> set vec" "cx_seqno (snd e) = cx_seqno cx" using that(2) h(3) [of e] by (auto simp: vec_def q2)
      then show ?thesis by (intro bexI [of _ "snd e"]) auto
    qed
  qed (use h(1,3,5) True in \<open>auto simp: q2 bm_wf_filter\<close>)
  with d(1) q2(2) show ?thesis by auto
qed

fun received_in :: "su_event list \<Rightarrow> state_update_context list" where
  "received_in [] = []"
| "received_in (Received cx # es) = cx # received_in es"
| "received_in (Signed _ # es) = received_in es"

lemma su_event_history:
  assumes "su_history received out q"
  shows "\<exists>o' q'. su_event_step e q = Ok (o', q') \<and> su_history (received @ received_in [e]) (out @ o') q'
    \<and> (\<forall>n. e = Signed n \<longrightarrow> n \<le> su_signed q') \<and> su_signed q \<le> su_signed q'
    \<and> (su_signed q' = su_signed q \<or> e = Signed (su_signed q'))"
proof (cases e)
  case (Received cx)
  from su_push_history [OF assms, of cx] obtain o' q' where push: "su_push cx q = Ok (o', q')"
      "su_history (received @ [cx]) (out @ (case o' of None \<Rightarrow> [] | Some cx \<Rightarrow> [cx])) q'" by blast
  then have "su_signed q' = su_signed q" by (auto simp: su_push_def Let_def split: if_splits)
  with push Received show ?thesis by simp
next
  case (Signed n)
  from su_signed_history [OF assms, of n] obtain o' q' where sg: "su_signed_block n q = Ok (o', q')"
      "su_history received (out @ o') q'" "n \<le> su_signed q'" by blast
  moreover from sg(1,3) have "su_signed q \<le> su_signed q' \<and> (su_signed q' = su_signed q \<or> su_signed q' = n)"
    by (cases "su_signed q < n") (auto simp: su_signed_block_def su_drain_def Let_def split: if_splits list.splits)
  ultimately show ?thesis using Signed by auto
qed

lemma su_events_history:
  assumes "su_history received out q"
  shows "\<exists>o' q'. su_events es q = Ok (o', q') \<and> su_history (received @ received_in es) (out @ o') q'
    \<and> (\<forall>n. Signed n \<in> set es \<longrightarrow> n \<le> su_signed q') \<and> su_signed q \<le> su_signed q'
    \<and> (su_signed q' = su_signed q \<or> Signed (su_signed q') \<in> set es)"
  using assms
proof (induction es arbitrary: received out q)
  case (Cons e es)
  from su_event_history [OF Cons.prems, of e] obtain o1 q1 where 1: "su_event_step e q = Ok (o1, q1)"
      "su_history (received @ received_in [e]) (out @ o1) q1" "\<forall>n. e = Signed n \<longrightarrow> n \<le> su_signed q1" "su_signed q \<le> su_signed q1"
      "su_signed q1 = su_signed q \<or> e = Signed (su_signed q1)"
    by blast
  from Cons.IH [OF 1(2)] obtain o2 q2 where 2: "su_events es q1 = Ok (o2, q2)"
      "su_history ((received @ received_in [e]) @ received_in es) ((out @ o1) @ o2) q2"
      "\<forall>n. Signed n \<in> set es \<longrightarrow> n \<le> su_signed q2" "su_signed q1 \<le> su_signed q2"
      "su_signed q2 = su_signed q1 \<or> Signed (su_signed q2) \<in> set es" by blast
  have "received_in (e # es) = received_in [e] @ received_in es" by (cases e) auto
  moreover have "su_events (e # es) q = Ok (o1 @ o2, q2)" using 1(1) 2(1) by simp
  moreover have "n \<le> su_signed q2" if "Signed n \<in> set (e # es)" for n using that 1(3) 2(3,4) by auto
  moreover have "su_signed q2 = su_signed q \<or> Signed (su_signed q2) \<in> set (e # es)" using 1(5) 2(5) by auto
  ultimately show ?case using 1(4) 2(2,4) by auto
qed simp

text \<open>
  C36. State updates are passed to the mempool in the order of their blocks, whatever the order in which
  blocks are received and signatures of blocks become known. The queue never fails its consistency
  checks. Everything passed on was received, blocks other than the initial state are passed on in
  strictly increasing order of their numbers and only after a block with this or a greater number has
  been signed. When a block is known to be signed, the mempool has been told of every received block
  up to it, or of a newer one.
\<close>
theorem state_updates_in_order:
  "\<exists>out q. su_events es su_default = Ok (out, q) \<and> set out \<subseteq> set (received_in es)
    \<and> sorted_wrt (<) (filter ((<) 0) (map cx_seqno out))
    \<and> (\<forall>cx\<in>set out. cx_seqno cx = 0 \<or> (\<exists>n. Signed n \<in> set es \<and> cx_seqno cx \<le> n))
    \<and> (\<forall>cx\<in>set (received_in es). \<forall>n. Signed n \<in> set es \<longrightarrow> cx_seqno cx \<le> n \<longrightarrow> (\<exists>cx'\<in>set out. cx_seqno cx \<le> cx_seqno cx'))"
proof -
  have "su_history [] [] su_default" by (simp add: su_history_def su_inv_def su_default_def bm_wf_def)
  from su_events_history [OF this, of es] obtain out q where e: "su_events es su_default = Ok (out, q)"
      and h: "su_history (received_in es) out q" and n: "\<forall>n. Signed n \<in> set es \<longrightarrow> n \<le> su_signed q"
      and s: "su_signed q = 0 \<or> Signed (su_signed q) \<in> set es" by (auto simp: su_default_def)
  note h = su_historyD [OF h]
  have "cx_seqno cx = 0 \<or> (\<exists>n. Signed n \<in> set es \<and> cx_seqno cx \<le> n)" if "cx \<in> set out" for cx
  proof -
    have "cx_seqno cx \<le> su_signed q" using h(7) [OF that] h(2) by simp
    with s show ?thesis by auto
  qed
  moreover have "\<exists>cx'\<in>set out. cx_seqno cx \<le> cx_seqno cx'" if "cx \<in> set (received_in es)" "Signed n \<in> set es" "cx_seqno cx \<le> n" for cx n
    using h(9) [OF that(1)] that(2,3) n by (meson le_trans)
  ultimately show ?thesis using e h(4,6) by auto
qed

definition ex_cx :: "nat \<Rightarrow> state_update_context" where
  "ex_cx n = \<lparr>cx_seqno = n, cx_mc_block_chain_time = 100 * n, cx_top_processed_to_anchor_id = 0,
     cx_consensus_info = \<lparr>ci_genesis_info = \<lparr>gi_start_round = 5, gi_genesis_millis = 1000\<rparr>,
       ci_prev_vset_switch_round = 0, ci_vset_switch_round = 0\<rparr>,
     cx_consensus_config = ex_consensus, cx_prev_v_set = [], cx_prev_v_subset = [],
     cx_curr_v_set = [1, 2], cx_curr_v_subset = [1], cx_next_v_set = []\<rparr>"

theorem state_updates_in_order_witness:
  "let es = [Received (ex_cx 2), Received (ex_cx 4), Signed 1, Received (ex_cx 1), Signed 3] in
   (\<exists>out q. su_events es su_default = Ok (out, q) \<and> map cx_seqno out = [1, 2]
     \<and> (\<forall>cx\<in>set out. cx_seqno cx = 0 \<or> (\<exists>n. Signed n \<in> set es \<and> cx_seqno cx \<le> n)))"
  using state_updates_in_order [of "[Received (ex_cx 2), Received (ex_cx 4), Signed 1, Received (ex_cx 1), Signed 3]"]
  by (auto simp: su_push_def su_default_def su_signed_block_def su_drain_def ex_cx_def)

end
