(* ===== verification/Mempool_Adapter.thy ===== *)
theory Mempool_Adapter
  imports Deduplicator Mempool_Store State_Update_Queue Dag_Commit Input_Buffer Peer_Schedule
begin

text \<open>
  From the mempool to the collator: \<^verbatim>\<open>collator/src/mempool/impls/std_impl.rs\<close> with \<^verbatim>\<open>cache.rs\<close>,
  \<^verbatim>\<open>anchor_handler.rs\<close> and \<^verbatim>\<open>config.rs\<close>, and the adapter's
  part of \<^verbatim>\<open>consensus/src/effects/store.rs\<close> and \<^verbatim>\<open>engine/round_watch.rs\<close>.

  A wait for a notification is a result of its own: the check that precedes it tells to wait. The engine
  session is its genesis and its last peers. Log messages and metrics are left out.
\<close>

section \<open>Anchor cache\<close>

record 'm mempool_anchor =
  an_id :: round
  an_prev_id :: "round option"
  an_author :: peer_id
  an_chain_time :: nat
  an_externals :: "'m list"

record 'm anchor_cache =
  ca_anchors :: "(round \<times> 'm mempool_anchor) list"
  ca_is_paused :: bool

datatype cache_error =
    UnexpectedGap round round round bool
  | UnexpectedAnchor round round round bool
  | NoPreviousAnchor round round bool
  | FirstAnchorRemoved round round bool

datatype 'a polled = Waits | Returns 'a

definition ca_default :: "'m anchor_cache" where
  "ca_default = \<lparr>ca_anchors = [], ca_is_paused = False\<rparr>"

definition ca_reset :: "'m anchor_cache \<Rightarrow> 'm anchor_cache" where
  "ca_reset c = c\<lparr>ca_anchors := []\<rparr>"

definition ca_push :: "'m mempool_anchor \<Rightarrow> 'm anchor_cache \<Rightarrow> 'm anchor_cache" where
  "ca_push anchor c = c\<lparr>ca_anchors := im_update (an_id anchor) anchor (ca_anchors c)\<rparr>"

definition ca_set_paused :: "bool \<Rightarrow> 'm anchor_cache \<Rightarrow> 'm anchor_cache" where
  "ca_set_paused is_paused c = c\<lparr>ca_is_paused := is_paused\<rparr>"

definition ca_clear :: "round \<Rightarrow> 'm anchor_cache \<Rightarrow> 'm anchor_cache" where
  "ca_clear before_anchor_id c = c\<lparr>ca_anchors := filter (\<lambda>e. fst e \<ge> before_anchor_id) (ca_anchors c)\<rparr>"

definition ca_get_anchor_by_id :: "round \<Rightarrow> 'm anchor_cache \<Rightarrow> 'm mempool_anchor option polled" where
  "ca_get_anchor_by_id anchor_id c =
     (case ca_anchors c of
        [] \<Rightarrow> Waits
      | (first_id, _) # _ \<Rightarrow>
          if anchor_id < first_id then Returns None
          else (case map_of (ca_anchors c) anchor_id of
                  Some found \<Rightarrow> Returns (Some found)
                | None \<Rightarrow> if fst (last (ca_anchors c)) > anchor_id then Returns None else Waits))"

text \<open>The entry after the one with a key.\<close>

fun im_after :: "'k \<Rightarrow> ('k \<times> 'v) list \<Rightarrow> 'v option" where
  "im_after k [] = None"
| "im_after k ((k', _) # m) = (if k = k' then (case m of [] \<Rightarrow> None | (_, v) # _ \<Rightarrow> Some v) else im_after k m)"

definition ca_get_next_anchor ::
  "round \<Rightarrow> 'm anchor_cache \<Rightarrow> (cache_error, 'm mempool_anchor option) outcome polled" where
  "ca_get_next_anchor prev_anchor_id c =
     (case ca_anchors c of
        [] \<Rightarrow> Waits
      | (first_id, first) # _ \<Rightarrow>
          if prev_anchor_id < first_id then
            Returns (case an_prev_id first of
                       None \<Rightarrow> Ok (Some first)
                     | Some prev \<Rightarrow> if prev = prev_anchor_id
                                   then Err (FirstAnchorRemoved prev_anchor_id (an_id first) (ca_is_paused c))
                                   else Ok None)
          else if prev_anchor_id \<in> fst ` set (ca_anchors c) then
            (case im_after prev_anchor_id (ca_anchors c) of
               None \<Rightarrow> Waits
             | Some found \<Rightarrow>
                 Returns (case an_prev_id found of
                            Some found_prev_id \<Rightarrow>
                              if prev_anchor_id = found_prev_id then Ok (Some found)
                              else if prev_anchor_id < found_prev_id
                              then Err (UnexpectedGap prev_anchor_id found_prev_id (an_id found) (ca_is_paused c))
                              else Err (UnexpectedAnchor prev_anchor_id found_prev_id (an_id found) (ca_is_paused c))
                          | None \<Rightarrow> Err (NoPreviousAnchor prev_anchor_id (an_id found) (ca_is_paused c))))
          else if fst (last (ca_anchors c)) > prev_anchor_id then Returns (Ok None) else Waits)"

section \<open>Anchor handler\<close>

text \<open>A watched round only grows.\<close>

definition rw_set_max :: "round \<Rightarrow> round \<Rightarrow> round" where
  "rw_set_max value old = (if old < value then value else old)"

datatype mempool_output = NewStartAfterGap round | NextAnchor anchor_data | Running | Paused

text \<open>The cache and the database are shared with the rest of the adapter and the engine.\<close>

record 'm shuttle =
  sh_cache :: "'m anchor_cache"
  sh_db :: mempool_db
  sh_commit_finished :: round
  sh_parser :: parser
  sh_first_after_gap :: "round option"

definition as_expand_anchor_history ::
  "point_tl \<Rightarrow> point_info \<Rightarrow> point_info list \<Rightarrow> mempool_db \<times> round
   \<Rightarrow> (unit, byte list list \<times> mempool_db \<times> round) outcome" where
  "as_expand_anchor_history tl_lib anchor history st =
     bindR (if history = [] then Ok []
            else (case ms_expand_anchor_history tl_lib history (fst st) of Ok payloads \<Rightarrow> Ok payloads | _ \<Rightarrow> Panic))
       (\<lambda>payloads. Ok (payloads, ms_set_committed anchor history (fst st), rw_set_max (pi_round anchor) (snd st)))"

definition sh_new :: "nat \<Rightarrow> 'm anchor_cache \<Rightarrow> mempool_db \<Rightarrow> round \<Rightarrow> 'm shuttle" where
  "sh_new deduplicate_rounds cache db commit_finished =
     \<lparr>sh_cache = cache, sh_db = db, sh_commit_finished = commit_finished,
      sh_parser = prs_new deduplicate_rounds, sh_first_after_gap = None\<rparr>"

definition sh_reset :: "nat \<Rightarrow> round \<Rightarrow> 'm shuttle \<Rightarrow> 'm shuttle" where
  "sh_reset deduplicate_rounds anchors_full_bottom s =
     (let first_to_execute = sat_add u32_max anchors_full_bottom deduplicate_rounds
      in s\<lparr>sh_cache := ca_reset (sh_cache s),
           sh_parser := prs_new deduplicate_rounds,
           sh_commit_finished := rw_set_max first_to_execute (sh_commit_finished s),
           sh_first_after_gap := Some first_to_execute\<rparr>)"

definition sh_handle ::
  "(byte list \<Rightarrow> digest) \<Rightarrow> point_tl \<Rightarrow> ('c, 'i) cell_lib \<Rightarrow> anchor_data \<Rightarrow> ('c, 'i) external_message shuttle
   \<Rightarrow> (unit, ('c, 'i) external_message shuttle) outcome" where
  "sh_handle blake3 tl_lib lib committed s =
     (let anchor_id = pi_round (ad_anchor committed);
          is_executable = (case sh_first_after_gap s of None \<Rightarrow> True | Some first_id \<Rightarrow> anchor_id \<ge> first_id)
      in bindR (as_expand_anchor_history tl_lib (ad_anchor committed) (ad_history committed)
                 (sh_db s, sh_commit_finished s)) (\<lambda>(payloads, db, commit_finished).
         bindR (prs_parse_unique blake3 lib anchor_id payloads (sh_parser s)) (\<lambda>((unique_messages, unique_payload_bytes), parser).
         let anchor = \<lparr>an_id = anchor_id, an_prev_id = ad_prev_anchor committed,
                       an_author = pi_author (ad_anchor committed),
                       an_chain_time = pi_time (ad_anchor committed), an_externals = unique_messages\<rparr>;
             cache = (if is_executable then ca_push anchor (sh_cache s) else sh_cache s)
         in bindR (prs_clean anchor_id parser) (\<lambda>parser.
              Ok (s\<lparr>sh_cache := cache, sh_db := db, sh_commit_finished := commit_finished, sh_parser := parser\<rparr>)))))"

definition handle_mempool_output ::
  "(byte list \<Rightarrow> digest) \<Rightarrow> point_tl \<Rightarrow> ('c, 'i) cell_lib \<Rightarrow> nat \<Rightarrow> mempool_output
   \<Rightarrow> ('c, 'i) external_message shuttle \<Rightarrow> (unit, ('c, 'i) external_message shuttle) outcome" where
  "handle_mempool_output blake3 tl_lib lib deduplicate_rounds out s =
     (case out of
        NextAnchor committed \<Rightarrow> sh_handle blake3 tl_lib lib committed s
      | NewStartAfterGap anchors_full_bottom \<Rightarrow> Ok (sh_reset deduplicate_rounds anchors_full_bottom s)
      | Running \<Rightarrow> Ok (s\<lparr>sh_cache := ca_set_paused False (sh_cache s)\<rparr>)
      | Paused \<Rightarrow> Ok (s\<lparr>sh_cache := ca_set_paused True (sh_cache s)\<rparr>))"

definition sh_run ::
  "(byte list \<Rightarrow> digest) \<Rightarrow> point_tl \<Rightarrow> ('c, 'i) cell_lib \<Rightarrow> nat \<Rightarrow> mempool_output list
   \<Rightarrow> ('c, 'i) external_message shuttle \<Rightarrow> (unit, ('c, 'i) external_message shuttle) outcome" where
  "sh_run blake3 tl_lib lib deduplicate_rounds = foldR (handle_mempool_output blake3 tl_lib lib deduplicate_rounds)"

section \<open>Adapter\<close>

record engine_session =
  es_genesis_info :: genesis_info
  es_last_peers :: init_peers

datatype adapter_error =
    PrevSubsetEmpty | CurrSetEmpty | CurrSubsetEmpty | GenesisOutdated | PeerSetsOutdated
  | ConfigFailed config_error | QueueFailed drain_error

record 'm mempool_adapter =
  ma_builder :: config_builder
  ma_queue :: state_update_queue
  ma_session :: "engine_session option"
  ma_shuttle :: "'m shuttle"
  ma_deduplicate_rounds :: nat
  ma_input_buffer :: input_buffer
  ma_top_known_anchor :: round

text \<open>No session runs before the first state update; its handler is the one of a run without anchors.\<close>

definition ma_new :: "mempool_db \<Rightarrow> 'm mempool_adapter" where
  "ma_new db = \<lparr>ma_builder = cb_new, ma_queue = su_default, ma_session = None,
     ma_shuttle = sh_new 0 ca_default db 0, ma_deduplicate_rounds = 0,
     ma_input_buffer = ib_default, ma_top_known_anchor = 0\<rparr>"

definition init_peers_of :: "state_update_context \<Rightarrow> (adapter_error, init_peers) outcome" where
  "init_peers_of new_cx =
     (let peers = \<lparr>ip_prev_start_round = ci_prev_vset_switch_round (cx_consensus_info new_cx),
                   ip_prev_v_set = cx_prev_v_set new_cx, ip_prev_v_subset = cx_prev_v_subset new_cx,
                   ip_curr_start_round = ci_vset_switch_round (cx_consensus_info new_cx),
                   ip_curr_v_set = cx_curr_v_set new_cx, ip_curr_v_subset = cx_curr_v_subset new_cx,
                   ip_next_v_set = cx_next_v_set new_cx\<rparr>
      in if (ip_prev_v_set peers = []) \<noteq> (ip_prev_v_subset peers = []) then Err PrevSubsetEmpty
         else if ip_curr_v_set peers = [] then Err CurrSetEmpty
         else if ip_curr_v_subset peers = [] then Err CurrSubsetEmpty
         else Ok peers)"

text \<open>
  A method that may fail returns the adapter as the failure leaves it. Each start has a handler of
  its own, which begins with an empty parser; the cache and the database stay.
\<close>

definition ma_start ::
  "merged_config \<Rightarrow> state_update_context \<Rightarrow> 'm mempool_adapter
   \<Rightarrow> (adapter_error, engine_session) outcome \<times> 'm mempool_adapter" where
  "ma_start merged_conf cx a =
     (let consensus = mc_consensus (mm_conf merged_conf);
          a = a\<lparr>ma_input_buffer := ib_apply_config consensus (ma_input_buffer a),
                ma_top_known_anchor := rw_set_max (cx_top_processed_to_anchor_id cx) (ma_top_known_anchor a)\<rparr>;
          estimated_sync_bottom = max (cx_top_processed_to_anchor_id cx - reset_rounds consensus)
                                      (unat (gi_start_round (mm_genesis_info merged_conf)))
      in if \<not> estimated_sync_bottom \<ge> ci_prev_vset_switch_round (cx_consensus_info cx) then (Err PeerSetsOutdated, a)
         else (case init_peers_of cx of
                 Ok peers \<Rightarrow>
                   (Ok \<lparr>es_genesis_info = mm_genesis_info merged_conf, es_last_peers = peers\<rparr>,
                    a\<lparr>ma_deduplicate_rounds := cc_deduplicate_rounds consensus,
                      ma_shuttle := sh_new (cc_deduplicate_rounds consensus) (sh_cache (ma_shuttle a))
                        (sh_db (ma_shuttle a)) (sh_commit_finished (ma_shuttle a))\<rparr>)
               | Err e \<Rightarrow> (Err e, a)
               | Panic \<Rightarrow> (Panic, a)))"

definition ma_start_merged ::
  "(byte list \<Rightarrow> 256 word) \<Rightarrow> (nat \<Rightarrow> nat) \<Rightarrow> state_update_context \<Rightarrow> 'm mempool_adapter
   \<Rightarrow> (adapter_error, unit) outcome \<times> 'm mempool_adapter" where
  "ma_start_merged blake3 hint new_cx a =
     (case cb_build blake3 hint (ma_builder a) of
        Ok merged_config \<Rightarrow>
          (case ma_start merged_config new_cx a of
             (Ok session, a) \<Rightarrow> (Ok (), a\<lparr>ma_session := Some session\<rparr>)
           | (Err e, a) \<Rightarrow> (Err e, a)
           | (Panic, a) \<Rightarrow> (Panic, a))
      | Err e \<Rightarrow> (Err (ConfigFailed e), a)
      | Panic \<Rightarrow> (Panic, a))"

definition ma_set_consensus_config ::
  "consensus_config \<Rightarrow> 'm mempool_adapter \<Rightarrow> (adapter_error, unit) outcome \<times> 'm mempool_adapter" where
  "ma_set_consensus_config c a =
     (case cb_set_consensus_config (ma_builder a) c of
        Ok b \<Rightarrow> (Ok (), a\<lparr>ma_builder := b\<rparr>)
      | Err e \<Rightarrow> (Err (ConfigFailed e), a)
      | Panic \<Rightarrow> (Panic, a))"

text \<open>\<open>overrides\<close> compares two genesis descriptions and belongs to the block library.\<close>

definition process_state_update ::
  "(byte list \<Rightarrow> 256 word) \<Rightarrow> (nat \<Rightarrow> nat) \<Rightarrow> (genesis_info \<Rightarrow> genesis_info \<Rightarrow> bool) \<Rightarrow> state_update_context
   \<Rightarrow> 'm mempool_adapter \<Rightarrow> (adapter_error, unit) outcome \<times> 'm mempool_adapter" where
  "process_state_update blake3 hint overrides new_cx a =
     (let new_genesis = ci_genesis_info (cx_consensus_info new_cx);
          start_with = (\<lambda>(r, a). case r of Ok () \<Rightarrow> ma_start_merged blake3 hint new_cx a | e \<Rightarrow> (e, a))
      in case ma_session a of
           Some session \<Rightarrow>
             if es_genesis_info session = new_genesis then
               (case init_peers_of new_cx of
                  Ok peers \<Rightarrow> (Ok (), a\<lparr>ma_session := Some (session\<lparr>es_last_peers := peers\<rparr>)\<rparr>)
                | Err e \<Rightarrow> (Err e, a)
                | Panic \<Rightarrow> (Panic, a))
             else
               let a = a\<lparr>ma_session := None,
                         ma_shuttle := (ma_shuttle a)\<lparr>sh_cache := ca_reset (sh_cache (ma_shuttle a))\<rparr>,
                         ma_builder := cb_set_genesis (ma_builder a) new_genesis\<rparr>
               in start_with (ma_set_consensus_config (cx_consensus_config new_cx) a)
         | None \<Rightarrow>
             (case (case cb_genesis_info (ma_builder a) of
                      None \<Rightarrow> None
                    | Some genesis \<Rightarrow> if overrides genesis new_genesis then Some genesis else None) of
                Some genesis_override \<Rightarrow>
                  if \<not> (unat (gi_start_round genesis_override) \<ge> cx_top_processed_to_anchor_id new_cx
                       \<and> gi_genesis_millis genesis_override \<ge> cx_mc_block_chain_time new_cx)
                  then (Err GenesisOutdated, a)
                  else start_with (case cb_consensus_config (ma_builder a) of
                                     Some _ \<Rightarrow> (Ok (), a)
                                   | None \<Rightarrow> ma_set_consensus_config (cx_consensus_config new_cx) a)
              | None \<Rightarrow>
                  start_with (ma_set_consensus_config (cx_consensus_config new_cx)
                    (a\<lparr>ma_builder := cb_set_genesis (ma_builder a) new_genesis\<rparr>))))"

fun process_state_updates ::
  "(byte list \<Rightarrow> 256 word) \<Rightarrow> (nat \<Rightarrow> nat) \<Rightarrow> (genesis_info \<Rightarrow> genesis_info \<Rightarrow> bool) \<Rightarrow> state_update_context list
   \<Rightarrow> 'm mempool_adapter \<Rightarrow> (adapter_error, unit) outcome \<times> 'm mempool_adapter" where
  "process_state_updates blake3 hint overrides [] a = (Ok (), a)"
| "process_state_updates blake3 hint overrides (cx # cxs) a =
     (case process_state_update blake3 hint overrides cx a of
        (Ok (), a) \<Rightarrow> process_state_updates blake3 hint overrides cxs
          (a\<lparr>ma_top_known_anchor := rw_set_max (cx_top_processed_to_anchor_id cx) (ma_top_known_anchor a)\<rparr>)
      | (e, a) \<Rightarrow> (e, a))"

definition handle_mc_state_update ::
  "(byte list \<Rightarrow> 256 word) \<Rightarrow> (nat \<Rightarrow> nat) \<Rightarrow> (genesis_info \<Rightarrow> genesis_info \<Rightarrow> bool) \<Rightarrow> state_update_context
   \<Rightarrow> 'm mempool_adapter \<Rightarrow> (adapter_error, unit) outcome \<times> 'm mempool_adapter" where
  "handle_mc_state_update blake3 hint overrides new_cx a =
     (case su_push new_cx (ma_queue a) of
        Ok (Some cx, q) \<Rightarrow> process_state_updates blake3 hint overrides [cx] (a\<lparr>ma_queue := q\<rparr>)
      | Ok (None, q) \<Rightarrow> (Ok (), a\<lparr>ma_queue := q\<rparr>)
      | Err e \<Rightarrow> (Err (QueueFailed e), a)
      | Panic \<Rightarrow> (Panic, a))"

definition handle_signed_mc_block ::
  "(byte list \<Rightarrow> 256 word) \<Rightarrow> (nat \<Rightarrow> nat) \<Rightarrow> (genesis_info \<Rightarrow> genesis_info \<Rightarrow> bool) \<Rightarrow> nat
   \<Rightarrow> 'm mempool_adapter \<Rightarrow> (adapter_error, unit) outcome \<times> 'm mempool_adapter" where
  "handle_signed_mc_block blake3 hint overrides mc_block_seqno a =
     (case su_signed_block mc_block_seqno (ma_queue a) of
        Ok (cxs, q) \<Rightarrow> process_state_updates blake3 hint overrides cxs (a\<lparr>ma_queue := q\<rparr>)
      | Err e \<Rightarrow> (Err (QueueFailed e), a)
      | Panic \<Rightarrow> (Panic, a))"

section \<open>Restart after a gap\<close>

text \<open>The payloads of an anchor; set aside by an anchor without a history.\<close>

definition anchor_payload :: "point_tl \<Rightarrow> mempool_db \<Rightarrow> anchor_data \<Rightarrow> (store_error, byte list list) outcome" where
  "anchor_payload tl_lib db a = (if ad_history a = [] then Ok [] else ms_expand_anchor_history tl_lib (ad_history a) db)"

abbreviation anchor_round :: "anchor_data \<Rightarrow> round" where
  "anchor_round a \<equiv> pi_round (ad_anchor a)"

definition executed ::
  "(byte list \<Rightarrow> digest) \<Rightarrow> ('c, 'i) cell_lib \<Rightarrow> nat \<Rightarrow> (round \<times> digest) list \<Rightarrow> anchor_data \<Rightarrow> byte list list
   \<Rightarrow> ('c, 'i) external_message mempool_anchor" where
  "executed blake3 lib t bl a payload =
     \<lparr>an_id = anchor_round a, an_prev_id = ad_prev_anchor a, an_author = pi_author (ad_anchor a),
      an_chain_time = pi_time (ad_anchor a),
      an_externals = map fst (prs_parsed lib (fresh_bytes blake3 t bl (anchor_round a) payload))\<rparr>"

definition sh_inv ::
  "(byte list \<Rightarrow> digest) \<Rightarrow> ('c, 'i) cell_lib \<Rightarrow> nat \<Rightarrow> (round \<times> digest) list \<Rightarrow> round \<Rightarrow> 'm shuttle \<Rightarrow> bool" where
  "sh_inv blake3 lib t bl now s \<longleftrightarrow> (\<exists>sl. prs_inv t bl sl now (sh_parser s) \<and> logs_linked blake3 lib bl sl)"

lemma anchor_payload_points: "mdb_points db = mdb_points db' \<Longrightarrow> anchor_payload tl_lib db a = anchor_payload tl_lib db' a"
  by (simp add: anchor_payload_def ms_expand_anchor_history_def)

lemma set_committed_points: "mdb_points (ms_set_committed anchor history db) = mdb_points db"
  by (simp add: ms_set_committed_def Let_def)

lemma sh_handle_step:
  assumes "one_encoding blake3 lib" "sh_inv blake3 lib t bl now s" "1 \<le> t"
    and "now \<le> anchor_round a" "1 \<le> anchor_round a" "anchor_round a < u32_max"
    and "anchor_payload tl_lib (sh_db s) a = Ok pl"
  obtains s' where "handle_mempool_output blake3 tl_lib lib t (NextAnchor a) s = Ok s'"
    "sh_inv blake3 lib t (bl @ blake_log blake3 (anchor_round a) pl) (anchor_round a) s'"
    "mdb_points (sh_db s') = mdb_points (sh_db s)" "sh_first_after_gap s' = sh_first_after_gap s"
    "ca_anchors (sh_cache s') = (if case sh_first_after_gap s of None \<Rightarrow> True | Some f \<Rightarrow> f \<le> anchor_round a
       then im_update (anchor_round a) (executed blake3 lib t bl a pl) (ca_anchors (sh_cache s)) else ca_anchors (sh_cache s))"
proof -
  from assms(2) obtain sl where inv: "prs_inv t bl sl now (sh_parser s)" "logs_linked blake3 lib bl sl"
    by (auto simp: sh_inv_def)
  obtain n p' p'' where p: "prs_parse_unique blake3 lib (anchor_round a) pl (sh_parser s)
      = Ok ((map fst (prs_parsed lib (fresh_bytes blake3 t bl (anchor_round a) pl)), n), p')"
    "prs_clean (anchor_round a) p' = Ok p''"
    "prs_inv t (bl @ blake_log blake3 (anchor_round a) pl)
       (sl @ sha_log lib (anchor_round a) (fresh_bytes blake3 t bl (anchor_round a) pl)) (anchor_round a) p''"
    using parse_unique_first_seen [OF inv(1) assms(3-6), of blake3 lib pl] sha_filter_inert [OF assms(1) inv(2) assms(3)]
    by auto
  have pay: "as_expand_anchor_history tl_lib (ad_anchor a) (ad_history a) (sh_db s, sh_commit_finished s)
      = Ok (pl, ms_set_committed (ad_anchor a) (ad_history a) (sh_db s), rw_set_max (anchor_round a) (sh_commit_finished s))"
    using assms(7) by (auto simp: as_expand_anchor_history_def anchor_payload_def split: if_splits)
  define cache where "cache = (if case sh_first_after_gap s of None \<Rightarrow> True | Some f \<Rightarrow> f \<le> anchor_round a
    then ca_push (executed blake3 lib t bl a pl) (sh_cache s) else sh_cache s)"
  let ?s' = "s\<lparr>sh_cache := cache, sh_db := ms_set_committed (ad_anchor a) (ad_history a) (sh_db s),
    sh_commit_finished := rw_set_max (anchor_round a) (sh_commit_finished s), sh_parser := p''\<rparr>"
  show ?thesis
  proof (rule that [of ?s'])
    show "handle_mempool_output blake3 tl_lib lib t (NextAnchor a) s = Ok ?s'"
      using pay p(1,2) by (simp add: handle_mempool_output_def sh_handle_def executed_def cache_def Let_def)
    show "sh_inv blake3 lib t (bl @ blake_log blake3 (anchor_round a) pl) (anchor_round a) ?s'"
      using p(3) logs_linked_step [OF inv(2)] by (auto simp: sh_inv_def)
  qed (simp_all add: set_committed_points cache_def ca_push_def executed_def)
qed

text \<open>The log of hashes after a list of anchors.\<close>

definition anchors_log :: "(byte list \<Rightarrow> digest) \<Rightarrow> (anchor_data \<Rightarrow> byte list list) \<Rightarrow> anchor_data list \<Rightarrow> (round \<times> digest) list" where
  "anchors_log blake3 payload as = concat (map (\<lambda>a. blake_log blake3 (anchor_round a) (payload a)) as)"

lemma anchors_log_simps [simp]:
  "anchors_log blake3 payload [] = []"
  "anchors_log blake3 payload (a # as) = blake_log blake3 (anchor_round a) (payload a) @ anchors_log blake3 payload as"
  by (simp_all add: anchors_log_def)

lemma anchors_log_rounds: "e \<in> set (anchors_log blake3 payload as) \<Longrightarrow> fst e \<in> anchor_round ` set as"
  by (auto simp: anchors_log_def blake_log_def)

definition in_order :: "round \<Rightarrow> anchor_data list \<Rightarrow> bool" where
  "in_order now as \<longleftrightarrow> sorted_wrt (<) (map anchor_round as) \<and> (\<forall>a\<in>set as. now \<le> anchor_round a \<and> 1 \<le> anchor_round a \<and> anchor_round a < u32_max)"

lemma in_order_Cons:
  "in_order now (a # as) \<longleftrightarrow> now \<le> anchor_round a \<and> 1 \<le> anchor_round a \<and> anchor_round a < u32_max
    \<and> in_order (anchor_round a) as \<and> (\<forall>b\<in>set as. anchor_round a < anchor_round b)"
  unfolding in_order_def by (auto intro: less_imp_le dual_order.strict_trans2)

lemma sh_run_Cons: "sh_run blake3 tl_lib lib t (out # outs) s
    = bindR (handle_mempool_output blake3 tl_lib lib t out s) (sh_run blake3 tl_lib lib t outs)"
  by (simp add: sh_run_def)

lemma sh_run_keeps:
  assumes "one_encoding blake3 lib" "1 \<le> t"
    and "sh_inv blake3 lib t bl now s" "in_order now as" "\<forall>a\<in>set as. anchor_payload tl_lib (sh_db s) a = Ok (payload a)"
  shows "\<exists>s'. sh_run blake3 tl_lib lib t (map NextAnchor as) s = Ok s'
    \<and> sh_inv blake3 lib t (bl @ anchors_log blake3 payload as) (fold (\<lambda>a _. anchor_round a) as now) s'
    \<and> mdb_points (sh_db s') = mdb_points (sh_db s) \<and> sh_first_after_gap s' = sh_first_after_gap s
    \<and> fst ` set (ca_anchors (sh_cache s')) \<subseteq> fst ` set (ca_anchors (sh_cache s)) \<union> {r \<in> anchor_round ` set as.
        case sh_first_after_gap s of None \<Rightarrow> True | Some f \<Rightarrow> f \<le> r}"
  using assms(3-)
proof (induction as arbitrary: bl now s)
  case Nil
  then show ?case by (simp add: sh_run_def)
next
  case (Cons a as)
  obtain s1 where s1: "handle_mempool_output blake3 tl_lib lib t (NextAnchor a) s = Ok s1"
    "sh_inv blake3 lib t (bl @ blake_log blake3 (anchor_round a) (payload a)) (anchor_round a) s1"
    "mdb_points (sh_db s1) = mdb_points (sh_db s)" "sh_first_after_gap s1 = sh_first_after_gap s"
    "ca_anchors (sh_cache s1) = (if case sh_first_after_gap s of None \<Rightarrow> True | Some f \<Rightarrow> f \<le> anchor_round a
       then im_update (anchor_round a) (executed blake3 lib t bl a (payload a)) (ca_anchors (sh_cache s)) else ca_anchors (sh_cache s))"
    by (rule sh_handle_step [OF assms(1) Cons.prems(1) assms(2), of a tl_lib "payload a"]) (use Cons.prems in \<open>auto simp: in_order_Cons\<close>)
  have "\<forall>a\<in>set as. anchor_payload tl_lib (sh_db s1) a = Ok (payload a)"
    using Cons.prems(3) anchor_payload_points [OF s1(3)] by simp
  with Cons.IH [OF s1(2)] Cons.prems(2) s1(3,4) obtain s' where s': "sh_run blake3 tl_lib lib t (map NextAnchor as) s1 = Ok s'"
    "sh_inv blake3 lib t ((bl @ blake_log blake3 (anchor_round a) (payload a)) @ anchors_log blake3 payload as)
       (fold (\<lambda>a _. anchor_round a) as (anchor_round a)) s'"
    "mdb_points (sh_db s') = mdb_points (sh_db s)" "sh_first_after_gap s' = sh_first_after_gap s"
    "fst ` set (ca_anchors (sh_cache s')) \<subseteq> fst ` set (ca_anchors (sh_cache s1)) \<union> {r \<in> anchor_round ` set as.
        case sh_first_after_gap s of None \<Rightarrow> True | Some f \<Rightarrow> f \<le> r}"
    by (auto simp: in_order_Cons)
  have "fst ` set (ca_anchors (sh_cache s1)) \<subseteq> fst ` set (ca_anchors (sh_cache s)) \<union> {r \<in> {anchor_round a}.
        case sh_first_after_gap s of None \<Rightarrow> True | Some f \<Rightarrow> f \<le> r}"
    using s1(5) by (simp add: im_update_key_set)
  with s1(1) s' show ?case by (auto simp: sh_run_Cons)
qed

lemma sh_inv_later: "sh_inv blake3 lib t bl now s \<Longrightarrow> now \<le> r \<Longrightarrow> sh_inv blake3 lib t bl r s"
  unfolding sh_inv_def prs_inv_def using dd_inv_later by blast

lemma filter_im_update:
  "filter (\<lambda>e. n \<le> fst e) (im_update k v m)
    = (if n \<le> k then im_update k v (filter (\<lambda>e. n \<le> fst e) m) else filter (\<lambda>e. n \<le> fst e) m)"
  by (induction k v m rule: im_update.induct) auto

definition logs_agree :: "round \<Rightarrow> (round \<times> digest) list \<Rightarrow> (round \<times> digest) list \<Rightarrow> bool" where
  "logs_agree b bl bl' \<longleftrightarrow> (\<forall>e. b \<le> fst e \<longrightarrow> (e \<in> set bl \<longleftrightarrow> e \<in> set bl'))"

lemma logs_agree_append: "logs_agree b bl bl' \<Longrightarrow> logs_agree b (bl @ ext) (bl' @ ext)"
  by (auto simp: logs_agree_def)

text \<open>Two handlers that go on with the same anchors, one of them after a gap.\<close>

lemma sh_runs_agree:
  assumes "one_encoding blake3 lib" "1 \<le> t"
    and "sh_inv blake3 lib t bl now s" "sh_inv blake3 lib t bl' now s'" "logs_agree b bl bl'"
    and "in_order now as" "\<forall>a\<in>set as. anchor_payload tl_lib (sh_db s) a = Ok (payload a) \<and> anchor_payload tl_lib (sh_db s') a = Ok (payload a)"
    and "sh_first_after_gap s = None" "sh_first_after_gap s' = Some (sat_add u32_max b t)"
    and "ca_anchors (sh_cache s') = filter (\<lambda>e. b + t \<le> fst e) (ca_anchors (sh_cache s))"
  shows "\<exists>z z'. sh_run blake3 tl_lib lib t (map NextAnchor as) s = Ok z \<and> sh_run blake3 tl_lib lib t (map NextAnchor as) s' = Ok z'
    \<and> ca_anchors (sh_cache z') = filter (\<lambda>e. b + t \<le> fst e) (ca_anchors (sh_cache z))"
  using assms(3-)
proof (induction as arbitrary: bl bl' now s s')
  case Nil
  then show ?case by (simp add: sh_run_def)
next
  case (Cons a as)
  note prems = Cons.prems
  let ?r = "anchor_round a" and ?pl = "payload a"
  let ?log = "blake_log blake3 ?r ?pl"
  from prems(4) have r: "now \<le> ?r" "1 \<le> ?r" "?r < u32_max" "in_order ?r as" by (simp_all add: in_order_Cons)
  obtain s1 where s1: "handle_mempool_output blake3 tl_lib lib t (NextAnchor a) s = Ok s1" "sh_inv blake3 lib t (bl @ ?log) ?r s1"
    "mdb_points (sh_db s1) = mdb_points (sh_db s)" "sh_first_after_gap s1 = sh_first_after_gap s"
    "ca_anchors (sh_cache s1) = (if case sh_first_after_gap s of None \<Rightarrow> True | Some f \<Rightarrow> f \<le> ?r
       then im_update ?r (executed blake3 lib t bl a ?pl) (ca_anchors (sh_cache s)) else ca_anchors (sh_cache s))"
    by (rule sh_handle_step [OF assms(1) prems(1) assms(2) r(1-3), of tl_lib ?pl]) (use prems(5) in simp_all)
  obtain s1' where s1': "handle_mempool_output blake3 tl_lib lib t (NextAnchor a) s' = Ok s1'" "sh_inv blake3 lib t (bl' @ ?log) ?r s1'"
    "mdb_points (sh_db s1') = mdb_points (sh_db s')" "sh_first_after_gap s1' = sh_first_after_gap s'"
    "ca_anchors (sh_cache s1') = (if case sh_first_after_gap s' of None \<Rightarrow> True | Some f \<Rightarrow> f \<le> ?r
       then im_update ?r (executed blake3 lib t bl' a ?pl) (ca_anchors (sh_cache s')) else ca_anchors (sh_cache s'))"
    by (rule sh_handle_step [OF assms(1) prems(2) assms(2) r(1-3), of tl_lib ?pl]) (use prems(5) in simp_all)
  have "executed blake3 lib t bl a ?pl = executed blake3 lib t bl' a ?pl" if "b + t \<le> ?r"
    using fresh_bytes_agree [of b bl bl' t ?r blake3 ?pl] that prems(3) by (simp add: executed_def logs_agree_def)
  then have "ca_anchors (sh_cache s1') = filter (\<lambda>e. b + t \<le> fst e) (ca_anchors (sh_cache s1))"
    using s1(5) s1'(5) prems(6-8) r(3) by (auto simp: filter_im_update sat_add_def)
  moreover have "\<forall>a\<in>set as. anchor_payload tl_lib (sh_db s1) a = Ok (payload a) \<and> anchor_payload tl_lib (sh_db s1') a = Ok (payload a)"
    using prems(5) anchor_payload_points [OF s1(3)] anchor_payload_points [OF s1'(3)] by simp
  ultimately obtain z z' where "sh_run blake3 tl_lib lib t (map NextAnchor as) s1 = Ok z"
      "sh_run blake3 tl_lib lib t (map NextAnchor as) s1' = Ok z'"
      "ca_anchors (sh_cache z') = filter (\<lambda>e. b + t \<le> fst e) (ca_anchors (sh_cache z))"
    using Cons.IH [OF s1(2) s1'(2) logs_agree_append [OF prems(3)] r(4)] s1(4) s1'(4) prems(6,7) by auto
  with s1(1) s1'(1) show ?case by (simp add: sh_run_Cons)
qed

lemma sh_run_append: "sh_run blake3 tl_lib lib t (outs @ outs') s
    = bindR (sh_run blake3 tl_lib lib t outs s) (sh_run blake3 tl_lib lib t outs')"
  by (simp add: sh_run_def foldR_append)

lemma sh_inv_fresh: "sh_parser s = prs_new t \<Longrightarrow> sh_inv blake3 lib t [] now s"
  unfolding sh_inv_def by (intro exI [of _ "[]"]) (simp add: prs_inv_new logs_linked_def)

lemma fold_last_round: "in_order now as \<Longrightarrow> \<forall>a\<in>set as. anchor_round a < b \<Longrightarrow> now \<le> b \<Longrightarrow> fold (\<lambda>a _. anchor_round a) as now \<le> b"
  by (induction as arbitrary: now) (auto simp: in_order_Cons intro: less_imp_le)

lemma no_early_anchors:
  assumes "fst ` set m \<subseteq> {r \<in> anchor_round ` set as. f \<le> r}" "\<And>a. a \<in> set as \<Longrightarrow> anchor_round a < f"
  shows "m = []"
proof (rule ccontr)
  assume "m \<noteq> []"
  then have "fst (hd m) \<in> fst ` set m" by simp
  then have "fst (hd m) \<in> {r \<in> anchor_round ` set as. f \<le> r}" by (rule subsetD [OF assms(1)])
  then obtain a where "a \<in> set as" "f \<le> anchor_round a" by auto
  with assms(2) [of a] show False by simp
qed


definition ex_hash :: "byte list \<Rightarrow> digest" where
  "ex_hash bytes = word_of_nat (be_nat bytes)"

text \<open>Cells are byte strings, decoded by a function; their hash is that of the bytes.\<close>

definition ex_cell_lib :: "(byte list \<Rightarrow> byte list) \<Rightarrow> (byte list, unit) cell_lib" where
  "ex_cell_lib decode = \<lparr>cl_boc_decode = \<lambda>bytes. Some (decode bytes), cl_is_exotic = \<lambda>_. False, cl_level = \<lambda>_. 0,
     cl_repr_depth = \<lambda>_. 0, cl_repr_hash = ex_hash, cl_load_ext_in = \<lambda>_. Some ()\<rparr>"

definition ex_handled_anchor :: "round \<Rightarrow> point_info list \<Rightarrow> anchor_data" where
  "ex_handled_anchor r history = \<lparr>ad_prev_anchor = None, ad_anchor = pt_info (ex_stored_point r 0), ad_history = history\<rparr>"

lemma ex_handled_payload:
  "anchor_payload ex_tl ex_db (ex_handled_anchor r [pt_info (ex_stored_point 7 9)]) = Ok [[7], [7]]"
  "anchor_payload ex_tl ex_db (ex_handled_anchor r [pt_info (ex_stored_point 300 5)]) = Ok [[44], [44]]"
proof -
  have wf: "bm_wf (mdb_points ex_db)" using ex_db_wf by (simp add: db_wf_def keyed_def)
  from expand_history [OF wf, of "[pt_info (ex_stored_point 7 9)]" ex_tl "\<lambda>_. [[7], [7]]"]
    expand_history [OF wf, of "[pt_info (ex_stored_point 300 5)]" ex_tl "\<lambda>_. [[44], [44]]"]
  show "anchor_payload ex_tl ex_db (ex_handled_anchor r [pt_info (ex_stored_point 7 9)]) = Ok [[7], [7]]"
    "anchor_payload ex_tl ex_db (ex_handled_anchor r [pt_info (ex_stored_point 300 5)]) = Ok [[44], [44]]"
    by (simp_all add: anchor_payload_def ex_handled_anchor_def ex_stored_point_def ex_tl_def ex_db_raw u32_max_def)
qed


section \<open>Two encodings of one message\<close>

text \<open>What the parser delivers for a list of anchors, the parsing and cleaning of \<^verbatim>\<open>Shuttle::handle\<close>.\<close>

fun prs_anchors ::
  "(byte list \<Rightarrow> digest) \<Rightarrow> ('c, 'i) cell_lib \<Rightarrow> (round \<times> byte list list) list \<Rightarrow> parser
   \<Rightarrow> (unit, (round \<times> ('c, 'i) external_message list) list) outcome" where
  "prs_anchors blake3 lib [] p = Ok []"
| "prs_anchors blake3 lib ((r, payloads) # as) p =
     bindR (prs_parse_unique blake3 lib r payloads p) (\<lambda>((msgs, _), p).
     bindR (prs_clean r p) (\<lambda>p.
     bindR (prs_anchors blake3 lib as p) (\<lambda>out. Ok ((r, msgs) # out))))"


end
