(* ===== verification/Committer_Task.thy ===== *)
theory Committer_Task
  imports Commit_Order Mempool_Adapter
begin

text \<open>
  The task around the committer: \<^verbatim>\<open>consensus/src/engine/committer_task.rs\<close>.

  When the committer holds more rounds than the front, it may give up a part of its history: it drops
  rounds up to a conflict and tries again. Otherwise a conflict ends the session. The spawned task is
  its result; what it sends to the adapter is a list of outputs. The panic that guards the loop against
  running forever is an error value of its own, so that it can be told from other panics.

  The lemmas show that a conflict is always found at a round that the committer holds, so that
  every turn of the loop shortens the DAG and the guard is never reached.
\<close>

section \<open>Model\<close>

definition cm_bottom_round :: "committer \<Rightarrow> (unit, round) outcome" where
  "cm_bottom_round c = db_bottom_round (cm_dag c)"

datatype drop_panic = InfiniteLoop

function ct_drop_loop ::
  "('g \<Rightarrow> (peer_id \<times> digest) list \<Rightarrow> (peer_id \<times> digest) list \<times> 'g) \<Rightarrow> (digest \<Rightarrow> 'g) \<Rightarrow> mempool_config
   \<Rightarrow> nat \<Rightarrow> nat \<Rightarrow> committer \<Rightarrow> round option
   \<Rightarrow> (drop_panic, anchor_data list option \<times> round option \<times> committer) outcome" where
  "ct_drop_loop shuffle seed conf start_dag_len attempt c new_full_history_bottom =
     (case cm_commit shuffle seed conf c of
        Ok (Inr data, c) \<Rightarrow> Ok (Some data, new_full_history_bottom, c)
      | Ok (Inl round, c) \<Rightarrow>
          bindR (round_next round) (\<lambda>after.
            case cm_drop_upto after conf c of
              Ok (Inl new_bottom, c) \<Rightarrow> Ok (None, Some new_bottom, c)
            | Ok (Inr new_bottom, c) \<Rightarrow>
                if attempt > start_dag_len then Err InfiniteLoop
                else ct_drop_loop shuffle seed conf start_dag_len (attempt + 1) c (Some new_bottom)
            | _ \<Rightarrow> Panic)
      | _ \<Rightarrow> Panic)"
  by pat_completeness auto

termination
  by (relation "measure (\<lambda>(_, _, _, start_dag_len, attempt, _, _). start_dag_len + 1 - attempt)") auto

declare ct_drop_loop.simps [simp del]

definition ct_outputs :: "round option \<Rightarrow> anchor_data list option \<Rightarrow> mempool_output list" where
  "ct_outputs new_bottom committed =
     (case new_bottom of None \<Rightarrow> [] | Some r \<Rightarrow> [NewStartAfterGap r])
     @ (case committed of None \<Rightarrow> [] | Some datas \<Rightarrow> map NextAnchor datas)"

definition ct_dropping ::
  "('g \<Rightarrow> (peer_id \<times> digest) list \<Rightarrow> (peer_id \<times> digest) list \<times> 'g) \<Rightarrow> (digest \<Rightarrow> 'g) \<Rightarrow> mempool_config
   \<Rightarrow> round option \<Rightarrow> committer \<Rightarrow> (drop_panic, mempool_output list \<times> committer) outcome" where
  "ct_dropping shuffle seed conf full_history_bottom c =
     (case cm_bottom_round c of
        Ok start_bottom \<Rightarrow>
          bindR (ct_drop_loop shuffle seed conf (length (cm_dag c)) 0 c None) (\<lambda>(committed, new_bottom, c).
            Ok (ct_outputs (case new_bottom of None \<Rightarrow> full_history_bottom | Some r \<Rightarrow> Some r) committed, c))
      | _ \<Rightarrow> Panic)"

text \<open>\<open>Inl\<close> is the conflict that ends the session.\<close>

definition ct_fallible ::
  "('g \<Rightarrow> (peer_id \<times> digest) list \<Rightarrow> (peer_id \<times> digest) list \<times> 'g) \<Rightarrow> (digest \<Rightarrow> 'g) \<Rightarrow> mempool_config
   \<Rightarrow> round option \<Rightarrow> committer \<Rightarrow> (drop_panic, round + mempool_output list \<times> committer) outcome" where
  "ct_fallible shuffle seed conf full_history_bottom c =
     (case cm_bottom_round c of
        Ok start_bottom \<Rightarrow>
          (case cm_commit shuffle seed conf c of
             Ok (Inr committed, c) \<Rightarrow> Ok (Inr (ct_outputs full_history_bottom (Some committed), c))
           | Ok (Inl round, c) \<Rightarrow> Ok (Inl round)
           | _ \<Rightarrow> Panic)
      | _ \<Rightarrow> Panic)"

definition ct_update_task ::
  "('g \<Rightarrow> (peer_id \<times> digest) list \<Rightarrow> (peer_id \<times> digest) list \<times> 'g) \<Rightarrow> (digest \<Rightarrow> 'g) \<Rightarrow> mempool_config
   \<Rightarrow> round option \<Rightarrow> committer \<Rightarrow> (drop_panic, round + mempool_output list \<times> committer) outcome" where
  "ct_update_task shuffle seed conf full_history_bottom c =
     (if length (cm_dag c) > min_front_rounds (mc_consensus conf)
      then bindR (ct_dropping shuffle seed conf full_history_bottom c) (\<lambda>r. Ok (Inr r))
      else ct_fallible shuffle seed conf full_history_bottom c)"

section \<open>Where conflicts are found\<close>

lemma never_Err [simp]:
  "round_prev r \<noteq> Err e" "round_next r \<noteq> Err e" "db_range lo hi rounds \<noteq> Err e" "proof_stage pid d \<noteq> Err e"
  "pi_prev_id i \<noteq> Err e"
  by (auto simp: round_prev_def round_next_def db_range_def bm_range_def proof_stage_def pi_prev_id_def bindR_Err_iff
      split: option.splits if_splits)

lemma anchor_never_Err [simp]: "pi_anchor_id i role \<noteq> Err e" "pi_anchor_round i role \<noteq> Err e"
  by (auto simp: pi_anchor_id_def pi_anchor_round_def pd_anchor_id_def pd_anchor_round_def pd_anchor_link_id_def
      pd_link_hop_def bindR_Err_iff split: link.splits through.splits option.splits)

lemma bindR_ErrE: "bindR m f = Err e \<Longrightarrow> (m = Err e \<Longrightarrow> P) \<Longrightarrow> (\<And>a. m = Ok a \<Longrightarrow> f a = Err e \<Longrightarrow> P) \<Longrightarrow> P"
  by (cases m) auto

lemma if_ErrE: "(if b then x else y) = Err z \<Longrightarrow> (b \<Longrightarrow> x = Err z \<Longrightarrow> P) \<Longrightarrow> (\<not> b \<Longrightarrow> y = Err z \<Longrightarrow> P) \<Longrightarrow> P"
  by (cases b) auto

lemma option_ErrE:
  "(case x of None \<Rightarrow> a | Some v \<Rightarrow> f v) = Err z \<Longrightarrow> (x = None \<Longrightarrow> a = Err z \<Longrightarrow> P)
   \<Longrightarrow> (\<And>v. x = Some v \<Longrightarrow> f v = Err z \<Longrightarrow> P) \<Longrightarrow> P"
  by (cases x) auto

lemma list_ErrE:
  "(case xs of [] \<Rightarrow> a | x # r \<Rightarrow> f x r) = Err z \<Longrightarrow> (xs = [] \<Longrightarrow> a = Err z \<Longrightarrow> P)
   \<Longrightarrow> (\<And>x r. xs = x # r \<Longrightarrow> f x r = Err z \<Longrightarrow> P) \<Longrightarrow> P"
  by (cases xs) auto

lemma prod_ErrE: "(case p of (a, b) \<Rightarrow> f a b) = Err z \<Longrightarrow> (\<And>a b. p = (a, b) \<Longrightarrow> f a b = Err z \<Longrightarrow> P) \<Longrightarrow> P"
  by (cases p) auto

lemmas outcome_err_elims = bindR_ErrE if_ErrE option_ErrE list_ErrE prod_ErrE

lemma ready_conflict: "ready_valid_point d author dg = Err (HistoryConflict r) \<Longrightarrow> r = dr_round d"
  by (auto simp: ready_valid_point_def ready_dag_point_def split: option.splits future.splits dag_point.splits if_splits)

lemma find_or_first_in: "find_or_first P xs = Some x \<Longrightarrow> x \<in> set xs"
  by (auto simp: find_or_first_def find_Some_iff split: option.splits list.splits)

lemma trigger_conflict: "any_ready_valid_trigger d author = Inl (HistoryConflict r) \<Longrightarrow> r = dr_round d"
proof -
  assume "any_ready_valid_trigger d author = Inl (HistoryConflict r)"
  then obtain loc :: dag_location where "find_or_first (\<lambda>res. case res of Inr _ \<Rightarrow> True | Inl _ \<Rightarrow> False)
      (List.map_filter (trigger_candidate (dr_round d)) (map snd (dl_versions loc))) = Some (Inl (HistoryConflict r))"
    by (auto simp: any_ready_valid_trigger_def dr_view_def split: option.splits)
  from find_or_first_in [OF this] obtain fut where "trigger_candidate (dr_round d) fut = Some (Inl (HistoryConflict r))"
    by (auto simp: List.map_filter_def)
  then show ?thesis
    by (auto simp: trigger_candidate_def split: future.splits dag_point.splits if_splits)
qed

lemma triggers_conflict: "triggers_back ds acc = Inl r \<Longrightarrow> r \<in> dr_round ` set ds"
proof (induction ds arbitrary: acc)
  case (Cons d ds)
  then show ?case
    by (auto split: option.split_asm if_split_asm sum.split_asm sync_error.split_asm dest: trigger_conflict)
qed simp

lemma unusable_conflict: "unusable_back bottom last_proof ds = Err (HistoryConflict r) \<Longrightarrow> r \<in> dr_round ` set ds"
proof (induction ds arbitrary: last_proof rule: length_induct)
  case (1 ds)
  show ?case
  proof (cases ds)
    case Nil
    with 1 show ?thesis by simp
  next
    case (Cons d older)
    have step: "r \<in> dr_round ` set ds" if "unusable_back bottom l older = Err (HistoryConflict r)" for l
      using 1(1) that Cons by auto
    have jump: "r \<in> dr_round ` set ds" if "unusable_back bottom l older' = Err (HistoryConflict r)" "older = a # older'" for l a older'
      using 1(1) [rule_format, OF _ that(1)] that(2) Cons by auto
    have here: "r \<in> dr_round ` set ds" if "ready_valid_point d a g = Err (HistoryConflict r)" for a g
      using ready_conflict [OF that] Cons by simp
    have below: "r \<in> dr_round ` set ds" if "ready_valid_point a x g = Err (HistoryConflict r)" "older = a # older'" for a x g older'
      using ready_conflict [OF that(1)] that(2) Cons by simp
    show ?thesis
      using 1(2) unfolding Cons unusable_back.simps(2)
      by (elim outcome_err_elims) (erule step [unfolded Cons] jump [unfolded Cons] here [unfolded Cons] below [unfolded Cons] | assumption | simp)+
  qed
qed

lemma chain_conflict:
  "chain_back bottom lpr trigger lookup ds res = Err (HistoryConflict r) \<Longrightarrow> r \<in> dr_round ` set ds"
proof (induction ds arbitrary: lookup res rule: length_induct)
  case (1 ds)
  show ?case
  proof (cases ds)
    case Nil
    with 1 show ?thesis by simp
  next
    case (Cons d older)
    have step: "r \<in> dr_round ` set (d # older)" if "chain_back bottom lpr trigger l older res = Err (HistoryConflict r)" for l res
      using 1(1) that Cons by auto
    have jump: "r \<in> dr_round ` set (d # older)"
      if "chain_back bottom lpr trigger l older' res = Err (HistoryConflict r)" "older = a # older'" for l a older' res
      using 1(1) [rule_format, OF _ that(1)] that(2) Cons by auto
    have here: "r \<in> dr_round ` set (d # older)" if "ready_valid_point d a g = Err (HistoryConflict r)" for a g
      using ready_conflict [OF that] by simp
    have below: "r \<in> dr_round ` set (d # older)" if "ready_valid_point a x g = Err (HistoryConflict r)" "older = a # older'" for a x g older'
      using ready_conflict [OF that(1)] that(2) by simp
    show ?thesis
      using 1(2) unfolding Cons chain_back.simps(2)
      by (elim outcome_err_elims) (erule step jump here below | assumption | simp)+
  qed
qed

lemma gather_point_conflict:
  assumes "foldR (gather_point d) es st = Err (HistoryConflict r)"
  shows "r = dr_round d"
  using assms
proof (induction es arbitrary: st)
  case (Cons e es)
  then show ?case
    by (auto simp: gather_point_def bindR_Err_iff split: prod.split_asm if_split_asm dest: ready_conflict)
qed simp

lemma gather_rounds_conflict:
  "gather_rounds shuffle ds rng nr r0 r1 un = Err (HistoryConflict r) \<Longrightarrow> r \<in> dr_round ` set ds"
proof (induction ds arbitrary: rng nr r0 r1 un)
  case (Cons d ds)
  from Cons.prems show ?case
    by (auto simp: bindR_Err_iff Let_def split: prod.split_asm if_split_asm dest: gather_point_conflict Cons.IH)
qed simp

lemma range_keys:
  assumes "back_wf rounds" "db_range lo hi rounds = Ok ds"
  shows "dr_round ` set ds \<subseteq> set (bm_keys rounds)"
  using range_rounds [OF assms(2)] assms(1) unfolding back_wf_def bm_keys_def by force

lemma gather_conflict:
  assumes "back_wf rounds" "gather_uncommitted shuffle seed full anchor conf rounds = Err (HistoryConflict r)"
  shows "r \<in> set (bm_keys rounds)"
proof -
  from assms(2) obtain limit "before" ds where ds: "db_range limit before rounds = (Ok ds :: (sync_error, dag_round list) outcome)"
      "gather_rounds shuffle (rev ds) (seed (pi_digest anchor)) (pi_round anchor) (pi_includes anchor) (pi_witness anchor) []
        = Err (HistoryConflict r)"
    unfolding gather_uncommitted_def history_limit_def by (auto simp: bindR_Err_iff bindR_Ok_iff split: prod.splits if_splits)
  from gather_rounds_conflict [OF ds(2)] range_keys [OF assms(1) ds(1)] show ?thesis by auto
qed

lemma anchor_chain_conflict:
  assumes "back_wf rounds" "db_anchor_chain lpr trigger rounds = Err (HistoryConflict r)"
  shows "r \<in> set (bm_keys rounds)"
proof -
  have chained: "r \<in> set (bm_keys rounds)"
    if "db_range lo hi rounds = (Ok ds :: (sync_error, dag_round list) outcome)"
      "chain_back b l t p (rev ds) [] = Err (HistoryConflict r)" for lo hi ds b l t p
    using chain_conflict [OF that(2)] range_keys [OF assms(1) that(1)] by auto
  show ?thesis
    using assms(2) unfolding db_anchor_chain_def
    by (elim outcome_err_elims) (erule chained, assumption | simp)+
qed

lemma unusable_round_conflict:
  assumes "back_wf rounds" "db_last_unusable_proof_round trigger rounds = Err (HistoryConflict r)"
  shows "r \<in> set (bm_keys rounds)"
proof -
  have walk: "r \<in> set (bm_keys rounds)"
    if "unusable_back bottom lp (rev (map snd (filter P rounds))) = Err (HistoryConflict r)" for bottom lp P
    using unusable_conflict [OF that] assms(1) unfolding back_wf_def bm_keys_def by force
  show ?thesis
    using assms(2) unfolding db_last_unusable_proof_round_def
    by (elim outcome_err_elims) (erule walk | simp)+
qed

lemma enqueue_triggers_conflict:
  assumes "back_wf dag" "cm_enqueue_triggers dag ts q = Ok (Some r, q')"
  shows "r \<in> set (bm_keys dag)"
  using assms(2)
proof (induction ts arbitrary: q)
  case (Cons trigger rest)
  from Cons.prems show ?case
    by (auto split: outcome.split_asm sync_error.split_asm option.split_asm
        dest: Cons.IH unusable_round_conflict [OF assms(1)] anchor_chain_conflict [OF assms(1)])
qed simp

lemma enqueue_new_conflict:
  assumes "back_wf (cm_dag c)" "cm_enqueue_new_anchors current c = Ok (conflict, c')"
  shows "cm_dag c' = cm_dag c" "conflict = Some r \<Longrightarrow> r \<in> set (bm_keys (cm_dag c))"
proof -
  from assms(2) obtain lo ts where t: "db_triggers lo current (cm_dag c) = Ok ts"
      "(case ts of Inl conf \<Rightarrow> Ok (Some conf, c) | Inr ts \<Rightarrow>
         bindR (cm_enqueue_triggers (cm_dag c) ts (cm_anchor_chain c)) (\<lambda>(conflict, q).
             Ok (conflict, c\<lparr>cm_anchor_chain := q\<rparr>))) = Ok (conflict, c')"
    unfolding cm_enqueue_new_anchors_def by (elim bindR_OkE)
  from t(2) show "cm_dag c' = cm_dag c" by (auto simp: bindR_Ok_iff split: sum.split_asm)
  assume conflict: "conflict = Some r"
  show "r \<in> set (bm_keys (cm_dag c))"
  proof (cases ts)
    case (Inl r')
    with t conflict have "r' = r" "db_triggers lo current (cm_dag c) = Ok (Inl r)" by auto
    then obtain ds where "db_range lo current (cm_dag c) = (Ok ds :: (unit, dag_round list) outcome)" "triggers_back (rev ds) [] = Inl r"
      unfolding db_triggers_def by (auto simp: bindR_Ok_iff split: if_splits)
    with triggers_conflict [OF this(2)] range_keys [OF assms(1) this(1)] show ?thesis by auto
  next
    case (Inr ts')
    with t(2) conflict enqueue_triggers_conflict [OF assms(1)] show ?thesis by (auto simp: bindR_Ok_iff)
  qed
qed

section \<open>The loop ends\<close>

lemma keys_card: "bm_wf m \<Longrightarrow> card (set (bm_keys m)) = length m"
  using distinct_card [OF bm_wf_distinct, of m] by (simp add: bm_keys_def)

lemma same_keys_length: "bm_wf a \<Longrightarrow> bm_wf b \<Longrightarrow> set (bm_keys a) = set (bm_keys b) \<Longrightarrow> length a = length b"
  using keys_card [of a] keys_card [of b] by simp

lemma drop_upto_length: "length (db_drop_upto nb rounds) \<le> length rounds"
  by (simp add: db_drop_upto_def length_dropWhile_le)

lemma dequeue_conflict:
  assumes "back_wf (cm_dag c)" "cm_dequeue_anchor shuffle seed next conf c = Ok (Inl e, c')"
  shows "back_wf (cm_dag c')" "length (cm_dag c') \<le> length (cm_dag c)"
    and "e = HistoryConflict r \<Longrightarrow> r \<in> set (bm_keys (cm_dag c'))"
proof -
  have c': "gather_uncommitted shuffle seed (cm_full_history_bottom c) (ea_anchor next) conf (history_dag next conf c) = Err e"
    "cm_dag c' = history_dag next conf c"
    using assms(2) unfolding cm_dequeue_anchor_def history_dag_def [symmetric] Let_def
    by (auto simp: bindR_Ok_iff split: outcome.splits)
  have "history_dag next conf c \<noteq> []"
  proof
    assume "history_dag next conf c = []"
    with c'(1) show False
      by (auto simp: gather_uncommitted_def history_limit_def bindR_Err_iff db_range_def bm_range_def split: if_splits)
  qed
  then show wf: "back_wf (cm_dag c')" using back_wf_drop [OF assms(1)] by (simp add: c'(2) history_dag_def)
  show "length (cm_dag c') \<le> length (cm_dag c)" by (simp add: c'(2) history_dag_def drop_upto_length)
  show "r \<in> set (bm_keys (cm_dag c'))" if "e = HistoryConflict r"
    using gather_conflict [of "history_dag next conf c"] wf c' that by simp
qed

lemma commit_loop_conflict:
  assumes "back_wf (cm_dag c)" "cm_commit_loop shuffle seed conf c = Ok (out, c')"
  shows "back_wf (cm_dag c') \<and> length (cm_dag c') \<le> length (cm_dag c) \<and> (\<forall>r. out = Inl r \<longrightarrow> r \<in> set (bm_keys (cm_dag c')))"
  using assms
proof (induction "cm_anchor_chain c" arbitrary: c out)
  case Nil
  have "cm_commit_loop shuffle seed conf c = Ok (Inr [], c)"
    by (subst cm_commit_loop.simps) (simp flip: Nil.hyps)
  with Nil.prems show ?case by auto
next
  case (Cons "next" rest)
  note q = Cons.hyps(2) [symmetric]
  let ?c = "c\<lparr>cm_anchor_chain := rest\<rparr>"
  have wf: "back_wf (cm_dag ?c)" using Cons.prems(1) by simp
  have eq: "cm_commit_loop shuffle seed conf c = bindR (cm_dequeue_anchor shuffle seed next conf ?c) (\<lambda>(res, c).
            case res of
              Inl TryLater \<Rightarrow> Ok (Inr [], c)
            | Inl (HistoryConflict round) \<Rightarrow> Ok (Inl round, c)
            | Inr data \<Rightarrow>
                bindR (cm_commit_loop shuffle seed conf c) (\<lambda>(out, c).
                  Ok (case out of Inl round \<Rightarrow> Inl round | Inr committed \<Rightarrow> Inr (data # committed), c)))"
    by (subst cm_commit_loop.simps) (simp only: q list.case)
  show ?case
  proof (rule commit_loop_cases [OF Cons.prems(2) q])
    fix e
    assume d: "cm_dequeue_anchor shuffle seed next conf ?c = Ok (Inl e, c')"
    have "\<forall>r. out = Inl r \<longrightarrow> e = HistoryConflict r"
      using Cons.prems(2) unfolding eq by (cases e) (auto simp: d)
    with dequeue_conflict [OF wf d] show ?thesis by auto
  next
    fix a c1 out1
    assume d: "cm_dequeue_anchor shuffle seed next conf ?c = Ok (Inr a, c1)"
      and o: "cm_commit_loop shuffle seed conf c1 = Ok (out1, c')"
        "out = (case out1 of Inl round \<Rightarrow> Inl round | Inr committed \<Rightarrow> Inr (a # committed))"
    obtain un where un: "back_wf (history_dag next conf ?c)" "back_wf (cm_dag c1)"
        "set (bm_keys (cm_dag c1)) = set (bm_keys (history_dag next conf ?c))"
      by (rule dequeue_cases [OF wf d])
    then have "length (cm_dag c1) = length (history_dag next conf ?c)"
      by (intro same_keys_length) (auto simp: back_wf_def)
    also have "\<dots> \<le> length (cm_dag c)" by (simp add: history_dag_def drop_upto_length)
    finally show ?thesis
      using Cons.hyps(1) [OF _ un(2) o(1)] cm_dequeue_chain [OF d] o(2) by (auto split: sum.splits)
  qed
qed

lemma commit_conflict:
  assumes "back_wf (cm_dag c)" "cm_commit shuffle seed conf c = Ok (out, c')"
  shows "back_wf (cm_dag c') \<and> length (cm_dag c') \<le> length (cm_dag c) \<and> (\<forall>r. out = Inl r \<longrightarrow> r \<in> set (bm_keys (cm_dag c')))"
proof -
  from assms(2) obtain current conflict c1 where e: "cm_enqueue_new_anchors current c = Ok (conflict, c1)"
      "(case conflict of Some round \<Rightarrow> Ok (Inl round, c1) | None \<Rightarrow> cm_commit_loop shuffle seed conf c1) = Ok (out, c')"
    unfolding cm_commit_def cm_commit_up_to_def by (elim outcome_elims) auto
  note enq = enqueue_new_conflict [OF assms(1) e(1)]
  with e(2) commit_loop_conflict [of c1 shuffle seed conf out c'] assms(1) show ?thesis by (auto split: option.split_asm)
qed

lemma drop_conflict_shorter:
  assumes "back_wf (cm_dag c)" "r \<in> set (bm_keys (cm_dag c))" "cm_drop_upto (Suc r) conf c = Ok (Inr nb, c')"
  shows "back_wf (cm_dag c') \<and> length (cm_dag c') < length (cm_dag c)"
proof -
  let ?top = "snd (last (cm_dag c))"
  have ne: "cm_dag c \<noteq> []" "bm_wf (cm_dag c)" using assms(1) by (auto simp: back_wf_def)
  have top: "dr_round ?top = fst (last (cm_dag c))" using assms(1) last_in_set [OF ne(1)] by (auto simp: back_wf_def case_prod_beta)
  from assms(3) ne have c': "Suc r \<le> dr_round ?top" "cm_dag c' = db_drop_upto (Suc r) (cm_dag c)"
    by (auto simp: cm_drop_upto_def db_top_def Let_def min_def split: if_splits)
  have "fst (last (cm_dag c)) \<in> set (bm_keys (cm_dag c'))"
    using drop_upto_facts(2) [OF ne(2)] c' top ne(1) by (auto simp: bm_keys_def)
  then have "cm_dag c' \<noteq> []" by (auto simp: bm_keys_def)
  then have wf: "back_wf (cm_dag c')" using back_wf_drop [OF assms(1)] by (simp add: c'(2))
  have "set (bm_keys (cm_dag c')) \<subset> set (bm_keys (cm_dag c))"
  proof -
    have "r \<in> set (bm_keys (cm_dag c)) - set (bm_keys (cm_dag c'))"
      using drop_upto_facts(2) [OF ne(2), of "Suc r"] assms(2) c'(2) by simp
    moreover have "set (bm_keys (cm_dag c')) \<subseteq> set (bm_keys (cm_dag c))"
      using drop_upto_facts(2) [OF ne(2), of "Suc r"] c'(2) by simp
    ultimately show ?thesis by blast
  qed
  then have "card (set (bm_keys (cm_dag c'))) < card (set (bm_keys (cm_dag c)))" by (intro psubset_card_mono) simp
  with wf ne(2) show ?thesis
    using keys_card [of "cm_dag c'"] keys_card [of "cm_dag c"] by (simp add: back_wf_def)
qed

lemma drop_loop_bounded:
  assumes "back_wf (cm_dag c)" "length (cm_dag c) + attempt \<le> limit + 1" "length (cm_dag c) + attempt \<le> limit' + 1"
  shows "ct_drop_loop shuffle seed conf limit attempt c nb = ct_drop_loop shuffle seed conf limit' attempt c nb
    \<and> ct_drop_loop shuffle seed conf limit attempt c nb \<noteq> Err InfiniteLoop"
  using assms
proof (induction "length (cm_dag c)" arbitrary: attempt c nb rule: less_induct)
  case less
  note unfold = ct_drop_loop.simps [of shuffle seed conf limit attempt c nb] ct_drop_loop.simps [of shuffle seed conf limit' attempt c nb]
  show ?case
  proof (cases "cm_commit shuffle seed conf c")
    case (Ok res)
    obtain out c1 where res: "res = (out, c1)" by (cases res)
    note k = commit_conflict [OF less.prems(1) Ok [unfolded res]]
    show ?thesis
    proof (cases out)
      case (Inr data)
      with Ok res show ?thesis by (simp add: unfold)
    next
      case (Inl r)
      have small: "attempt \<le> limit" "attempt \<le> limit'" 
      proof -
        have "0 < length (cm_dag c)" using less.prems(1) by (simp add: back_wf_def)
        with less.prems(2,3) show "attempt \<le> limit" "attempt \<le> limit'" by linarith+
      qed
      have next_round: "round_next r = (Ok (Suc r) :: (drop_panic, round) outcome) \<or> round_next r = (Panic :: (drop_panic, round) outcome)"
        by (auto simp: round_next_def checked_add_def)
      have more: "ct_drop_loop shuffle seed conf limit (attempt + 1) c2 (Some b) = ct_drop_loop shuffle seed conf limit' (attempt + 1) c2 (Some b)
          \<and> ct_drop_loop shuffle seed conf limit (attempt + 1) c2 (Some b) \<noteq> Err InfiniteLoop"
        if "cm_drop_upto (Suc r) conf c1 = Ok (Inr b, c2)" for b c2
      proof -
        have "back_wf (cm_dag c2)" "length (cm_dag c2) < length (cm_dag c)"
          using drop_conflict_shorter [of c1 r, OF _ _ that] k Inl by auto
        with less.prems(2,3) show ?thesis by (intro less.hyps) simp_all
      qed
      show ?thesis
      proof (cases "round_next r = (Ok (Suc r) :: (drop_panic, round) outcome)")
        case False
        with next_round have p: "round_next r = (Panic :: (drop_panic, round) outcome)" by blast
        show ?thesis unfolding unfold Ok res Inl by (simp add: p)
      next
        case True
        show ?thesis
        proof (cases "cm_drop_upto (Suc r) conf c1")
          case dropped: (Ok x)
          obtain z c2 where x: "x = (z, c2)" by (cases x)
          show ?thesis
          proof (cases z)
            case Inl_z: (Inl b)
            show ?thesis unfolding unfold Ok res Inl by (simp add: True dropped x Inl_z)
          next
            case (Inr b)
            note m = more [OF dropped [unfolded x Inr]]
            have "ct_drop_loop shuffle seed conf l attempt c nb = ct_drop_loop shuffle seed conf l (attempt + 1) c2 (Some b)"
              if "attempt \<le> l" for l
              by (subst ct_drop_loop.simps) (use that in \<open>simp add: Ok res Inl True dropped x Inr\<close>)
            with small m show ?thesis by metis
          qed
        qed (unfold unfold Ok res Inl, simp_all add: True)
      qed
    qed
  qed (simp_all add: unfold)
qed

text \<open>
  C6. Giving up history ends by itself. From a well-formed DAG of the committer the dropping loop makes
  at most as many turns as the DAG has rounds: its result is the same for every bound on the number of
  turns that is not less than the number of rounds, and it never is the panic that guards against an
  infinite loop. So the committer task either ends with outputs and a committer, or panics for a
  reason of the commit itself.
\<close>
theorem dropping_terminates:
  assumes "back_wf (cm_dag c)" "length (cm_dag c) \<le> limit"
  shows "ct_dropping shuffle seed conf full c \<noteq> Err InfiniteLoop
    \<and> ct_drop_loop shuffle seed conf limit 0 c None = ct_drop_loop shuffle seed conf (length (cm_dag c)) 0 c None"
proof -
  from drop_loop_bounded [OF assms(1), of 0 limit "length (cm_dag c)" shuffle seed conf None, simplified, OF le_SucI, OF assms(2)]
  have same: "ct_drop_loop shuffle seed conf limit 0 c None = ct_drop_loop shuffle seed conf (length (cm_dag c)) 0 c None"
    and guard: "ct_drop_loop shuffle seed conf limit 0 c None \<noteq> Err InfiniteLoop" by blast+
  then have "ct_dropping shuffle seed conf full c \<noteq> Err InfiniteLoop"
    unfolding ct_dropping_def same by (simp add: bindR_Err_iff split: prod.splits outcome.splits)
  with same show ?thesis by simp
qed

theorem dropping_terminates_witness:
  "ct_dropping ex_shuffle (\<lambda>_. ()) ex_commit_conf None ex_committer \<noteq> Err InfiniteLoop
   \<and> ct_drop_loop ex_shuffle (\<lambda>_. ()) ex_commit_conf 100 0 ex_committer None
     = ct_drop_loop ex_shuffle (\<lambda>_. ()) ex_commit_conf (length (cm_dag ex_committer)) 0 ex_committer None"
  by (rule dropping_terminates)
    (simp_all add: ex_committer_def back_wf_def bm_wf_def ex_commit_round_wf)

end
