(* ===== verification/Dag_Front.thy ===== *)
theory Dag_Front
  imports Committer_Task
begin

text \<open>
  The growing end of the DAG: \<^verbatim>\<open>consensus/src/dag/front.rs\<close>.

  The front holds the newest rounds, oldest first, and passes older ones to the committer whenever
  the committer is not busy. When the committer lags too far, both are started anew at a higher
  bottom. Rounds are shared with the committer; here each side has its own copy, of which only
  the numbers of rounds matter. \<^verbatim>\<open>head\<close> and \<^verbatim>\<open>top\<close> only read.

  The lemmas show that whatever the committer does meanwhile, its rounds and those of the front stay
  without gaps and overlap or adjoin, so that no assertion in passing them on can fail.
\<close>

section \<open>Model\<close>

record dag_front =
  df_rounds :: "dag_round list"
  df_last_back_bottom :: round
  df_has_pending_back_reset :: bool

definition df_default :: dag_front where
  "df_default = \<lparr>df_rounds = [], df_last_back_bottom = round_bottom, df_has_pending_back_reset = False\<rparr>"

definition df_top :: "dag_front \<Rightarrow> (unit, dag_round) outcome" where
  "df_top f = (if df_rounds f = [] then Panic else Ok (last (df_rounds f)))"

definition df_bottom_round :: "dag_round list \<Rightarrow> (unit, round) outcome" where
  "df_bottom_round rounds = (case rounds of [] \<Rightarrow> Panic | d # _ \<Rightarrow> Ok (dr_round d))"

definition df_init :: "dag_round \<Rightarrow> mempool_config \<Rightarrow> dag_front \<Rightarrow> (unit, committer \<times> dag_front) outcome" where
  "df_init dag_bottom_round conf f =
     (if df_rounds f \<noteq> [] then Panic
      else bindR (cm_init dag_bottom_round conf cm_default) (\<lambda>(_, committer).
        let f = f\<lparr>df_last_back_bottom := dr_round dag_bottom_round, df_rounds := [dag_bottom_round]\<rparr>
        in bindR (cm_bottom_round committer) (\<lambda>bottom.
             if df_last_back_bottom f \<noteq> bottom then Panic else Ok (committer, f))))"

text \<open>Rounds are pushed one after another on the top.\<close>

fun df_grow ::
  "(nat \<Rightarrow> nat \<Rightarrow> nat) \<Rightarrow> stateless \<Rightarrow> mempool_config \<Rightarrow> nat \<Rightarrow> dag_round list \<Rightarrow> (unit, dag_round list) outcome" where
  "df_grow gen_range peer_schedule conf 0 rounds = Ok rounds"
| "df_grow gen_range peer_schedule conf (Suc n) rounds =
     (if rounds = [] then Panic
      else bindR (round_next (dr_round (last rounds))) (\<lambda>next.
           bindR (dr_new gen_range next peer_schedule conf) (\<lambda>d.
             df_grow gen_range peer_schedule conf n (rounds @ [d]))))"

definition df_drain_upto :: "round \<Rightarrow> dag_round list \<Rightarrow> (unit, dag_round list \<times> dag_round list) outcome" where
  "df_drain_upto new_bottom_round rounds =
     bindR (df_bottom_round rounds) (\<lambda>bottom.
       let amount = round_sub new_bottom_round bottom
       in if amount > length rounds then Panic
          else bindR (df_bottom_round (drop amount rounds)) (\<lambda>actual.
            if actual \<noteq> max new_bottom_round bottom then Panic
            else Ok (take amount rounds, drop amount rounds)))"

text \<open>The reset when the committer lags too far, and the new rounds.\<close>

definition df_renew ::
  "(nat \<Rightarrow> nat \<Rightarrow> nat) \<Rightarrow> mempool_config \<Rightarrow> round \<Rightarrow> stateless \<Rightarrow> dag_front \<Rightarrow> (unit, dag_front) outcome" where
  "df_renew gen_range conf new_top peer_schedule f =
     bindR (if new_top > round_add (df_last_back_bottom f) (max_total_rounds (mc_consensus conf)) then
              let new_bottom_round = max (mc_genesis_round conf) (round_sub new_top (reset_rounds (mc_consensus conf)))
              in bindR (dr_new gen_range new_bottom_round peer_schedule conf) (\<lambda>d.
                   Ok \<lparr>df_rounds = [d], df_last_back_bottom = new_bottom_round, df_has_pending_back_reset = True\<rparr>)
            else Ok f) (\<lambda>f.
     bindR (df_top f) (\<lambda>top.
     bindR (round_next (dr_round top)) (\<lambda>after.
     bindR (df_grow gen_range peer_schedule conf (new_top + 1 - after) (df_rounds f)) (\<lambda>rounds.
       Ok (f\<lparr>df_rounds := rounds\<rparr>)))))"

text \<open>Older rounds are handed over to the committer, which is started anew when a reset is pending.\<close>

definition df_hand_over ::
  "mempool_config \<Rightarrow> round \<Rightarrow> committer \<Rightarrow> dag_front \<Rightarrow> (unit, round option \<times> committer \<times> dag_front) outcome" where
  "df_hand_over conf new_top c f =
     bindR (if df_has_pending_back_reset f then
              bindR (if df_rounds f = [] then Panic else cm_init (hd (df_rounds f)) conf cm_default) (\<lambda>(full_history_bottom, c).
              bindR (cm_bottom_round c) (\<lambda>bottom.
                if df_last_back_bottom f \<noteq> bottom then Panic else Ok (Some full_history_bottom, c)))
            else Ok (None, c)) (\<lambda>(new_full_history_bottom, c).
     bindR (df_drain_upto (round_sub new_top (min_front_rounds (mc_consensus conf))) (df_rounds f)) (\<lambda>(drained, rounds).
     bindR (cm_extend_from_ahead drained c) (\<lambda>c.
     bindR (cm_extend_from_ahead rounds c) (\<lambda>c.
       Ok (new_full_history_bottom, c, f\<lparr>df_rounds := rounds, df_has_pending_back_reset := False\<rparr>)))))"

text \<open>The committer is absent while its task runs.\<close>

definition df_fill_to_top ::
  "(nat \<Rightarrow> nat \<Rightarrow> nat) \<Rightarrow> (peer_id \<Rightarrow> bool) \<Rightarrow> mempool_config \<Rightarrow> round \<Rightarrow> committer option \<Rightarrow> schedule \<Rightarrow> dag_front
   \<Rightarrow> (unit, round option \<times> committer option \<times> schedule \<times> dag_front) outcome" where
  "df_fill_to_top gen_range is_resolved conf new_top committer peer_schedule f =
     bindR (case committer of
              Some c \<Rightarrow> if df_has_pending_back_reset f then Ok (df_last_back_bottom f) else cm_bottom_round c
            | None \<Rightarrow> Ok (df_last_back_bottom f)) (\<lambda>last_back_bottom.
     bindR (ps_apply_scheduled is_resolved new_top peer_schedule) (\<lambda>peer_schedule.
     bindR (df_renew gen_range conf new_top (ps_atomic peer_schedule) (f\<lparr>df_last_back_bottom := last_back_bottom\<rparr>)) (\<lambda>f.
       case committer of
         None \<Rightarrow> Ok (None, None, peer_schedule, f)
       | Some c \<Rightarrow> bindR (df_hand_over conf new_top c f) (\<lambda>(new_full_history_bottom, c, f).
           Ok (new_full_history_bottom, Some c, peer_schedule, f)))))"

section \<open>Rounds without gaps\<close>

definition in_row :: "dag_round list \<Rightarrow> bool" where
  "in_row ds \<longleftrightarrow> ds \<noteq> [] \<and> map dr_round ds = [dr_round (hd ds)..<dr_round (hd ds) + length ds] \<and> (\<forall>d\<in>set ds. round_wf d)"

definition back_row :: "round \<Rightarrow> round \<Rightarrow> committer \<Rightarrow> bool" where
  "back_row b t c \<longleftrightarrow> back_wf (cm_dag c) \<and> b \<le> t \<and> set (bm_keys (cm_dag c)) = {b..t}"

lemma dr_new_wf:
  assumes "dr_new gen_range r sl conf = Ok d"
  shows "dr_round d = r" "round_wf d"
proof -
  from assms show "dr_round d = r" by (auto simp: dr_new_def Let_def bindR_Ok_iff)
  from assms have locs: "\<forall>l\<in>snd ` set (dr_locations d). l = dl_new" by (auto simp: dr_new_def Let_def bindR_Ok_iff)
  have "ready_valid_point d peer dg \<noteq> Ok v" for peer dg v
  proof (cases "bm_get (dr_locations d) peer")
    case (Some l)
    then have "l = dl_new" using locs by (auto simp: bm_get_def dest!: map_of_SomeD)
    with Some show ?thesis by (simp add: ready_valid_point_def dr_view_def dl_new_def bm_get_def)
  qed (simp add: ready_valid_point_def dr_view_def)
  then show "round_wf d" by (simp add: round_wf_def)
qed

lemma in_row_last: "in_row ds \<Longrightarrow> dr_round (last ds) = dr_round (hd ds) + length ds - 1"
  unfolding in_row_def by (metis add_diff_cancel_left' last_map last_upt length_greater_0_conv less_add_same_cancel1)

lemma in_row_snoc: "in_row ds \<Longrightarrow> dr_round d = Suc (dr_round (last ds)) \<Longrightarrow> round_wf d \<Longrightarrow> in_row (ds @ [d])"
  using in_row_last [of ds] unfolding in_row_def by (cases ds) auto

lemma df_grow_row:
  assumes "in_row ds" "dr_round (last ds) + n < u32_max"
    and "\<And>r. dr_round (last ds) < r \<Longrightarrow> r \<le> dr_round (last ds) + n \<Longrightarrow> \<exists>d. dr_new gen_range r sl conf = Ok d"
  shows "\<exists>ds'. df_grow gen_range sl conf n ds = Ok (ds @ ds') \<and> in_row (ds @ ds')
    \<and> dr_round (last (ds @ ds')) = dr_round (last ds) + n"
  using assms
proof (induction n arbitrary: ds)
  case 0
  then show ?case by (auto intro!: exI [of _ "[]"])
next
  case (Suc n)
  let ?r = "dr_round (last ds)"
  from Suc.prems(3) [of "Suc ?r"] obtain d where d: "dr_new gen_range (Suc ?r) sl conf = Ok d" by auto
  note wf = dr_new_wf [OF d]
  have row: "in_row (ds @ [d])" by (rule in_row_snoc [OF Suc.prems(1) wf])
  have "\<exists>ds'. df_grow gen_range sl conf n (ds @ [d]) = Ok ((ds @ [d]) @ ds') \<and> in_row ((ds @ [d]) @ ds')
      \<and> dr_round (last ((ds @ [d]) @ ds')) = dr_round (last (ds @ [d])) + n"
    by (rule Suc.IH [OF row]) (use Suc.prems wf in auto)
  then obtain ds' where ds': "df_grow gen_range sl conf n (ds @ [d]) = Ok ((ds @ [d]) @ ds')" "in_row ((ds @ [d]) @ ds')"
      "dr_round (last ((ds @ [d]) @ ds')) = dr_round (last (ds @ [d])) + n" by blast
  have "df_grow gen_range sl conf (Suc n) ds = df_grow gen_range sl conf n (ds @ [d])"
    using Suc.prems(1,2) d by (simp add: in_row_def round_next_lt)
  with ds' wf(1) show ?case by (intro exI [of _ "d # ds'"]) simp
qed

lemma in_row_nth: "in_row ds \<Longrightarrow> i < length ds \<Longrightarrow> dr_round (ds ! i) = dr_round (hd ds) + i"
  unfolding in_row_def by (metis add_diff_cancel_left' length_map length_upt nth_map nth_upt nat_add_left_cancel_less)

lemma in_row_drop:
  assumes "in_row ds" "n < length ds"
  shows "in_row (drop n ds)" "dr_round (hd (drop n ds)) = dr_round (hd ds) + n"
proof -
  show hd: "dr_round (hd (drop n ds)) = dr_round (hd ds) + n"
    using in_row_nth [OF assms] assms(2) by (simp add: hd_drop_conv_nth)
  have "map dr_round (drop n ds) = drop n [dr_round (hd ds)..<dr_round (hd ds) + length ds]"
    using assms(1) by (simp add: in_row_def drop_map [symmetric])
  then show "in_row (drop n ds)" using assms hd unfolding in_row_def by (auto dest: in_set_dropD)
qed

lemma in_row_take:
  assumes "in_row ds" "0 < n" "n \<le> length ds"
  shows "in_row (take n ds)" "hd (take n ds) = hd ds" "dr_round (last (take n ds)) = dr_round (hd ds) + n - 1"
proof -
  show hd: "hd (take n ds) = hd ds" using assms(2) by simp
  have "map dr_round (take n ds) = take n [dr_round (hd ds)..<dr_round (hd ds) + length ds]"
    using assms(1) by (simp add: in_row_def take_map [symmetric])
  then show row: "in_row (take n ds)" using assms hd unfolding in_row_def by (auto dest: in_set_takeD simp: min_def)
  show "dr_round (last (take n ds)) = dr_round (hd ds) + n - 1" using in_row_last [OF row] hd assms(3) by (simp add: min_def)
qed

lemma drain_row:
  assumes "in_row ds" "nb \<le> dr_round (last ds)"
  shows "df_drain_upto nb ds = Ok (take (nb - dr_round (hd ds)) ds, drop (nb - dr_round (hd ds)) ds)"
    and "nb - dr_round (hd ds) < length ds"
proof -
  have ne: "ds \<noteq> []" using assms(1) by (simp add: in_row_def)
  then have "0 < length ds" by simp
  then show less: "nb - dr_round (hd ds) < length ds" using in_row_last [OF assms(1)] assms(2) by linarith
  have "df_bottom_round (drop (nb - dr_round (hd ds)) ds) = Ok (max nb (dr_round (hd ds)))"
    using in_row_drop(2) [OF assms(1) less] less
    by (cases "drop (nb - dr_round (hd ds)) ds") (auto simp: df_bottom_round_def)
  moreover have "df_bottom_round ds = Ok (dr_round (hd ds))" using ne by (cases ds) (auto simp: df_bottom_round_def)
  ultimately show "df_drain_upto nb ds = Ok (take (nb - dr_round (hd ds)) ds, drop (nb - dr_round (hd ds)) ds)"
    using less by (simp add: df_drain_upto_def Let_def round_sub_def)
qed

lemma contiguous_row: "in_row ds \<Longrightarrow> dr_round (last ds) < u32_max \<Longrightarrow> contiguous ds = Ok True"
proof (induction ds rule: contiguous.induct)
  case (1 a b rest)
  have row: "in_row (b # rest)" "dr_round b = Suc (dr_round a)" using in_row_drop [OF "1.prems"(1), of 1] by simp_all
  moreover have "dr_round a < u32_max" using in_row_last [OF "1.prems"(1)] "1.prems"(2) by simp
  ultimately show ?case using 1 by (simp add: round_next_lt)
qed simp_all

lemma extend_rounds_keys:
  "set (bm_keys (extend_rounds t ds m)) = set (bm_keys m) \<union> {r \<in> dr_round ` set ds. t < r}"
  unfolding extend_rounds_def
proof (induction ds arbitrary: m)
  case (Cons d ds)
  then show ?case by (auto simp: set_bm_keys_insert not_le)
qed simp

lemma back_ends:
  assumes "back_row b t c"
  shows "db_top (cm_dag c) = Ok (snd (last (cm_dag c)))" "dr_round (snd (last (cm_dag c))) = t"
    "db_bottom_round (cm_dag c) = Ok b" "length (cm_dag c) = t + 1 - b"
proof -
  from assms have ne: "cm_dag c \<noteq> []" and wf: "bm_wf (cm_dag c)" and keys: "set (bm_keys (cm_dag c)) = {b..t}" "b \<le> t"
    by (auto simp: back_row_def back_wf_def)
  show "db_top (cm_dag c) = Ok (snd (last (cm_dag c)))" using ne by (simp add: db_top_def)
  have sorted: "sorted_wrt (<) (map fst (cm_dag c))" using wf by (simp add: bm_wf_def)
  have "t \<in> set (map fst (cm_dag c))" using keys unfolding bm_keys_def by (metis atLeastAtMost_iff order_refl)
  from sorted_last_max [OF sorted this] have "t \<le> fst (last (cm_dag c))" using ne by (simp add: last_map)
  moreover have "fst (last (cm_dag c)) \<in> {b..t}"
    using keys(1) last_in_set [OF ne] unfolding bm_keys_def by (metis image_eqI set_map)
  ultimately have "fst (last (cm_dag c)) = t" by simp
  moreover have "dr_round (snd (last (cm_dag c))) = fst (last (cm_dag c))"
    using assms last_in_set [OF ne] by (auto simp: back_row_def back_wf_def case_prod_beta)
  ultimately show "dr_round (snd (last (cm_dag c))) = t" by simp
  have "fst (hd (cm_dag c)) = b"
  proof -
    have "b \<in> fst ` set (cm_dag c)" "fst (hd (cm_dag c)) \<in> {b..t}" using keys ne by (auto simp: bm_keys_def)
    moreover have "fst (hd (cm_dag c)) \<le> k" if "k \<in> fst ` set (cm_dag c)" for k
      using sorted that ne by (cases "cm_dag c") (auto intro: less_imp_le)
    ultimately show ?thesis by (meson atLeastAtMost_iff le_antisym)
  qed
  then show "db_bottom_round (cm_dag c) = Ok b" using ne by (cases "cm_dag c") (auto simp: db_bottom_round_def)
  show "length (cm_dag c) = t + 1 - b" using keys_card [OF wf] keys(1) by simp
qed

lemma extend_row:
  assumes "back_row b t c" "in_row ds" "dr_round (hd ds) \<le> Suc t" "dr_round (last ds) < u32_max" "t < u32_max"
  shows "\<exists>c'. cm_extend_from_ahead ds c = Ok c' \<and> back_row b (max t (dr_round (last ds))) c'"
proof -
  note e = back_ends [OF assms(1)]
  have wf: "back_wf (cm_dag c)" "bm_wf (cm_dag c)" and keys: "set (bm_keys (cm_dag c)) = {b..t}" "b \<le> t"
    using assms(1) by (auto simp: back_row_def back_wf_def)
  let ?m = "extend_rounds t ds (cm_dag c)"
  let ?c = "c\<lparr>cm_dag := ?m\<rparr>"
  have rounds: "dr_round ` set ds = {dr_round (hd ds)..dr_round (last ds)}"
  proof -
    have "dr_round ` set ds = set [dr_round (hd ds)..<dr_round (hd ds) + length ds]"
      using assms(2) unfolding in_row_def by (metis set_map)
    also have "\<dots> = {dr_round (hd ds)..dr_round (last ds)}"
      using in_row_last [OF assms(2)] assms(2) by (cases ds) (auto simp: in_row_def)
    finally show ?thesis .
  qed
  have row: "set (bm_keys ?m) = {b..max t (dr_round (last ds))}"
    using assms(3) keys by (auto simp: extend_rounds_keys rounds)
  note ext = extend_rounds_facts [OF wf(2), of t ds]
  have "?m \<noteq> []" using row keys(2) by (auto simp: bm_keys_def)
  moreover have "\<forall>(r, d)\<in>set ?m. dr_round d = r \<and> round_wf d"
    using ext(4) wf(1) assms(2) unfolding back_wf_def in_row_def
    by (fastforce simp: bm_get_in [OF ext(1)] bm_get_in [OF wf(2), symmetric])
  ultimately have ends: "back_row b (max t (dr_round (last ds))) ?c"
    using row keys(2) ext(1) by (simp add: back_row_def back_wf_def)
  note e' = back_ends [OF ends]
  have "db_assert_len ?m = Ok ()" using e' keys(2) by (auto simp: db_assert_len_def checked_sub_def)
  moreover obtain d ds' where "ds = d # ds'" using assms(2) by (cases ds) (auto simp: in_row_def)
  ultimately have "cm_extend_from_ahead ds c = Ok ?c"
    using e assms(3,5) contiguous_row [OF assms(2,4)]
    by (simp add: cm_extend_from_ahead_def db_extend_from_front_def round_next_lt Let_def)
  with ends show ?thesis by blast
qed

section \<open>Front and committer together\<close>

definition df_ok :: "dag_front \<Rightarrow> bool" where
  "df_ok f \<longleftrightarrow> in_row (df_rounds f) \<and> dr_round (last (df_rounds f)) < u32_max
     \<and> (df_has_pending_back_reset f \<longrightarrow> df_last_back_bottom f = dr_round (hd (df_rounds f)))"

definition joined :: "dag_front \<Rightarrow> committer \<Rightarrow> bool" where
  "joined f c \<longleftrightarrow> df_ok f \<and> (\<exists>b t. back_row b t c \<and> t < u32_max
     \<and> (df_has_pending_back_reset f \<or> dr_round (hd (df_rounds f)) \<le> Suc t \<and> t \<le> dr_round (last (df_rounds f))))"

lemma joinedI:
  "df_ok f \<Longrightarrow> back_row b t c \<Longrightarrow> t < u32_max
   \<Longrightarrow> df_has_pending_back_reset f \<or> dr_round (hd (df_rounds f)) \<le> Suc t \<and> t \<le> dr_round (last (df_rounds f)) \<Longrightarrow> joined f c"
  unfolding joined_def by blast

lemma joinedE:
  assumes "joined f c"
  obtains b t where "df_ok f" "back_row b t c" "t < u32_max"
    "df_has_pending_back_reset f \<or> dr_round (hd (df_rounds f)) \<le> Suc t \<and> t \<le> dr_round (last (df_rounds f))"
  using assms unfolding joined_def by blast

text \<open>
  What the front needs of the schedule: after the scheduled epoch is applied, every round from the genesis
  to the new top can be made.
\<close>

definition schedule_serves ::
  "(nat \<Rightarrow> nat \<Rightarrow> nat) \<Rightarrow> (peer_id \<Rightarrow> bool) \<Rightarrow> mempool_config \<Rightarrow> round \<Rightarrow> schedule \<Rightarrow> schedule \<Rightarrow> bool" where
  "schedule_serves gen_range is_resolved conf new_top ps ps' \<longleftrightarrow>
     ps_apply_scheduled is_resolved new_top ps = (Ok ps' :: (unit, schedule) outcome)
     \<and> (\<forall>r. mc_genesis_round conf \<le> r \<and> r \<le> new_top \<longrightarrow> (\<exists>d. dr_new gen_range r (ps_atomic ps') conf = Ok d))"

lemma renew_ok:
  assumes "df_ok f" "\<And>r. mc_genesis_round conf \<le> r \<Longrightarrow> r \<le> new_top \<Longrightarrow> \<exists>d. dr_new gen_range r sl conf = Ok d"
    and "mc_genesis_round conf \<le> dr_round (hd (df_rounds f))" "mc_genesis_round conf \<le> new_top" "new_top < u32_max"
  shows "\<exists>f'. df_renew gen_range conf new_top sl f = Ok f' \<and> df_ok f' \<and> new_top \<le> dr_round (last (df_rounds f'))
    \<and> mc_genesis_round conf \<le> dr_round (hd (df_rounds f'))
    \<and> (df_has_pending_back_reset f' \<or> \<not> df_has_pending_back_reset f \<and> dr_round (hd (df_rounds f')) = dr_round (hd (df_rounds f))
       \<and> dr_round (last (df_rounds f)) \<le> dr_round (last (df_rounds f')))"
proof -
  let ?reset = "new_top > round_add (df_last_back_bottom f) (max_total_rounds (mc_consensus conf))"
  let ?nb = "max (mc_genesis_round conf) (round_sub new_top (reset_rounds (mc_consensus conf)))"
  obtain f1 where f1: "(if ?reset then
              let new_bottom_round = ?nb
              in bindR (dr_new gen_range new_bottom_round sl conf) (\<lambda>d.
                   Ok \<lparr>df_rounds = [d], df_last_back_bottom = new_bottom_round, df_has_pending_back_reset = True\<rparr>)
            else Ok f) = (Ok f1 :: (unit, dag_front) outcome)" "df_ok f1" "mc_genesis_round conf \<le> dr_round (hd (df_rounds f1))"
      "f1 = f \<or> df_has_pending_back_reset f1"
  proof (cases ?reset)
    case True
    have nb: "mc_genesis_round conf \<le> ?nb" "?nb \<le> new_top" using assms(4) by (auto simp: round_sub_def)
    from assms(2) [OF nb] obtain d where d: "dr_new gen_range ?nb sl conf = Ok d" by blast
    have "in_row [d]" using dr_new_wf [OF d] by (simp add: in_row_def)
    with True nb assms(5) d dr_new_wf(1) [OF d] show thesis
      by (intro that [of "\<lparr>df_rounds = [d], df_last_back_bottom = ?nb, df_has_pending_back_reset = True\<rparr>"])
        (simp_all add: df_ok_def)
  qed (use that [of f] assms(1,3) in simp)
  let ?ds = "df_rounds f1" and ?n = "new_top - dr_round (last (df_rounds f1))"
  have row: "in_row ?ds" "dr_round (last ?ds) < u32_max" using f1(2) by (simp_all add: df_ok_def)
  have "dr_round (hd ?ds) \<le> dr_round (last ?ds)" using in_row_last [OF row(1)] row(1) by (cases ?ds) (auto simp: in_row_def)
  then have "\<exists>ds'. df_grow gen_range sl conf ?n ?ds = Ok (?ds @ ds') \<and> in_row (?ds @ ds')
      \<and> dr_round (last (?ds @ ds')) = dr_round (last ?ds) + ?n"
    by (intro df_grow_row [OF row(1)] assms(2)) (use row(2) assms(5) f1(3) in auto)
  then obtain ds' where g: "df_grow gen_range sl conf ?n ?ds = Ok (?ds @ ds')" "in_row (?ds @ ds')"
      "dr_round (last (?ds @ ds')) = dr_round (last ?ds) + ?n" by blast
  have ne: "?ds \<noteq> []" using row(1) by (simp add: in_row_def)
  let ?f' = "f1\<lparr>df_rounds := ?ds @ ds'\<rparr>"
  have "df_renew gen_range conf new_top sl f = Ok ?f'"
    unfolding df_renew_def f1(1) using ne row(2) g(1) by (simp add: df_top_def round_next_lt)
  moreover have "df_ok ?f'" using f1(2) g ne row(2) assms(5) by (auto simp: df_ok_def)
  ultimately show ?thesis using f1(3,4) g(3) ne by (intro exI [of _ ?f']) auto
qed

lemma init_row:
  assumes "round_wf d"
  shows "\<exists>full c. cm_init d conf cm_default = Ok (full, c) \<and> back_row (dr_round d) (dr_round d) c"
  using assms
  by (simp add: cm_init_def cm_default_def db_init_def Let_def back_row_def back_wf_def bm_wf_def bm_keys_def)

lemma in_row_ends: "in_row ds \<Longrightarrow> dr_round (hd ds) \<le> dr_round (last ds)"
  using in_row_last [of ds] by (cases ds) (auto simp: in_row_def)

text \<open>The committer that receives the rounds.\<close>

lemma receiver_ok:
  assumes "joined f c"
  shows "\<exists>gap c1 b t. (if df_has_pending_back_reset f then
              bindR (if df_rounds f = [] then Panic else cm_init (hd (df_rounds f)) conf cm_default) (\<lambda>(full_history_bottom, c).
              bindR (cm_bottom_round c) (\<lambda>bottom.
                if df_last_back_bottom f \<noteq> bottom then Panic else Ok (Some full_history_bottom, c)))
            else Ok (None, c)) = (Ok (gap, c1) :: (unit, round option \<times> committer) outcome)
    \<and> back_row b t c1 \<and> t < u32_max \<and> dr_round (hd (df_rounds f)) \<le> Suc t \<and> t \<le> dr_round (last (df_rounds f))
    \<and> (gap = None \<longleftrightarrow> \<not> df_has_pending_back_reset f)"
proof (cases "df_has_pending_back_reset f")
  case True
  let ?d = "hd (df_rounds f)"
  from assms True have ok: "in_row (df_rounds f)" "dr_round (last (df_rounds f)) < u32_max" "df_last_back_bottom f = dr_round ?d"
    by (simp_all add: joined_def df_ok_def)
  then have "round_wf ?d" "df_rounds f \<noteq> []" by (simp_all add: in_row_def)
  with init_row [of ?d conf] obtain full c1 where c1: "cm_init ?d conf cm_default = Ok (full, c1)" "back_row (dr_round ?d) (dr_round ?d) c1"
    by blast
  with True ok \<open>df_rounds f \<noteq> []\<close> back_ends(3) [OF c1(2)] in_row_ends [OF ok(1)] show ?thesis
    by (intro exI [of _ "Some full"] exI [of _ c1] exI [of _ "dr_round ?d"]) (simp add: cm_bottom_round_def)
qed (use assms in \<open>auto simp: joined_def\<close>)

lemma extend_prefix:
  assumes "back_row b t c" "in_row ds" "dr_round (hd ds) \<le> Suc t" "t \<le> dr_round (last ds)" "dr_round (last ds) < u32_max" "n < length ds"
  shows "\<exists>c' t'. cm_extend_from_ahead (take n ds) c = Ok c' \<and> back_row b t' c'
    \<and> dr_round (hd ds) + n \<le> Suc t' \<and> t' \<le> dr_round (last ds)"
proof (cases "n = 0")
  case True
  with assms show ?thesis by (auto simp: cm_extend_from_ahead_def db_extend_from_front_def)
next
  case False
  then have n: "0 < n" "n \<le> length ds" using assms(6) by simp_all
  note tk = in_row_take [OF assms(2) n]
  have le: "dr_round (last (take n ds)) \<le> dr_round (last ds)" using tk(3) in_row_last [OF assms(2)] n by simp
  from extend_row [OF assms(1) tk(1)] tk(2) assms(3-5) le obtain c' where
    "cm_extend_from_ahead (take n ds) c = Ok c'" "back_row b (max t (dr_round (last (take n ds)))) c'" by auto
  with tk(3) assms(4) le n show ?thesis by (intro exI [of _ c'] exI [of _ "max t (dr_round (last (take n ds)))"]) auto
qed

lemma hand_over_ok:
  assumes "joined f c" "new_top \<le> dr_round (last (df_rounds f))"
  shows "\<exists>gap c' f' b. df_hand_over conf new_top c f = Ok (gap, c', f') \<and> joined f' c' \<and> back_row b (dr_round (last (df_rounds f'))) c'
    \<and> dr_round (hd (df_rounds f)) \<le> dr_round (hd (df_rounds f')) \<and> last (df_rounds f') = last (df_rounds f)
    \<and> (gap = None \<longleftrightarrow> \<not> df_has_pending_back_reset f)"
proof -
  let ?ds = "df_rounds f"
  from assms(1) have ok: "in_row ?ds" "dr_round (last ?ds) < u32_max" by (simp_all add: joined_def df_ok_def)
  from receiver_ok [OF assms(1), of conf] obtain gap c1 b t where c1: "(if df_has_pending_back_reset f then
              bindR (if ?ds = [] then Panic else cm_init (hd ?ds) conf cm_default) (\<lambda>(full_history_bottom, c).
              bindR (cm_bottom_round c) (\<lambda>bottom.
                if df_last_back_bottom f \<noteq> bottom then Panic else Ok (Some full_history_bottom, c)))
            else Ok (None, c)) = (Ok (gap, c1) :: (unit, round option \<times> committer) outcome)"
      "back_row b t c1" "dr_round (hd ?ds) \<le> Suc t" "t \<le> dr_round (last ?ds)" "gap = None \<longleftrightarrow> \<not> df_has_pending_back_reset f"
    by blast
  define nb where "nb = round_sub new_top (min_front_rounds (mc_consensus conf))"
  define n where "n = nb - dr_round (hd ?ds)"
  have "nb \<le> dr_round (last ?ds)" using assms(2) by (simp add: nb_def round_sub_def)
  note dr = drain_row [OF ok(1) this, folded n_def]
  note keep = in_row_drop [OF ok(1) dr(2)]
  have last: "last (drop n ?ds) = last ?ds" using dr(2) by (simp add: last_drop)
  from extend_prefix [OF c1(2) ok(1) c1(3,4) ok(2) dr(2)] obtain c2 t2 where c2: "cm_extend_from_ahead (take n ?ds) c1 = Ok c2"
      "back_row b t2 c2" "dr_round (hd ?ds) + n \<le> Suc t2" "t2 \<le> dr_round (last ?ds)" by blast
  from extend_row [OF c2(2) keep(1)] keep(2) c2(3,4) ok(2) last obtain c3 where
    c3: "cm_extend_from_ahead (drop n ?ds) c2 = Ok c3" "back_row b (max t2 (dr_round (last ?ds))) c3" by auto
  let ?f' = "f\<lparr>df_rounds := drop n ?ds, df_has_pending_back_reset := False\<rparr>"
  have "df_hand_over conf new_top c f = Ok (gap, c3, ?f')"
    unfolding df_hand_over_def c1(1) by (simp add: nb_def [symmetric] dr(1) c2(1) c3(1))
  moreover have row: "back_row b (dr_round (last ?ds)) c3" using c3(2) c2(4) by (simp add: max_absorb2)
  then have "joined ?f' c3"
    using keep ok(2) last in_row_ends [OF keep(1)]
    by (intro joinedI [of _ b "dr_round (last ?ds)"]) (auto simp: df_ok_def)
  ultimately show ?thesis
    using c1(5) keep(2) last row by (intro exI [of _ gap] exI [of _ c3] exI [of _ ?f'] exI [of _ b]) auto
qed

section \<open>The committer keeps its top\<close>

lemma drop_row:
  assumes "back_row b t c" "back_wf (cm_dag c')" "set (bm_keys (cm_dag c')) = set (bm_keys (db_drop_upto nb (cm_dag c)))"
  shows "\<exists>b'. back_row b' t c'"
proof -
  have "bm_wf (cm_dag c)" using assms(1) by (simp add: back_row_def back_wf_def)
  from drop_upto_facts(2) [OF this] assms(1,3) have keys: "set (bm_keys (cm_dag c')) = {max b nb..t}"
    by (auto simp: back_row_def)
  moreover have "set (bm_keys (cm_dag c')) \<noteq> {}" using assms(2) by (simp add: back_wf_def bm_keys_def)
  ultimately have "max b nb \<le> t" by auto
  with keys assms(2) show ?thesis unfolding back_row_def by blast
qed

lemma dequeue_row:
  assumes "back_row b t c" "cm_dequeue_anchor shuffle seed next conf c = Ok (res, c')"
  shows "\<exists>b'. back_row b' t c'"
proof (cases res)
  case (Inl e)
  have wf: "back_wf (cm_dag c)" using assms(1) by (simp add: back_row_def)
  have "cm_dag c' = history_dag next conf c"
    using assms(2) Inl unfolding cm_dequeue_anchor_def history_dag_def [symmetric] Let_def
    by (auto simp: bindR_Ok_iff split: outcome.splits)
  with dequeue_conflict(1) [OF wf assms(2) [unfolded Inl]] show ?thesis
    by (intro drop_row [OF assms(1)]) (auto simp: history_dag_def)
next
  case (Inr a)
  have wf: "back_wf (cm_dag c)" using assms(1) by (simp add: back_row_def)
  show ?thesis
    by (rule dequeue_cases [OF wf assms(2) [unfolded Inr]]) (rule drop_row [OF assms(1)], simp_all add: history_dag_def)
qed

lemma commit_loop_row:
  assumes "back_row b t c" "cm_commit_loop shuffle seed conf c = Ok (out, c')"
  shows "\<exists>b'. back_row b' t c'"
  using assms
proof (induction "cm_anchor_chain c" arbitrary: c b out)
  case Nil
  have "cm_commit_loop shuffle seed conf c = Ok (Inr [], c)"
    by (subst cm_commit_loop.simps) (simp flip: Nil.hyps)
  with Nil.prems show ?case by auto
next
  case (Cons "next" rest)
  have row: "back_row b t (c\<lparr>cm_anchor_chain := rest\<rparr>)" using Cons.prems(1) by (simp add: back_row_def)
  show ?case
    by (rule commit_loop_cases [OF Cons.prems(2) Cons.hyps(2) [symmetric]])
      (use dequeue_row [OF row] Cons.hyps(1) cm_dequeue_chain in \<open>fastforce+\<close>)
qed

lemma commit_row:
  assumes "back_row b t c" "cm_commit shuffle seed conf c = Ok (out, c')"
  shows "\<exists>b'. back_row b' t c'"
proof -
  have wf: "back_wf (cm_dag c)" using assms(1) by (simp add: back_row_def)
  from assms(2) obtain current conflict c1 where e: "cm_enqueue_new_anchors current c = Ok (conflict, c1)"
      "(case conflict of Some round \<Rightarrow> Ok (Inl round, c1) | None \<Rightarrow> cm_commit_loop shuffle seed conf c1) = Ok (out, c')"
    unfolding cm_commit_def cm_commit_up_to_def by (elim outcome_elims) auto
  have "back_row b t c1" using assms(1) enqueue_new_conflict(1) [OF wf e(1)] by (simp add: back_row_def)
  with e(2) commit_loop_row [of b t c1 shuffle seed conf out c'] show ?thesis by (auto split: option.split_asm)
qed

lemma drop_upto_row:
  assumes "back_row b t c" "cm_drop_upto nb conf c = Ok (res, c')"
  shows "\<exists>b'. back_row b' t c'"
proof -
  note e = back_ends [OF assms(1)]
  from assms(2) e have c': "cm_dag c' = db_drop_upto (min nb t) (cm_dag c)" by (auto simp: cm_drop_upto_def Let_def)
  have wf: "bm_wf (cm_dag c)" "b \<le> t" "set (bm_keys (cm_dag c)) = {b..t}" using assms(1) by (simp_all add: back_row_def back_wf_def)
  have "t \<in> set (bm_keys (cm_dag c'))" using drop_upto_facts(2) [OF wf(1)] wf(2,3) c' by auto
  then have "cm_dag c' \<noteq> []" by (auto simp: bm_keys_def)
  then have "back_wf (cm_dag c')" using back_wf_drop assms(1) c' by (simp add: back_row_def)
  then show ?thesis by (rule drop_row [OF assms(1)]) (simp add: c')
qed

text \<open>
  The DAG while a node runs: the front is filled to new tops with or without the committer, and the
  committer commits and drops. Between two operations points get resolved in both, which keeps the
  numbers of rounds.
\<close>

inductive dag_life ::
  "('g \<Rightarrow> (peer_id \<times> digest) list \<Rightarrow> (peer_id \<times> digest) list \<times> 'g) \<Rightarrow> (digest \<Rightarrow> 'g) \<Rightarrow> mempool_config
   \<Rightarrow> dag_front \<Rightarrow> committer \<Rightarrow> bool" for shuffle seed conf where
  start: "df_init d conf df_default = Ok (c, f) \<Longrightarrow> round_wf d \<Longrightarrow> mc_genesis_round conf \<le> dr_round d \<Longrightarrow> dr_round d < u32_max
    \<Longrightarrow> dag_life shuffle seed conf f c"
| alone: "dag_life shuffle seed conf f c \<Longrightarrow> schedule_serves gen_range is_resolved conf new_top ps ps'
    \<Longrightarrow> mc_genesis_round conf \<le> new_top \<Longrightarrow> new_top < u32_max
    \<Longrightarrow> df_fill_to_top gen_range is_resolved conf new_top None ps f = Ok (gap, None, ps', f') \<Longrightarrow> dag_life shuffle seed conf f' c"
| fill: "dag_life shuffle seed conf f c \<Longrightarrow> schedule_serves gen_range is_resolved conf new_top ps ps'
    \<Longrightarrow> mc_genesis_round conf \<le> new_top \<Longrightarrow> new_top < u32_max
    \<Longrightarrow> df_fill_to_top gen_range is_resolved conf new_top (Some c) ps f = Ok (gap, Some c', ps', f') \<Longrightarrow> dag_life shuffle seed conf f' c'"
| commit: "dag_life shuffle seed conf f c \<Longrightarrow> cm_commit shuffle seed conf c = Ok (out, c') \<Longrightarrow> dag_life shuffle seed conf f c'"
| dropped: "dag_life shuffle seed conf f c \<Longrightarrow> cm_drop_upto nb conf c = Ok (res, c') \<Longrightarrow> dag_life shuffle seed conf f c'"
| resolved: "dag_life shuffle seed conf f c \<Longrightarrow> map dr_round ds = map dr_round (df_rounds f) \<Longrightarrow> \<forall>d\<in>set ds. round_wf d
    \<Longrightarrow> bm_keys dag = bm_keys (cm_dag c) \<Longrightarrow> back_wf dag \<Longrightarrow> dag_life shuffle seed conf (f\<lparr>df_rounds := ds\<rparr>) (c\<lparr>cm_dag := dag\<rparr>)"

lemma bottom_genesis_init:
  assumes "df_init d conf df_default = Ok (c, f)" "round_wf d"
  shows "df_rounds f = [d]" "\<not> df_has_pending_back_reset f" "back_row (dr_round d) (dr_round d) c"
  using assms init_row [OF assms(2), of conf] by (auto simp: df_init_def df_default_def Let_def bindR_Ok_iff split: if_splits)

lemma fill_ok:
  assumes "joined f c" "mc_genesis_round conf \<le> dr_round (hd (df_rounds f))"
    and "schedule_serves gen_range is_resolved conf new_top ps ps'" "mc_genesis_round conf \<le> new_top" "new_top < u32_max"
  shows "\<exists>f'. df_fill_to_top gen_range is_resolved conf new_top None ps f = Ok (None, None, ps', f')
      \<and> joined f' c \<and> new_top \<le> dr_round (last (df_rounds f')) \<and> mc_genesis_round conf \<le> dr_round (hd (df_rounds f'))"
    and "\<exists>gap f' c' b. df_fill_to_top gen_range is_resolved conf new_top (Some c) ps f = Ok (gap, Some c', ps', f')
      \<and> joined f' c' \<and> new_top \<le> dr_round (last (df_rounds f')) \<and> mc_genesis_round conf \<le> dr_round (hd (df_rounds f'))
      \<and> back_row b (dr_round (last (df_rounds f'))) c'"
proof -
  have serves: "ps_apply_scheduled is_resolved new_top ps = (Ok ps' :: (unit, schedule) outcome)"
      "\<And>r. mc_genesis_round conf \<le> r \<Longrightarrow> r \<le> new_top \<Longrightarrow> \<exists>d. dr_new gen_range r (ps_atomic ps') conf = Ok d"
    using assms(3) by (auto simp: schedule_serves_def)
  have renewed: "\<exists>f'. df_renew gen_range conf new_top (ps_atomic ps') (f\<lparr>df_last_back_bottom := lbb\<rparr>) = Ok f'
      \<and> joined f' c \<and> new_top \<le> dr_round (last (df_rounds f')) \<and> mc_genesis_round conf \<le> dr_round (hd (df_rounds f'))"
    if "df_has_pending_back_reset f \<longrightarrow> lbb = df_last_back_bottom f" for lbb
  proof -
    let ?f = "f\<lparr>df_last_back_bottom := lbb\<rparr>"
    have "df_ok ?f" using assms(1) that by (auto simp: joined_def df_ok_def)
    from renew_ok [OF this serves(2)] assms(2,4,5) obtain f' where f': "df_renew gen_range conf new_top (ps_atomic ps') ?f = Ok f'"
        "df_ok f'" "new_top \<le> dr_round (last (df_rounds f'))" "mc_genesis_round conf \<le> dr_round (hd (df_rounds f'))"
        "df_has_pending_back_reset f' \<or> \<not> df_has_pending_back_reset f \<and> dr_round (hd (df_rounds f')) = dr_round (hd (df_rounds f))
          \<and> dr_round (last (df_rounds f)) \<le> dr_round (last (df_rounds f'))" by auto
    have "joined f' c" by (rule joinedE [OF assms(1)], rule joinedI [OF f'(2)]) (use f'(5) in auto)
    with f' show ?thesis by blast
  qed
  from renewed [of "df_last_back_bottom f"] serves(1)
  show "\<exists>f'. df_fill_to_top gen_range is_resolved conf new_top None ps f = Ok (None, None, ps', f')
      \<and> joined f' c \<and> new_top \<le> dr_round (last (df_rounds f')) \<and> mc_genesis_round conf \<le> dr_round (hd (df_rounds f'))"
    by (auto simp: df_fill_to_top_def)
  obtain lbb where lbb: "(if df_has_pending_back_reset f then Ok (df_last_back_bottom f) else cm_bottom_round c) = Ok lbb"
      "df_has_pending_back_reset f \<longrightarrow> lbb = df_last_back_bottom f"
    using assms(1) back_ends(3) by (cases "df_has_pending_back_reset f") (auto simp: joined_def cm_bottom_round_def)
  from renewed [OF lbb(2)] obtain f1 where f1: "df_renew gen_range conf new_top (ps_atomic ps') (f\<lparr>df_last_back_bottom := lbb\<rparr>) = Ok f1"
      "joined f1 c" "new_top \<le> dr_round (last (df_rounds f1))" "mc_genesis_round conf \<le> dr_round (hd (df_rounds f1))" by blast
  from hand_over_ok [OF f1(2,3), of conf] obtain gap c' f' b where h: "df_hand_over conf new_top c f1 = Ok (gap, c', f')" "joined f' c'"
      "back_row b (dr_round (last (df_rounds f'))) c'" "dr_round (hd (df_rounds f1)) \<le> dr_round (hd (df_rounds f'))" "last (df_rounds f') = last (df_rounds f1)"
    by blast
  have "df_fill_to_top gen_range is_resolved conf new_top (Some c) ps f = Ok (gap, Some c', ps', f')"
    by (simp add: df_fill_to_top_def lbb(1) serves(1) f1(1) h(1))
  with h f1(3,4) show "\<exists>gap f' c' b. df_fill_to_top gen_range is_resolved conf new_top (Some c) ps f = Ok (gap, Some c', ps', f')
      \<and> joined f' c' \<and> new_top \<le> dr_round (last (df_rounds f')) \<and> mc_genesis_round conf \<le> dr_round (hd (df_rounds f'))
      \<and> back_row b (dr_round (last (df_rounds f'))) c'"
    by (intro exI [of _ gap] exI [of _ f'] exI [of _ c'] exI [of _ b]) auto
qed

lemma joined_same_top:
  assumes "joined f c" "\<And>b t. back_row b t c \<Longrightarrow> \<exists>b'. back_row b' t c'"
  shows "joined f c'"
  using assms unfolding joined_def by blast

lemma dag_life_joined: "dag_life shuffle seed conf f c \<Longrightarrow> joined f c \<and> mc_genesis_round conf \<le> dr_round (hd (df_rounds f))"
proof (induction rule: dag_life.induct)
  case (start d c f)
  note i = bottom_genesis_init [OF start(1,2)]
  have "in_row (df_rounds f)" using i(1) start(2) by (simp add: in_row_def)
  with i start(3,4) show ?case by (auto simp: df_ok_def intro!: joinedI [OF _ i(3)])
next
  case (alone f c gen_range is_resolved new_top ps ps' gap f')
  from fill_ok(1) [OF _ _ alone(2-4), of f c] alone(5,6) show ?case by auto
next
  case (fill f c gen_range is_resolved new_top ps ps' gap c' f')
  from fill_ok(2) [OF _ _ fill(2-4), of f c] fill(5,6) show ?case by auto
next
  case (commit f c out c')
  have "joined f c'" by (rule joined_same_top [of f c]) (use commit commit_row in blast)+
  with commit show ?case by simp
next
  case (dropped f c nb res c')
  have "joined f c'" by (rule joined_same_top [of f c]) (use dropped drop_upto_row in blast)+
  with dropped show ?case by simp
next
  case (resolved f c ds dag)
  then have "ds \<noteq> []" "length ds = length (df_rounds f)" "dr_round (hd ds) = dr_round (hd (df_rounds f))"
      "dr_round (last ds) = dr_round (last (df_rounds f))"
    by (auto simp: joined_def df_ok_def in_row_def) (metis map_is_Nil_conv length_map hd_map last_map)+
  moreover from this resolved have "in_row ds" by (simp add: joined_def df_ok_def in_row_def)
  moreover have "back_row b t (c\<lparr>cm_dag := dag\<rparr>)" if "back_row b t c" for b t
    using that resolved(4,5) by (simp add: back_row_def)
  ultimately show ?case using resolved(6) by (fastforce simp: joined_def df_ok_def)
qed

lemma back_row_keys: "back_row b t c \<Longrightarrow> bm_keys (cm_dag c) = [b..<Suc t]"
  by (rule sorted_distinct_set_unique)
    (auto simp: back_row_def back_wf_def bm_wf_def bm_keys_def strict_sorted_iff simp del: upt_Suc)

lemma in_row_list: "in_row ds \<Longrightarrow> map dr_round ds = [dr_round (hd ds)..<Suc (dr_round (last ds))]"
  using in_row_last [of ds] by (cases ds) (auto simp: in_row_def)


definition ex_schedule :: schedule where
  "ex_schedule = \<lparr>ps_locked = lk_new 1 [], ps_atomic = ex_stateless\<lparr>sl_epoch_starts := [0, 0, 0]\<rparr>\<rparr>"

lemma ex_dr_new: "2 \<le> r \<Longrightarrow> \<exists>d. dr_new (\<lambda>_ _. 1) r (ps_atomic ex_schedule) ex_conf = Ok d"
  by (auto simp: dr_new_def ex_schedule_def dr_count_peers_def anchor_stage_of_def sl_peers_for_def sl_peers_ordered_for_def
      epoch_lookup_def epoch_slot_def ex_stateless_def ex_conf_def pc_try_from_def u8_max_def Let_def round_prev_def
      checked_sub_def)


end
