(* ===== verification/Anchor_Stream.thy ===== *)
theory Anchor_Stream
  imports Dag_Front
begin

text \<open>
  The stream of anchors from the committer to the collator. The queue of the committer is chained:
  each anchor links to the proof of the one before, and a proof is in the round after its anchor. Hence
  what a commit returns names its predecessors correctly, and the collator that asks the cache for one
  anchor after another finds all of them in order.
\<close>

section \<open>The queue of anchors\<close>

fun chained :: "enqueued_anchor list \<Rightarrow> bool" where
  "chained (e # e' # q) \<longleftrightarrow> pi_anchor_round (ea_anchor e') Proof = (Ok (pi_round (ea_proof e)) :: (unit, round) outcome)
     \<and> pi_round (ea_anchor e) < pi_round (ea_anchor e') \<and> chained (e' # q)"
| "chained _ \<longleftrightarrow> True"

definition proven :: "round \<Rightarrow> enqueued_anchor \<Rightarrow> bool" where
  "proven lo e \<longleftrightarrow> pi_round (ea_proof e) = Suc (pi_round (ea_anchor e)) \<and> lo \<le> pi_round (ea_anchor e)"

definition queue_ok :: "mempool_config \<Rightarrow> enqueued_anchor list \<Rightarrow> bool" where
  "queue_ok conf q \<longleftrightarrow> chained q \<and> (\<forall>e\<in>set q. proven (mc_genesis_round conf) e)"

definition stream_ok :: "mempool_config \<Rightarrow> committer \<Rightarrow> bool" where
  "stream_ok conf c \<longleftrightarrow> back_wf (cm_dag c) \<and> (\<forall>r\<in>set (bm_keys (cm_dag c)). mc_genesis_round conf \<le> r)
     \<and> queue_ok conf (cm_anchor_chain c)"

lemma chained_append:
  "chained (q @ [e]) \<longleftrightarrow> chained q \<and> (q \<noteq> [] \<longrightarrow>
     pi_anchor_round (ea_anchor e) Proof = (Ok (pi_round (ea_proof (last q))) :: (unit, round) outcome)
     \<and> pi_round (ea_anchor (last q)) < pi_round (ea_anchor e))"
  by (induction q rule: chained.induct) auto

lemma chained_Cons: "chained (e # q) \<Longrightarrow> chained q"
  by (cases q) auto

lemma chained_sorted: "chained q \<Longrightarrow> sorted_wrt (<) (map (\<lambda>e. pi_round (ea_anchor e)) q)"
proof (induction q)
  case (Cons e q)
  then show ?case by (cases q) (auto dest: less_trans)
qed simp

lemma chained_drop: "chained q \<Longrightarrow> chained (ac_drop_upto nb q)"
proof (induction q)
  case (Cons e q)
  have q: "chained q" using Cons.prems by (rule chained_Cons)
  show ?case
  proof (cases "nb \<le> pi_round (ea_anchor e)")
    case True
    then have "ac_drop_upto nb (e # q) = e # q"
      using chained_sorted [OF Cons.prems] unfolding ac_drop_upto_def by (intro filter_True) auto
    with Cons.prems show ?thesis by simp
  qed (use Cons.IH q in \<open>simp add: ac_drop_upto_def\<close>)
qed (simp add: ac_drop_upto_def)

lemma anchor_round_any:
  "pi_anchor_round i role = (Ok r :: ('e, round) outcome) \<Longrightarrow> pi_anchor_round i role = (Ok r :: ('f, round) outcome)"
  by (auto simp: pi_anchor_round_def pd_anchor_round_def round_prev_def bindR_Ok_iff
      split: link.splits through.splits option.splits)

text \<open>What the walk back finds: proofs in the rounds after their anchors, in the order of rounds.\<close>

definition found :: "dag_round list \<Rightarrow> enqueued_anchor list \<Rightarrow> bool" where
  "found ds q \<longleftrightarrow> sorted_wrt (\<lambda>e e'. pi_round (ea_anchor e) < pi_round (ea_anchor e')) q
     \<and> (\<forall>e\<in>set q. proven 0 e \<and> (\<exists>d\<in>set ds. pi_round (ea_anchor e) = dr_round d))"

lemma ready_round: "round_wf d \<Longrightarrow> ready_valid_point d a g = Ok v \<Longrightarrow> pi_round (vp_info v) = dr_round d"
  by (auto simp: round_wf_def pi_id_def)

lemma prev_round: "pi_prev_id i = Ok (Some p) \<Longrightarrow> pi_round i = Suc (pid_round p)"
  by (auto simp: pi_prev_id_def round_prev_def checked_sub_def bindR_Ok_iff split: option.splits if_splits)


lemma found_mono: "found ds q \<Longrightarrow> set ds \<subseteq> set es \<Longrightarrow> found es q"
  unfolding found_def by blast

lemma chain_back_found:
  assumes "chain_back bottom lpr trigger lookup ds res = Ok (res', used)" "\<forall>d\<in>set ds. round_wf d"
    and "sorted_wrt (\<lambda>d e. dr_round e < dr_round d) ds"
  shows "\<exists>q. res' = q @ res \<and> found ds q"
  using assms
proof (induction ds arbitrary: lookup res rule: length_induct)
  case (1 ds)
  have none: "found ds []" for ds by (simp add: found_def)
  show ?case
  proof (cases ds)
    case Nil
    with 1 none show ?thesis by simp
  next
    case (Cons d older)
    have skip: "\<exists>q. res' = q @ res \<and> found ds q" if "chain_back bottom lpr trigger l older res = Ok (res', used)" for l
    proof -
      have "\<exists>q. res' = q @ res \<and> found older q"
        by (rule 1(1) [rule_format, OF _ that]) (use 1(3,4) Cons in auto)
      then show ?thesis using found_mono [of older _ ds] Cons by auto
    qed
    have add: "\<exists>q. res' = q @ res \<and> found ds q"
      if "chain_back bottom lpr trigger l older' (\<lparr>ea_anchor = vp_info v, ea_proof = vp_info p, ea_direct_trigger = t\<rparr> # res)
         = Ok (res', used)" "older = a # older'" "ready_valid_point a x g = Ok v" "ready_valid_point d x' g' = Ok p"
        "pi_prev_id (vp_info p) = (Ok (Some pid) :: (sync_error, point_id option) outcome)" "\<not> dr_round a \<noteq> pid_round pid"
      for a older' x g v l p t x' g' pid
    proof -
      let ?e = "\<lparr>ea_anchor = vp_info v, ea_proof = vp_info p, ea_direct_trigger = t\<rparr>"
      have "\<exists>q. res' = q @ (?e # res) \<and> found older' q"
        by (rule 1(1) [rule_format, OF _ that(1)]) (use 1(3,4) Cons that(2) in auto)
      then obtain q where q: "res' = (q @ [?e]) @ res" "found older' q" by auto
      have r: "pi_round (vp_info v) = dr_round a" "pi_round (vp_info p) = dr_round d"
        using ready_round that(3,4) 1(3) Cons that(2) by auto
      have "pi_round (vp_info p) = Suc (pi_round (vp_info v))" using prev_round [OF that(5)] that(6) r(1) by simp
      then have "found ds (q @ [?e])"
        using q(2) r 1(4) unfolding found_def Cons that(2) by (force simp: sorted_wrt_append proven_def)
      with q(1) show ?thesis by blast
    qed
    have fin: "\<exists>q. res' = q @ res \<and> found ds q" if "Ok (res, b) = Ok (res', used)" for b
      using that none by auto
    show ?thesis
      using 1(2) unfolding Cons chain_back.simps(2)
      by (elim outcome_elims) (fold Cons, (erule skip | erule add, assumption+ | erule fin | simp)+)
  qed
qed


lemma range_in_order:
  assumes "db_range lo hi rounds = (Ok ds :: ('e, dag_round list) outcome)" "back_wf rounds"
  shows "sorted_wrt (\<lambda>d e. dr_round d < dr_round e) ds"
    and "\<forall>d\<in>set ds. lo \<le> dr_round d \<and> dr_round d \<in> set (bm_keys rounds) \<and> round_wf d"
proof -
  from assms(1) have ds: "ds = map snd (filter (\<lambda>e. lo \<le> fst e \<and> fst e \<le> hi) rounds)"
    by (auto simp: db_range_def bm_range_def split: if_splits)
  have "map dr_round ds = map fst (filter (\<lambda>e. lo \<le> fst e \<and> fst e \<le> hi) rounds)"
    using assms(2) unfolding ds back_wf_def by fastforce
  moreover have "sorted_wrt (<) (map fst (filter P rounds))" for P
    using assms(2) by (simp add: back_wf_def bm_wf_def sorted_wrt_map sorted_wrt_filter)
  ultimately have "sorted_wrt (<) (map dr_round ds)" by simp
  then show "sorted_wrt (\<lambda>d e. dr_round d < dr_round e) ds" by (simp add: sorted_wrt_map)
  show "\<forall>d\<in>set ds. lo \<le> dr_round d \<and> dr_round d \<in> set (bm_keys rounds) \<and> round_wf d"
    using assms(2) unfolding ds back_wf_def bm_keys_def by force
qed

lemma anchor_chain_found:
  assumes "db_anchor_chain lpr trigger rounds = Ok part" "back_wf rounds"
  shows "sorted_wrt (\<lambda>e e'. pi_round (ea_anchor e) < pi_round (ea_anchor e')) part"
    and "\<forall>e\<in>set part. proven (Suc lpr) e \<and> pi_round (ea_anchor e) \<in> set (bm_keys rounds)"
proof -
  have chain: "sorted_wrt (\<lambda>e e'. pi_round (ea_anchor e) < pi_round (ea_anchor e')) r
      \<and> (\<forall>e\<in>set r. proven (Suc lpr) e \<and> pi_round (ea_anchor e) \<in> set (bm_keys rounds))"
    if "chain_back b l t p (rev ds) [] = Ok (r, u)" "(db_range after hi rounds :: (sync_error, dag_round list) outcome) = Ok ds"
      "round_next lpr = (Ok after :: (sync_error, round) outcome)" for b l t p ds r u hi after
  proof -
    note k = range_in_order [OF that(2) assms(2)]
    from chain_back_found [OF that(1)] k have f: "found (rev ds) r" by (auto simp: sorted_wrt_rev)
    have "after = Suc lpr" using that(3) by (auto simp: round_next_def checked_add_def split: if_splits option.splits)
    with f k(2) show ?thesis unfolding found_def proven_def by fastforce
  qed
  have "sorted_wrt (\<lambda>e e'. pi_round (ea_anchor e) < pi_round (ea_anchor e')) part
      \<and> (\<forall>e\<in>set part. proven (Suc lpr) e \<and> pi_round (ea_anchor e) \<in> set (bm_keys rounds))"
    using assms(1) unfolding db_anchor_chain_def
    by (elim outcome_elims) (auto dest: chain)
  then show "sorted_wrt (\<lambda>e e'. pi_round (ea_anchor e) < pi_round (ea_anchor e')) part"
    "\<forall>e\<in>set part. proven (Suc lpr) e \<and> pi_round (ea_anchor e) \<in> set (bm_keys rounds)" by simp_all
qed

lemma enqueue_all_queue:
  assumes "cm_enqueue_all part q = Ok q'" "queue_ok conf q" "\<forall>e\<in>set part. proven (mc_genesis_round conf) e"
    and "sorted_wrt (\<lambda>e e'. pi_round (ea_anchor e) < pi_round (ea_anchor e')) part"
    and "q \<noteq> [] \<Longrightarrow> \<forall>e\<in>set part. pi_round (ea_anchor (last q)) < pi_round (ea_anchor e)"
  shows "queue_ok conf q'"
  using assms
proof (induction part arbitrary: q)
  case Nil
  then show ?case by (simp add: cm_enqueue_all_def)
next
  case (Cons e part)
  from Cons.prems(1) have all: "cm_enqueue_all part (ac_enqueue e q) = Ok q'"
      and l: "q \<noteq> [] \<Longrightarrow> pi_anchor_round (ea_anchor e) Proof = (Ok (pi_round (ea_proof (last q))) :: (sync_error, round) outcome)"
    by (auto simp: cm_enqueue_all_def bindR_Ok_iff split: if_splits)
  have "chained (q @ [e])"
    unfolding chained_append using Cons.prems(2,5) anchor_round_any [OF l] by (auto simp: queue_ok_def)
  then have "queue_ok conf (ac_enqueue e q)" using Cons.prems(2,3) by (auto simp: queue_ok_def ac_enqueue_def)
  then show ?case by (rule Cons.IH [OF all]) (use Cons.prems in \<open>auto simp: ac_enqueue_def\<close>)
qed

lemma enqueue_triggers_queue:
  "cm_enqueue_triggers dag ts q = Ok (conflict, q') \<Longrightarrow> back_wf dag \<Longrightarrow> \<forall>r\<in>set (bm_keys dag). mc_genesis_round conf \<le> r
   \<Longrightarrow> queue_ok conf q \<Longrightarrow> queue_ok conf q'"
proof (induction ts arbitrary: q)
  case (Cons trigger rest)
  have step: "queue_ok conf q1" if "db_anchor_chain l trigger dag = Ok part" "cm_enqueue_all part q = Ok q1"
      "q \<noteq> [] \<Longrightarrow> l = pi_round (ea_proof (last q))" for l part q1
  proof -
    note f = anchor_chain_found [OF that(1) Cons.prems(2)]
    have "proven (mc_genesis_round conf) e" if "e \<in> set part" for e
      using f(2) that Cons.prems(3) by (auto simp: proven_def)
    moreover have "pi_round (ea_anchor (last q)) < pi_round (ea_anchor e)" if "q \<noteq> []" "e \<in> set part" for e
      using f(2) that \<open>q \<noteq> [] \<Longrightarrow> _\<close> Cons.prems(4) last_in_set [of q] by (fastforce simp: proven_def queue_ok_def)
    ultimately show ?thesis
      by (intro enqueue_all_queue [OF that(2) Cons.prems(4) _ f(1)]) auto
  qed
  from Cons.prems show ?case
    by (auto simp: ac_top_proof_round_def split: outcome.split_asm sync_error.split_asm option.split_asm if_splits
        elim!: Cons.IH intro: step)
qed simp


section \<open>What a commit returns\<close>

text \<open>Anchors of one commit, with what each of them says about the one before.\<close>

fun linked :: "anchor_data list \<Rightarrow> bool" where
  "linked (a # b # as) \<longleftrightarrow> ad_prev_anchor b = Some (anchor_round a) \<and> anchor_round a < anchor_round b \<and> linked (b # as)"
| "linked _ \<longleftrightarrow> True"

definition data_of :: "mempool_config \<Rightarrow> enqueued_anchor \<Rightarrow> anchor_data \<Rightarrow> bool" where
  "data_of conf e a \<longleftrightarrow> ad_anchor a = ea_anchor e
     \<and> (\<forall>r. pi_anchor_round (ea_anchor e) Proof = (Ok r :: (unit, round) outcome) \<longrightarrow> mc_genesis_round conf < r
          \<longrightarrow> ad_prev_anchor a = Some (r - 1))"

lemma dequeue_data:
  "cm_dequeue_anchor shuffle seed next conf c = Ok (Inr a, c') \<Longrightarrow> data_of conf next a"
  by (auto simp: cm_dequeue_anchor_def data_of_def Let_def bindR_Ok_iff round_prev_def checked_sub_def
      split: outcome.splits option.splits if_splits)

lemma dequeue_keys:
  assumes "cm_dequeue_anchor shuffle seed next conf c = Ok (res, c')" "back_wf (cm_dag c)"
  shows "set (bm_keys (cm_dag c')) \<subseteq> set (bm_keys (cm_dag c))"
proof -
  have h: "set (bm_keys (history_dag next conf c)) \<subseteq> set (bm_keys (cm_dag c))"
    using assms(2) drop_upto_facts(2) unfolding history_dag_def back_wf_def by blast
  show ?thesis
  proof (cases res)
    case (Inl e)
    then have "cm_dag c' = history_dag next conf c"
      using assms(1) by (auto simp: cm_dequeue_anchor_def history_dag_def Let_def bindR_Ok_iff split: outcome.splits)
    with h show ?thesis by simp
  next
    case (Inr a)
    with assms(1) have "cm_dequeue_anchor shuffle seed next conf c = Ok (Inr a, c')" by simp
    from dequeue_cases [OF assms(2) this] h show ?thesis by metis
  qed
qed

lemma dequeue_chain_conflict:
  "cm_dequeue_anchor shuffle seed next conf c = Ok (Inl e, c') \<Longrightarrow> cm_anchor_chain c' = next # cm_anchor_chain c"
  by (auto simp: cm_dequeue_anchor_def Let_def bindR_Ok_iff split: outcome.splits)

lemma linked_data:
  "chained q \<Longrightarrow> \<forall>e\<in>set q. proven (mc_genesis_round conf) e \<Longrightarrow> list_all2 (data_of conf) q as \<Longrightarrow> linked as"
proof (induction q arbitrary: as rule: chained.induct)
  case (1 e e' q)
  then obtain a b as' where as: "as = a # b # as'" "data_of conf e a" "data_of conf e' b" "list_all2 (data_of conf) (e' # q) (b # as')"
    by (auto simp: list_all2_Cons1)
  have "linked (b # as')" using 1 as(4) by auto
  with 1(2,3) as show ?case by (auto simp: data_of_def proven_def)
qed (auto simp: list_all2_Cons1)

lemma commit_loop_stream:
  assumes "cm_commit_loop shuffle seed conf c = Ok (out, c')"
  shows "\<exists>q. cm_anchor_chain c = q @ cm_anchor_chain c' \<and> (\<forall>as. out = Inr as \<longrightarrow> list_all2 (data_of conf) q as)"
  using assms
proof (induction "cm_anchor_chain c" arbitrary: c out)
  case Nil
  then have "cm_commit_loop shuffle seed conf c = Ok (Inr [], c)"
    by (subst cm_commit_loop.simps) simp
  with Nil show ?case by auto
next
  case (Cons e rest)
  from Cons.prems Cons.hyps(2) [symmetric] show ?case
  proof (cases rule: commit_loop_cases)
    case (stop err)
    from dequeue_chain_conflict [OF stop(1)] stop(2) Cons.hyps(2) show ?thesis by auto
  next
    case (more a c1 out1)
    have "rest = cm_anchor_chain c1" using cm_dequeue_chain [OF more(1)] by simp
    from Cons.hyps(1) [OF this more(2)] obtain q where q: "cm_anchor_chain c1 = q @ cm_anchor_chain c'"
      "\<forall>as. out1 = Inr as \<longrightarrow> list_all2 (data_of conf) q as" by blast
    with dequeue_data [OF more(1)] more(3) \<open>rest = _\<close> Cons.hyps(2) show ?thesis
      by (intro exI [of _ "e # q"]) (auto split: sum.splits)
  qed
qed

lemma commit_loop_keys:
  assumes "cm_commit_loop shuffle seed conf c = Ok (out, c')" "back_row b t c"
  shows "set (bm_keys (cm_dag c')) \<subseteq> set (bm_keys (cm_dag c))"
  using assms
proof (induction "cm_anchor_chain c" arbitrary: c b out)
  case Nil
  then have "cm_commit_loop shuffle seed conf c = Ok (Inr [], c)"
    by (subst cm_commit_loop.simps) simp
  with Nil show ?case by auto
next
  case (Cons e rest)
  let ?c = "c\<lparr>cm_anchor_chain := rest\<rparr>"
  have row: "back_row b t ?c" "back_wf (cm_dag ?c)" using Cons.prems(2) by (simp_all add: back_row_def)
  from Cons.prems(1) Cons.hyps(2) [symmetric] show ?case
  proof (cases rule: commit_loop_cases)
    case (stop err)
    from dequeue_keys [OF stop(1) row(2)] show ?thesis by simp
  next
    case (more a c1 out1)
    have "rest = cm_anchor_chain c1" using cm_dequeue_chain [OF more(1)] by simp
    from dequeue_row [OF row(1) more(1)] Cons.hyps(1) [OF this more(2)] dequeue_keys [OF more(1) row(2)]
    show ?thesis by auto
  qed
qed


lemma queue_ok_append: "queue_ok conf (q @ q') \<Longrightarrow> queue_ok conf q \<and> queue_ok conf q'"
proof -
  have "chained (q @ q') \<Longrightarrow> chained q \<and> chained q'"
    by (induction q rule: chained.induct) (auto dest: chained_Cons)
  then show "queue_ok conf (q @ q') \<Longrightarrow> ?thesis" by (auto simp: queue_ok_def)
qed

lemma stream_ok_sub:
  "stream_ok conf c \<Longrightarrow> back_wf (cm_dag c') \<Longrightarrow> set (bm_keys (cm_dag c')) \<subseteq> set (bm_keys (cm_dag c))
   \<Longrightarrow> queue_ok conf (cm_anchor_chain c') \<Longrightarrow> stream_ok conf c'"
  by (auto simp: stream_ok_def)

lemma commit_stream:
  assumes "cm_commit shuffle seed conf c = Ok (out, c')" "stream_ok conf c" "back_row b t c"
  shows "stream_ok conf c'" and "out = Inr as \<Longrightarrow> linked as \<and> (\<forall>a\<in>set as. mc_genesis_round conf \<le> anchor_round a)"
proof -
  have wf: "back_wf (cm_dag c)" using assms(3) by (simp add: back_row_def)
  from assms(1) obtain current conflict c1 where e: "cm_enqueue_new_anchors current c = Ok (conflict, c1)"
      "(case conflict of Some round \<Rightarrow> Ok (Inl round, c1) | None \<Rightarrow> cm_commit_loop shuffle seed conf c1) = Ok (out, c')"
    unfolding cm_commit_def cm_commit_up_to_def by (elim outcome_elims) auto
  have c1: "cm_dag c1 = cm_dag c" "queue_ok conf (cm_anchor_chain c1)"
    using e(1) assms(2) unfolding cm_enqueue_new_anchors_def stream_ok_def
    by (elim bindR_OkE; (auto elim!: bindR_OkE intro: enqueue_triggers_queue split: sum.split_asm))+
  have row: "back_row b t c1" using assms(3) c1(1) by (simp add: back_row_def)
  have "stream_ok conf c' \<and> (\<forall>as. out = Inr as \<longrightarrow> linked as \<and> (\<forall>a\<in>set as. mc_genesis_round conf \<le> anchor_round a))"
  proof (cases conflict)
    case None
    with e(2) have loop: "cm_commit_loop shuffle seed conf c1 = Ok (out, c')" by simp
    from commit_loop_stream [OF this] obtain q where q: "cm_anchor_chain c1 = q @ cm_anchor_chain c'"
      "\<forall>as. out = Inr as \<longrightarrow> list_all2 (data_of conf) q as" by blast
    have ok: "queue_ok conf q" "queue_ok conf (cm_anchor_chain c')" using queue_ok_append c1(2) q(1) by (metis)+
    have "linked as \<and> (\<forall>a\<in>set as. mc_genesis_round conf \<le> anchor_round a)" if "out = Inr as" for as
    proof -
      have l: "list_all2 (data_of conf) q as" using q(2) that by simp
      then have "\<forall>a\<in>set as. \<exists>e\<in>set q. ad_anchor a = ea_anchor e"
        by (induction rule: list_all2_induct) (auto simp: data_of_def)
      with ok(1) l linked_data show ?thesis by (fastforce simp: queue_ok_def proven_def)
    qed
    moreover obtain b' where "back_row b' t c'" using commit_loop_row [OF row loop] by blast
    then have "stream_ok conf c'"
      using stream_ok_sub [OF assms(2)] commit_loop_keys [OF loop row] c1(1) ok(2) by (simp add: back_row_def)
    ultimately show ?thesis by simp
  next
    case (Some r)
    with e(2) have "out = Inl r" "c' = c1" by auto
    with c1 assms(2) show ?thesis by (simp add: stream_ok_def)
  qed
  then show "stream_ok conf c'" "out = Inr as \<Longrightarrow> linked as \<and> (\<forall>a\<in>set as. mc_genesis_round conf \<le> anchor_round a)" by simp_all
qed

lemma drop_stream:
  assumes "cm_drop_upto nb conf c = Ok (res, c')" "stream_ok conf c" "back_row b t c"
  shows "stream_ok conf c'"
proof -
  obtain b' where row: "back_row b' t c'" using drop_upto_row [OF assms(3,1)] by blast
  obtain n m where c': "cm_dag c' = db_drop_upto n (cm_dag c)" "cm_anchor_chain c' = ac_drop_upto m (cm_anchor_chain c)"
    using assms(1) by (auto simp: cm_drop_upto_def Let_def bindR_Ok_iff)
  have "set (bm_keys (cm_dag c')) \<subseteq> set (bm_keys (cm_dag c))"
    using assms(3) drop_upto_facts(2) unfolding c'(1) back_row_def back_wf_def by blast
  moreover have "queue_ok conf (cm_anchor_chain c')"
    using assms(2) chained_drop unfolding c'(2) stream_ok_def queue_ok_def by (auto simp: ac_drop_upto_def)
  ultimately show ?thesis using stream_ok_sub [OF assms(2)] row by (simp add: back_row_def)
qed

lemma extend_stream:
  assumes "cm_extend_from_ahead front c = Ok c'" "stream_ok conf c" "\<forall>d\<in>set front. round_wf d"
  shows "stream_ok conf c'"
proof -
  from assms(1) have e: "db_extend_from_front front (cm_dag c) = Ok (cm_dag c')" "cm_anchor_chain c' = cm_anchor_chain c"
    by (auto simp: cm_extend_from_ahead_def bindR_Ok_iff)
  have wf: "back_wf (cm_dag c)" "bm_wf (cm_dag c)" using assms(2) by (simp_all add: stream_ok_def back_wf_def)
  obtain t where t: "cm_dag c' = cm_dag c \<or> cm_dag c' = extend_rounds t front (cm_dag c)" "back_wf (cm_dag c')"
      "t \<in> set (bm_keys (cm_dag c))"
    by (rule extend_cases [OF e(1) wf(1)]) (use assms(3) in auto)
  have "mc_genesis_round conf \<le> r" if "r \<in> set (bm_keys (cm_dag c'))" for r
    using t(1,3) that assms(2) extend_rounds_facts(3) [OF wf(2), of t front] by (fastforce simp: stream_ok_def)
  with t(2) e(2) assms(2) show ?thesis by (simp add: stream_ok_def)
qed


lemma init_stream:
  assumes "cm_init d conf cm_default = Ok (full, c)" "round_wf d" "mc_genesis_round conf \<le> dr_round d"
  shows "stream_ok conf c"
  using assms
  by (auto simp: cm_init_def cm_default_def db_init_def Let_def stream_ok_def back_wf_def bm_wf_def bm_keys_def queue_ok_def
      bindR_Ok_iff split: if_splits)

lemma hand_over_stream:
  assumes "df_hand_over conf new_top c f = Ok (gap, c', f')" "stream_ok conf c"
    and "in_row (df_rounds f)" "mc_genesis_round conf \<le> dr_round (hd (df_rounds f))"
  shows "stream_ok conf c'"
proof -
  have wf: "\<forall>d\<in>set (df_rounds f). round_wf d" "df_rounds f \<noteq> []" using assms(3) by (simp_all add: in_row_def)
  have start: "stream_ok conf c1" if "(if df_has_pending_back_reset f then
              bindR (if df_rounds f = [] then Panic else cm_init (hd (df_rounds f)) conf cm_default) (\<lambda>(full_history_bottom, c).
              bindR (cm_bottom_round c) (\<lambda>bottom.
                if df_last_back_bottom f \<noteq> bottom then Panic else Ok (Some full_history_bottom, c)))
            else Ok (None, c)) = (Ok (g, c1) :: (unit, round option \<times> committer) outcome)" for g c1
    using that wf assms(2,4) init_stream [of "hd (df_rounds f)" conf]
    by (auto simp: bindR_Ok_iff split: if_splits)
  from assms(1) obtain c1 c2 drained rest where c: "stream_ok conf c1"
      "df_drain_upto (round_sub new_top (min_front_rounds (mc_consensus conf))) (df_rounds f) = Ok (drained, rest)"
      "cm_extend_from_ahead drained c1 = Ok c2" "cm_extend_from_ahead rest c2 = Ok c'"
    unfolding df_hand_over_def by (elim bindR_OkE prod_OkE) (auto dest: start)
  have "set drained \<union> set rest \<subseteq> set (df_rounds f)"
    using c(2) by (auto simp: df_drain_upto_def Let_def bindR_Ok_iff split: if_splits dest: in_set_takeD in_set_dropD)
  then have "\<forall>d\<in>set drained. round_wf d" "\<forall>d\<in>set rest. round_wf d" using wf(1) by blast+
  with extend_stream [OF c(4) extend_stream [OF c(3,1)]] show ?thesis by blast
qed

lemma dag_life_stream: "dag_life shuffle seed conf f c \<Longrightarrow> stream_ok conf c"
proof (induction rule: dag_life.induct)
  case (start d c f)
  from start(1) obtain full where "cm_init d conf cm_default = Ok (full, c)"
    by (auto simp: df_init_def df_default_def Let_def bindR_Ok_iff split: if_splits)
  with init_stream start(2,3) show ?case by blast
next
  case (fill f c gen_range is_resolved new_top ps ps' gap c' f')
  from dag_life_joined [OF fill(1)] have j: "joined f c" "mc_genesis_round conf \<le> dr_round (hd (df_rounds f))" by auto
  from fill(5) obtain lbb f1 where f1: "df_renew gen_range conf new_top (ps_atomic ps') (f\<lparr>df_last_back_bottom := lbb\<rparr>) = Ok f1"
      "df_has_pending_back_reset f \<longrightarrow> lbb = df_last_back_bottom f" "df_hand_over conf new_top c f1 = Ok (gap, c', f')"
    unfolding df_fill_to_top_def by (elim outcome_elims) (auto split: if_splits)
  have "df_ok (f\<lparr>df_last_back_bottom := lbb\<rparr>)" using j(1) f1(2) by (auto simp: joined_def df_ok_def)
  from renew_ok [OF this, of conf new_top gen_range "ps_atomic ps'"] fill(2-4) j(2) f1(1)
  have "df_ok f1" "mc_genesis_round conf \<le> dr_round (hd (df_rounds f1))" by (auto simp: schedule_serves_def)
  with hand_over_stream [OF f1(3) fill(6)] show ?case by (simp add: df_ok_def)
next
  case (commit f c out c')
  from dag_life_joined [OF commit(1)] obtain b t where "back_row b t c" by (auto simp: joined_def)
  with commit_stream(1) [OF commit(2,3)] show ?case by blast
next
  case (dropped f c nb res c')
  from dag_life_joined [OF dropped(1)] obtain b t where "back_row b t c" by (auto simp: joined_def)
  with drop_stream [OF dropped(2,3)] show ?case by blast
qed (auto simp: stream_ok_def)


lemma drop_loop_stream:
  assumes "ct_drop_loop shuffle seed conf len attempt c bottom = Ok (committed, bottom', c')" "dag_life shuffle seed conf f c"
  shows "dag_life shuffle seed conf f c' \<and> (\<forall>as. committed = Some as \<longrightarrow> linked as)"
  using assms
proof (induction shuffle seed conf len attempt c bottom rule: ct_drop_loop.induct)
  case (1 shuffle seed conf len attempt c bottom)
  from 1(2) obtain out c1 where out: "cm_commit shuffle seed conf c = Ok (out, c1)"
    by (subst (asm) ct_drop_loop.simps) (auto split: outcome.split_asm)
  have life: "dag_life shuffle seed conf f c1" by (rule dag_life.commit [OF 1(3) out])
  from dag_life_joined [OF 1(3)] obtain b t where row: "back_row b t c" by (auto simp: joined_def)
  show ?case
  proof (cases out)
    case (Inr as)
    with 1(2) out have "committed = Some as" "c' = c1" by (simp_all add: ct_drop_loop.simps [of _ _ _ _ _ c])
    with life commit_stream(2) [OF out dag_life_stream [OF 1(3)] row Inr] show ?thesis by simp
  next
    case (Inl r)
    with 1(2) out obtain n where n: "round_next r = (Ok n :: (drop_panic, round) outcome)"
      "(case cm_drop_upto n conf c1 of
              Ok (Inl new_bottom, c) \<Rightarrow> Ok (None, Some new_bottom, c)
            | Ok (Inr new_bottom, c) \<Rightarrow>
                if attempt > len then Err InfiniteLoop
                else ct_drop_loop shuffle seed conf len (attempt + 1) c (Some new_bottom)
            | _ \<Rightarrow> Panic) = Ok (committed, bottom', c')"
      by (auto simp: ct_drop_loop.simps [of _ _ _ _ _ c] bindR_Ok_iff)
    then obtain res c2 where d: "cm_drop_upto n conf c1 = Ok (res, c2)" by (auto split: outcome.split_asm)
    have life2: "dag_life shuffle seed conf f c2" by (rule dag_life.dropped [OF life d])
    show ?thesis
    proof (cases res)
      case (Inl nb)
      with n(2) d life2 show ?thesis by simp
    next
      case (Inr nb)
      with n(2) d have "\<not> attempt > len" "ct_drop_loop shuffle seed conf len (attempt + 1) c2 (Some nb) = Ok (committed, bottom', c')"
        by (auto split: if_splits)
      from 1(1) [OF out refl \<open>out = Inl r\<close> n(1) d refl Inr this life2] show ?thesis .
    qed
  qed
qed

lemma update_task_stream:
  assumes "ct_update_task shuffle seed conf full c = Ok (Inr (outs, c'))" "dag_life shuffle seed conf f c"
  shows "dag_life shuffle seed conf f c' \<and> (\<exists>bottom committed. outs = ct_outputs bottom committed
    \<and> (\<forall>as. committed = Some as \<longrightarrow> linked as))"
proof (cases "length (cm_dag c) > min_front_rounds (mc_consensus conf)")
  case True
  with assms(1) obtain committed bottom where "ct_drop_loop shuffle seed conf (length (cm_dag c)) 0 c None = Ok (committed, bottom, c')"
      "outs = ct_outputs (case bottom of None \<Rightarrow> full | Some r \<Rightarrow> Some r) committed"
    by (auto simp: ct_update_task_def ct_dropping_def bindR_Ok_iff split: outcome.split_asm)
  with drop_loop_stream [OF this(1) assms(2)] show ?thesis by blast
next
  case False
  with assms(1) obtain as where as: "cm_commit shuffle seed conf c = Ok (Inr as, c')" "outs = ct_outputs full (Some as)"
    by (auto simp: ct_update_task_def ct_fallible_def split: outcome.split_asm sum.split_asm)
  from dag_life_joined [OF assms(2)] obtain b t where "back_row b t c" by (auto simp: joined_def)
  from commit_stream(2) [OF as(1) dag_life_stream [OF assms(2)] this] dag_life.commit [OF assms(2) as(1)] as(2) show ?thesis by auto
qed

section \<open>The cache of anchors\<close>

definition executable :: "'m shuttle \<Rightarrow> anchor_data \<Rightarrow> bool" where
  "executable s a \<longleftrightarrow> (case sh_first_after_gap s of None \<Rightarrow> True | Some first \<Rightarrow> first \<le> anchor_round a)"

definition delivers :: "anchor_data \<Rightarrow> round \<times> 'm mempool_anchor \<Rightarrow> bool" where
  "delivers a e \<longleftrightarrow> fst e = anchor_round a \<and> an_id (snd e) = anchor_round a \<and> an_prev_id (snd e) = ad_prev_anchor a
     \<and> an_author (snd e) = pi_author (ad_anchor a) \<and> an_chain_time (snd e) = pi_time (ad_anchor a)"

lemma im_update_append: "k \<notin> fst ` set m \<Longrightarrow> im_update k v m = m @ [(k, v)]"
  by (induction k v m rule: im_update.induct) auto

lemma handle_delivers:
  assumes "sh_handle blake3 tl_lib lib a s = Ok s'" "anchor_round a \<notin> fst ` set (ca_anchors (sh_cache s))"
  shows "sh_first_after_gap s' = sh_first_after_gap s"
    and "\<exists>new. ca_anchors (sh_cache s') = ca_anchors (sh_cache s) @ new \<and> list_all2 delivers (filter (executable s) [a]) new"
  using assms
  by (auto simp: sh_handle_def Let_def bindR_Ok_iff executable_def delivers_def ca_push_def im_update_append
      split: prod.split_asm option.splits)

lemma run_delivers:
  assumes "sh_run blake3 tl_lib lib t (map NextAnchor as) s = Ok s'" "sorted_wrt (<) (map anchor_round as)"
    and "\<forall>e\<in>set (ca_anchors (sh_cache s)). \<forall>a\<in>set as. fst e < anchor_round a"
  shows "sh_first_after_gap s' = sh_first_after_gap s \<and> (\<exists>new. ca_anchors (sh_cache s') = ca_anchors (sh_cache s) @ new
    \<and> list_all2 delivers (filter (executable s) as) new)"
  using assms
proof (induction as arbitrary: s)
  case Nil
  then show ?case by (simp add: sh_run_def)
next
  case (Cons a as)
  from Cons.prems(1) obtain s1 where s1: "sh_handle blake3 tl_lib lib a s = Ok s1"
      "sh_run blake3 tl_lib lib t (map NextAnchor as) s1 = Ok s'"
    by (auto simp: sh_run_def handle_mempool_output_def bindR_Ok_iff)
  have "anchor_round a \<notin> fst ` set (ca_anchors (sh_cache s))" using Cons.prems(3) by auto
  note h = handle_delivers [OF s1(1) this]
  from h(2) obtain new where new: "ca_anchors (sh_cache s1) = ca_anchors (sh_cache s) @ new"
      "list_all2 delivers (filter (executable s) [a]) new" by blast
  have "executable s1 = executable s" by (simp add: executable_def h(1) fun_eq_iff)
  moreover have "\<forall>e\<in>set new. fst e = anchor_round a"
    using new(2) by (auto simp: delivers_def list_all2_Cons1 split: if_splits)
  ultimately show ?case
    using Cons.IH [OF s1(2)] Cons.prems(2,3) new h(1) list_all2_appendI [OF new(2)] by fastforce
qed

lemma im_after_nth:
  "distinct (map fst m) \<Longrightarrow> i < length m
   \<Longrightarrow> im_after (fst (m ! i)) m = (if Suc i < length m then Some (snd (m ! Suc i)) else None)"
proof (induction m arbitrary: i)
  case (Cons e m)
  show ?case
  proof (cases i)
    case 0
    then show ?thesis by (cases e; cases m) auto
  next
    case (Suc n)
    with Cons.prems have n: "n < length m" by simp
    then have "fst (m ! n) \<in> fst ` set m" by simp
    with Cons.prems(1) have "fst (m ! n) \<noteq> fst e" by (metis distinct.simps(2) list.simps(9) set_map)
    with n Cons Suc show ?thesis by (cases e) auto
  qed
qed simp


lemma im_after_append: "k \<notin> fst ` set old \<Longrightarrow> im_after k (old @ m) = im_after k m"
  by (induction old) auto

lemma walk:
  assumes "ca_anchors c = old @ new" "\<forall>e\<in>set old. \<forall>e'\<in>set new. fst e < fst e'" "sorted_wrt (<) (map fst new)"
    and "\<And>i. Suc i < length new \<Longrightarrow> an_prev_id (snd (new ! Suc i)) = Some (fst (new ! i))" and "i < length new"
  shows "ca_get_next_anchor (fst (new ! i)) c = (if Suc i < length new then Returns (Ok (Some (snd (new ! Suc i)))) else Waits)"
proof -
  let ?m = "ca_anchors c"
  have i: "new ! i \<in> set new" using assms(5) by simp
  then have "?m \<noteq> []" using assms(1) by auto
  then obtain k v m where m: "?m = (k, v) # m" by (cases ?m) auto
  have "k \<le> fst (new ! i)"
  proof (cases old)
    case Nil
    with assms(1) m have "new = (k, v) # m" by simp
    with i assms(3) show ?thesis by auto
  next
    case (Cons e old')
    with assms(1,2) m i show ?thesis by (auto intro: less_imp_le)
  qed
  moreover have "fst (new ! i) \<in> fst ` set ?m" using i assms(1) by simp
  moreover have "im_after (fst (new ! i)) ?m = (if Suc i < length new then Some (snd (new ! Suc i)) else None)"
  proof -
    have "fst (new ! i) \<notin> fst ` set old" using assms(2) i by fastforce
    moreover have "distinct (map fst new)" using assms(3) by (simp add: strict_sorted_iff)
    ultimately show ?thesis using assms(1,5) by (simp add: im_after_append im_after_nth)
  qed
  ultimately show ?thesis using assms(4) [of i] m unfolding ca_get_next_anchor_def by simp
qed

lemma linked_sorted: "linked as \<Longrightarrow> sorted_wrt (<) (map anchor_round as)"
proof (induction as)
  case (Cons a as)
  then show ?case by (cases as) (auto dest: less_trans)
qed simp

lemma linked_Cons: "linked (a # as) \<Longrightarrow> linked as"
  by (cases as) auto

lemma linked_nth: "linked as \<Longrightarrow> Suc i < length as \<Longrightarrow> ad_prev_anchor (as ! Suc i) = Some (anchor_round (as ! i))"
  by (induction as arbitrary: i rule: linked.induct) (auto simp: nth_Cons split: nat.split)

lemma linked_executable: "linked as \<Longrightarrow> linked (filter (executable s) as)"
proof (induction as)
  case (Cons a as)
  show ?case
  proof (cases "executable s a")
    case True
    then have "filter (executable s) (a # as) = a # as"
      using linked_sorted [OF Cons.prems] by (intro filter_True) (fastforce simp: executable_def split: option.splits)
    with Cons.prems show ?thesis by simp
  qed (use Cons linked_Cons in auto)
qed simp

text \<open>The anchors among the outputs of the committer task.\<close>

definition anchors_of :: "mempool_output list \<Rightarrow> anchor_data list" where
  "anchors_of outs = concat (map (\<lambda>out. case out of NextAnchor a \<Rightarrow> [a] | _ \<Rightarrow> []) outs)"

lemma anchors_of_outputs: "anchors_of (ct_outputs bottom committed) = (case committed of None \<Rightarrow> [] | Some as \<Rightarrow> as)"
proof -
  have "anchors_of (map NextAnchor as) = as" for as by (induction as) (auto simp: anchors_of_def)
  then show ?thesis by (auto simp: ct_outputs_def anchors_of_def split: option.splits)
qed

lemma outputs_deliver:
  assumes "sh_run blake3 tl_lib lib t (ct_outputs bottom committed) s = Ok s'" "\<forall>as. committed = Some as \<longrightarrow> linked as"
    and "\<forall>e\<in>set (ca_anchors (sh_cache s)). \<forall>a\<in>set (anchors_of (ct_outputs bottom committed)). fst e < anchor_round a"
  shows "\<exists>old new. ca_anchors (sh_cache s') = old @ new \<and> (old = [] \<or> old = ca_anchors (sh_cache s))
    \<and> list_all2 delivers (filter (executable s') (anchors_of (ct_outputs bottom committed))) new"
proof -
  let ?as = "case committed of None \<Rightarrow> [] | Some as \<Rightarrow> as"
  let ?s = "case bottom of None \<Rightarrow> s | Some r \<Rightarrow> sh_reset t r s"
  have run: "sh_run blake3 tl_lib lib t (map NextAnchor ?as) ?s = Ok s'"
    using assms(1) by (cases bottom; cases committed) (simp_all add: ct_outputs_def sh_run_def handle_mempool_output_def)
  have "sorted_wrt (<) (map anchor_round ?as)" using assms(2) linked_sorted by (auto split: option.splits)
  moreover have old: "ca_anchors (sh_cache ?s) = [] \<or> ca_anchors (sh_cache ?s) = ca_anchors (sh_cache s)"
    by (auto simp: sh_reset_def ca_reset_def Let_def split: option.splits)
  ultimately obtain new where new: "sh_first_after_gap s' = sh_first_after_gap ?s"
      "ca_anchors (sh_cache s') = ca_anchors (sh_cache ?s) @ new" "list_all2 delivers (filter (executable ?s) ?as) new"
    using run_delivers [OF run] assms(3) unfolding anchors_of_outputs by fastforce
  have "executable s' = executable ?s" by (simp add: executable_def new(1) fun_eq_iff)
  with new old show ?thesis unfolding anchors_of_outputs by metis
qed


lemma delivered_nth:
  assumes "list_all2 delivers as new" "linked as"
  shows "map fst new = map anchor_round as" "sorted_wrt (<) (map fst new)"
    and "\<And>i. Suc i < length new \<Longrightarrow> an_prev_id (snd (new ! Suc i)) = Some (fst (new ! i))"
proof -
  show keys: "map fst new = map anchor_round as" using assms(1) by (induction rule: list_all2_induct) (auto simp: delivers_def)
  then show "sorted_wrt (<) (map fst new)" using linked_sorted [OF assms(2)] by simp
  fix i assume i: "Suc i < length new"
  with assms(1) have "delivers (as ! i) (new ! i)" "delivers (as ! Suc i) (new ! Suc i)" "Suc i < length as"
    by (auto simp: list_all2_conv_all_nth)
  with linked_nth [OF assms(2)] show "an_prev_id (snd (new ! Suc i)) = Some (fst (new ! i))" by (simp add: delivers_def)
qed


section \<open>An example\<close>

text \<open>
  A node starts at round 4, grows to round 8 and learns the points of \<open>ex_committer\<close>, whose database has the two points that
  the anchor commits.
\<close>

lemma ex_life_round: "1 \<le> r \<Longrightarrow> \<exists>d. dr_new (\<lambda>_ _. 0) r (ps_atomic ex_schedule) ex_commit_conf = Ok d"
  by (auto simp: dr_new_def ex_schedule_def dr_count_peers_def anchor_stage_of_def sl_peers_for_def sl_peers_ordered_for_def
      epoch_lookup_def epoch_slot_def ex_stateless_def ex_commit_conf_def pc_try_from_def u8_max_def Let_def round_prev_def
      checked_sub_def)

lemma ex_stream_life: "\<exists>f. dag_life ex_shuffle (\<lambda>_. ()) ex_commit_conf f ex_committer"
proof -
  let ?c0 = "ex_committer\<lparr>cm_dag := [(4, ex_commit_round 4)]\<rparr>"
    and ?f0 = "\<lparr>df_rounds = [ex_commit_round 4], df_last_back_bottom = 4, df_has_pending_back_reset = False\<rparr>"
  have 0: "dag_life ex_shuffle (\<lambda>_. ()) ex_commit_conf ?f0 ?c0"
    by (rule dag_life.start [of "ex_commit_round 4"])
      (simp_all add: df_init_def df_default_def cm_init_def cm_default_def db_init_def cm_bottom_round_def db_bottom_round_def
        Let_def ex_commit_round_wf ex_commit_conf_def ex_consensus_def ex_committer_def round_add_def sat_add_def u32_max_def)
  have serves: "schedule_serves (\<lambda>_ _. 0) (\<lambda>_. True) ex_commit_conf 8 ex_schedule ex_schedule"
    using ex_life_round by (simp add: schedule_serves_def ps_apply_scheduled_def ex_schedule_def ex_stateless_def ex_commit_conf_def)
  obtain d5 d6 d7 d8 where d: "dr_new (\<lambda>_ _. 0) 5 (ps_atomic ex_schedule) ex_commit_conf = Ok d5"
      "dr_new (\<lambda>_ _. 0) 6 (ps_atomic ex_schedule) ex_commit_conf = Ok d6"
      "dr_new (\<lambda>_ _. 0) 7 (ps_atomic ex_schedule) ex_commit_conf = Ok d7"
      "dr_new (\<lambda>_ _. 0) 8 (ps_atomic ex_schedule) ex_commit_conf = Ok d8"
    using ex_life_round by fastforce
  note wf = dr_new_wf [OF d(1)] dr_new_wf [OF d(2)] dr_new_wf [OF d(3)] dr_new_wf [OF d(4)]
  let ?f1 = "?f0\<lparr>df_rounds := [ex_commit_round 4, d5, d6, d7, d8]\<rparr>"
  have depth: "round_add 4 (max_total_rounds (mc_consensus ex_commit_conf)) = 1195" "min_front_rounds (mc_consensus ex_commit_conf) = 4"
    by (simp_all add: ex_commit_conf_def ex_consensus_def depth_defs round_add_def sat_add_def u32_max_def)
  have renew: "df_renew (\<lambda>_ _. 0) ex_commit_conf 8 (ps_atomic ex_schedule) ?f0 = Ok ?f1"
  proof -
    have "df_grow (\<lambda>_ _. 0) (ps_atomic ex_schedule) ex_commit_conf n [ex_commit_round 4]
        = Ok [ex_commit_round 4, d5, d6, d7, d8]" if "n = Suc (Suc (Suc (Suc 0)))" for n
      unfolding that by (simp add: round_next_lt u32_max_def d wf)
    from this [of 4] show ?thesis by (simp add: df_renew_def depth df_top_def round_next_lt u32_max_def)
  qed
  let ?c1 = "?c0\<lparr>cm_dag := [(4, ex_commit_round 4), (5, d5), (6, d6), (7, d7), (8, d8)]\<rparr>"
  have hand: "df_hand_over ex_commit_conf 8 ?c0 ?f1 = Ok (None, ?c1, ?f1)"
    by (simp add: df_hand_over_def depth df_drain_upto_def df_bottom_round_def round_sub_def cm_extend_from_ahead_def
        db_extend_from_front_def db_top_def round_next_lt u32_max_def extend_rounds_def db_assert_len_def db_bottom_round_def
        checked_sub_def wf Let_def)
  have "df_fill_to_top (\<lambda>_ _. 0) (\<lambda>_. True) ex_commit_conf 8 (Some ?c0) ex_schedule ?f0 = Ok (None, Some ?c1, ex_schedule, ?f1)"
    using serves renew hand by (simp add: df_fill_to_top_def schedule_serves_def cm_bottom_round_def db_bottom_round_def)
  from dag_life.fill [OF 0 serves _ _ this] have 1: "dag_life ex_shuffle (\<lambda>_. ()) ex_commit_conf ?f1 ?c1"
    by (simp add: ex_commit_conf_def u32_max_def)
  have "back_wf (cm_dag ex_committer)" by (simp add: ex_committer_def back_wf_def bm_wf_def ex_commit_round_wf)
  from dag_life.resolved [OF 1 refl _ _ this] have "dag_life ex_shuffle (\<lambda>_. ()) ex_commit_conf ?f1 (?c1\<lparr>cm_dag := cm_dag ex_committer\<rparr>)"
    by (simp add: ex_commit_round_wf wf ex_committer_def bm_keys_def)
  then show ?thesis by (intro exI [of _ ?f1]) simp
qed

lemma ex_update: "\<exists>a c'. ct_update_task ex_shuffle (\<lambda>_. ()) ex_commit_conf None ex_committer = Ok (Inr ([NextAnchor a], c'))
  \<and> ad_history a = [ex_commit_point 1 4, ex_commit_point 2 4] \<and> ad_anchor a = ex_commit_point 1 5"
proof -
  obtain a c' where a: "cm_commit ex_shuffle (\<lambda>_. ()) ex_commit_conf ex_committer = Ok (Inr [a], c')"
    "ad_history a = [ex_commit_point 1 4, ex_commit_point 2 4]" "ad_anchor a = ex_commit_point 1 5" using ex_commit by blast
  have "min_front_rounds (mc_consensus ex_commit_conf) < length (cm_dag ex_committer)" "cm_bottom_round ex_committer = Ok 4"
    by (simp_all add: ex_commit_conf_def min_front_rounds_def ex_committer_def cm_bottom_round_def db_bottom_round_def)
  with a show ?thesis
    by (simp add: ct_update_task_def ct_dropping_def ct_drop_loop.simps [of _ _ _ _ 0] ct_outputs_def)
qed

definition ex_stream_point :: "peer_id \<Rightarrow> point" where
  "ex_stream_point author = \<lparr>pt_serialized = [1], pt_info = ex_commit_point author 4\<rparr>"

definition ex_stream_db :: mempool_db where
  "ex_stream_db = ms_insert_point ex_tl (ex_stream_point 1) StExists (ms_insert_point ex_tl (ex_stream_point 2) StExists mdb_empty)"

lemma ex_stream_payload:
  "ms_expand_anchor_history ex_tl [ex_commit_point 1 4, ex_commit_point 2 4] ex_stream_db = Ok [[1], [1], [1], [1]]"
proof -
  have p: "pi_round (pt_info (ex_stream_point a)) = 4" "pi_digest (pt_info (ex_stream_point a)) = 40 + a"
    "pt_serialized (ex_stream_point a) = [1]" for a by (simp_all add: ex_stream_point_def ex_commit_point_def)
  have wf: "db_wf (ms_insert_point ex_tl (ex_stream_point 2) StExists mdb_empty)" "db_wf ex_stream_db"
    unfolding ex_stream_db_def by (intro ms_insert_point_wf mdb_empty_wf; simp add: p u32_max_def)+
  note raw = raw_after_insert [OF wf(1)] raw_after_insert [OF mdb_empty_wf]
  have get: "ms_get_point_raw 4 41 ex_stream_db = Some [1]" "ms_get_point_raw 4 42 ex_stream_db = Some [1]"
    by (simp_all add: ex_stream_db_def raw p u32_max_def)
  have q: "pi_round (ex_commit_point a 4) = 4" "pi_digest (ex_commit_point a 4) = 40 + a" for a
    by (simp_all add: ex_commit_point_def)
  have "bm_wf (mdb_points ex_stream_db)" using wf(2) by (simp add: db_wf_def keyed_def)
  from expand_history [OF this, of "[ex_commit_point 1 4, ex_commit_point 2 4]" ex_tl "\<lambda>_. [[1], [1]]"]
  show ?thesis by (simp add: q get ex_tl_def u32_max_def)
qed


lemma ex_stream_run:
  assumes "ad_history a = [ex_commit_point 1 4, ex_commit_point 2 4]" "ad_anchor a = ex_commit_point 1 5"
  shows "\<exists>s'. sh_run ex_hash ex_tl (ex_cell_lib (\<lambda>x. x)) 3 [NextAnchor a] (sh_new 3 ca_default ex_stream_db 0) = Ok s'
    \<and> sh_first_after_gap s' = None"
proof -
  let ?s = "sh_new 3 ca_default ex_stream_db 0 :: (byte list, unit) external_message shuttle"
  have enc: "one_encoding ex_hash (ex_cell_lib (\<lambda>x. x))" by (auto simp: one_encoding_def parse_message_bytes_def ex_cell_lib_def)
  have inv: "sh_inv ex_hash (ex_cell_lib (\<lambda>x. x)) 3 [] 0 ?s" by (rule sh_inv_fresh) (simp add: sh_new_def)
  have r: "anchor_round a = 5" using assms(2) by (simp add: ex_commit_point_def)
  have pay: "anchor_payload ex_tl (sh_db ?s) a = Ok [[1], [1], [1], [1]]"
    using ex_stream_payload assms(1) by (simp add: anchor_payload_def sh_new_def)
  have "sh_first_after_gap ?s = None" by (simp add: sh_new_def)
  moreover obtain s' where "handle_mempool_output ex_hash ex_tl (ex_cell_lib (\<lambda>x. x)) 3 (NextAnchor a) ?s = Ok s'"
      "sh_first_after_gap s' = sh_first_after_gap ?s"
    by (rule sh_handle_step [OF enc inv _ _ _ _ pay]) (use r in \<open>simp_all add: u32_max_def\<close>)
  ultimately show ?thesis by (simp add: sh_run_def)
qed

end
