(* ===== verification/Download_Limiter.thy ===== *)
theory Download_Limiter
  imports Mempool_Config
begin

text \<open>
  The limit on concurrent downloads: \<^verbatim>\<open>consensus/src/intercom/dependency/limiter.rs\<close>.

  A download enters at once while slots are free and otherwise waits on a semaphore of its round; when a
  download ends, its slot goes to a waiter of the newest round. Semaphores are shared between the limiter
  and the tasks that wait, so they live in a store of their own: the number of permits of each semaphore ever made.
  Which of the tasks that wait on one semaphore takes a permit is left open.

  \<open>lim_life\<close> is the life of a limiter with its tasks, including tasks that are dropped while they
  wait. The lemmas show that slots are exactly the tasks inside and the permits on their way, and
  that a task dropped while it waits costs a slot.
\<close>

section \<open>Model\<close>

record waiter =
  wt_semaphore :: nat
  wt_inflight :: nat

record limiter =
  lm_inflight_bypassed :: nat
  lm_waiters :: "(round, waiter) bmap"
  lm_permits :: "nat list"

definition lm_default :: limiter where
  "lm_default = \<lparr>lm_inflight_bypassed = 0, lm_waiters = [], lm_permits = []\<rparr>"

text \<open>The part of \<^verbatim>\<open>enter\<close> under the lock: the semaphore to wait on, if any.\<close>

definition lm_enter :: "round \<Rightarrow> consensus_config \<Rightarrow> limiter \<Rightarrow> nat option \<times> limiter" where
  "lm_enter round conf l =
     (if lm_inflight_bypassed l \<le> cc_download_tasks conf
      then (None, l\<lparr>lm_inflight_bypassed := (lm_inflight_bypassed l + 1) mod (u16_max + 1)\<rparr>)
      else
        let (waiter, permits) =
              (case bm_get (lm_waiters l) round of
                 Some waiter \<Rightarrow> (waiter, lm_permits l)
               | None \<Rightarrow> (\<lparr>wt_semaphore = length (lm_permits l), wt_inflight = 0\<rparr>, lm_permits l @ [0]));
            waiter = waiter\<lparr>wt_inflight := wt_inflight waiter + 1\<rparr>
        in (Some (wt_semaphore waiter), l\<lparr>lm_waiters := bm_insert round waiter (lm_waiters l), lm_permits := permits\<rparr>))"

text \<open>The part of \<^verbatim>\<open>enter\<close> that waits: a permit is taken and forgotten, or there is none yet.\<close>

definition lm_acquire :: "nat \<Rightarrow> limiter \<Rightarrow> limiter option" where
  "lm_acquire semaphore l =
     (if lm_permits l ! semaphore = 0 then None
      else Some (l\<lparr>lm_permits := (lm_permits l)[semaphore := lm_permits l ! semaphore - 1]\<rparr>))"

definition lm_exit :: "round \<Rightarrow> limiter \<Rightarrow> (unit, limiter) outcome" where
  "lm_exit round l =
     (if lm_waiters l \<noteq> [] then
        let (key, waiter) = last (lm_waiters l);
            s = wt_semaphore waiter;
            l = l\<lparr>lm_permits := (lm_permits l)[s := lm_permits l ! s + 1]\<rparr>
        in case checked_sub (wt_inflight waiter) 1 of
             None \<Rightarrow> Panic
           | Some decreased \<Rightarrow>
               if decreased = 0 then Ok (l\<lparr>lm_waiters := bm_remove key (lm_waiters l)\<rparr>)
               else Ok (l\<lparr>lm_waiters := bm_insert key (waiter\<lparr>wt_inflight := decreased\<rparr>) (lm_waiters l)\<rparr>)
      else
        case checked_sub (lm_inflight_bypassed l) 1 of
          None \<Rightarrow> Panic
        | Some decreased \<Rightarrow> Ok (l\<lparr>lm_inflight_bypassed := decreased\<rparr>))"

section \<open>Slots and permits\<close>

text \<open>
  The limiter with its tasks: the rounds of the downloads inside, round and semaphore of those that
  wait, and the semaphores of those that were dropped while waiting.
\<close>

inductive lim_life :: "consensus_config \<Rightarrow> limiter \<Rightarrow> round list \<Rightarrow> (round \<times> nat) list \<Rightarrow> nat list \<Rightarrow> bool" for conf where
  start: "lim_life conf lm_default [] [] []"
| bypass: "lim_life conf l inside waiting lost \<Longrightarrow> lm_enter round conf l = (None, l') \<Longrightarrow> lim_life conf l' (round # inside) waiting lost"
| wait: "lim_life conf l inside waiting lost \<Longrightarrow> lm_enter round conf l = (Some s, l') \<Longrightarrow> lim_life conf l' inside ((round, s) # waiting) lost"
| acquire: "lim_life conf l inside waiting lost \<Longrightarrow> (round, s) \<in> set waiting \<Longrightarrow> lm_acquire s l = Some l'
    \<Longrightarrow> lim_life conf l' (round # inside) (remove1 (round, s) waiting) lost"
| exit: "lim_life conf l inside waiting lost \<Longrightarrow> round \<in> set inside \<Longrightarrow> lm_exit round l = Ok l' \<Longrightarrow> lim_life conf l' (remove1 round inside) waiting lost"
| dropped: "lim_life conf l inside waiting lost \<Longrightarrow> (round, s) \<in> set waiting \<Longrightarrow> lim_life conf l inside (remove1 (round, s) waiting) (s # lost)"

definition waits_on :: "nat \<Rightarrow> (round \<times> nat) list \<Rightarrow> nat list \<Rightarrow> nat" where
  "waits_on s waiting lost = length (filter (\<lambda>w. snd w = s) waiting) + length (filter (\<lambda>x. x = s) lost)"

text \<open>Permits and those still counted by a waiter are the tasks that came to wait on a semaphore.\<close>

definition sems_ok :: "limiter \<Rightarrow> (round \<times> nat) list \<Rightarrow> nat list \<Rightarrow> bool" where
  "sems_ok l waiting lost \<longleftrightarrow>
     (\<forall>r w. bm_get (lm_waiters l) r = Some w \<longrightarrow> wt_semaphore w < length (lm_permits l) \<and> 0 < wt_inflight w
        \<and> lm_permits l ! wt_semaphore w + wt_inflight w = waits_on (wt_semaphore w) waiting lost
        \<and> (\<forall>r'. (r', wt_semaphore w) \<in> set waiting \<longrightarrow> r' = r)
        \<and> (\<forall>r' w'. bm_get (lm_waiters l) r' = Some w' \<longrightarrow> wt_semaphore w' = wt_semaphore w \<longrightarrow> r' = r))
     \<and> (\<forall>s < length (lm_permits l). s \<notin> {wt_semaphore w | r w. bm_get (lm_waiters l) r = Some w}
          \<longrightarrow> lm_permits l ! s = waits_on s waiting lost)
     \<and> (\<forall>(r, s)\<in>set waiting. s < length (lm_permits l)) \<and> (\<forall>s\<in>set lost. s < length (lm_permits l))"

definition lim_ok :: "consensus_config \<Rightarrow> limiter \<Rightarrow> round list \<Rightarrow> (round \<times> nat) list \<Rightarrow> nat list \<Rightarrow> bool" where
  "lim_ok conf l inside waiting lost \<longleftrightarrow> bm_wf (lm_waiters l) \<and> sems_ok l waiting lost
     \<and> lm_inflight_bypassed l = length inside + sum_list (lm_permits l)
     \<and> lm_inflight_bypassed l \<le> cc_download_tasks conf + 1
     \<and> (lm_waiters l \<noteq> [] \<longrightarrow> lm_inflight_bypassed l = cc_download_tasks conf + 1)"

lemma waits_on_simps [simp]:
  "waits_on s ((r, s') # waiting) lost = (if s' = s then 1 else 0) + waits_on s waiting lost"
  "waits_on s waiting (s' # lost) = (if s' = s then 1 else 0) + waits_on s waiting lost"
  by (simp_all add: waits_on_def)

lemma waits_on_remove:
  "(r, s') \<in> set waiting \<Longrightarrow> waits_on s waiting lost = (if s' = s then 1 else 0) + waits_on s (remove1 (r, s') waiting) lost"
  by (induction waiting) (auto simp: waits_on_def)

lemma waits_on_pos: "(r, s) \<in> set waiting \<Longrightarrow> 0 < waits_on s waiting lost"
  by (induction waiting) (auto simp: waits_on_def)

lemma sum_list_update_nat: "i < length xs \<Longrightarrow> sum_list (xs[i := v]) + xs ! i = sum_list xs + (v :: nat)"
  by (induction xs arbitrary: i) (auto split: nat.splits)


lemma sems_ok_bypassed [simp]: "sems_ok (l\<lparr>lm_inflight_bypassed := n\<rparr>) waiting lost = sems_ok l waiting lost"
  unfolding sems_ok_def by simp

lemma sems_okD:
  assumes "sems_ok l waiting lost" "bm_get (lm_waiters l) r = Some w"
  shows "wt_semaphore w < length (lm_permits l)" "0 < wt_inflight w"
    "lm_permits l ! wt_semaphore w + wt_inflight w = waits_on (wt_semaphore w) waiting lost"
    "(r', wt_semaphore w) \<in> set waiting \<Longrightarrow> r' = r"
    "bm_get (lm_waiters l) r' = Some w' \<Longrightarrow> wt_semaphore w' = wt_semaphore w \<Longrightarrow> r' = r"
  using assms unfolding sems_ok_def by blast+

lemma sems_ok_free:
  "sems_ok l waiting lost \<Longrightarrow> s < length (lm_permits l) \<Longrightarrow> (\<And>r w. bm_get (lm_waiters l) r = Some w \<Longrightarrow> wt_semaphore w \<noteq> s)
   \<Longrightarrow> lm_permits l ! s = waits_on s waiting lost"
  unfolding sems_ok_def by blast

lemma sems_ok_bound:
  "sems_ok l waiting lost \<Longrightarrow> (r, s) \<in> set waiting \<Longrightarrow> s < length (lm_permits l)"
  "sems_ok l waiting lost \<Longrightarrow> s \<in> set lost \<Longrightarrow> s < length (lm_permits l)"
  unfolding sems_ok_def by auto

lemma sems_okI:
  assumes "\<And>r w. bm_get (lm_waiters l) r = Some w \<Longrightarrow> wt_semaphore w < length (lm_permits l) \<and> 0 < wt_inflight w
        \<and> lm_permits l ! wt_semaphore w + wt_inflight w = waits_on (wt_semaphore w) waiting lost"
    and "\<And>r w r'. bm_get (lm_waiters l) r = Some w \<Longrightarrow> (r', wt_semaphore w) \<in> set waiting \<Longrightarrow> r' = r"
    and "\<And>r w r' w'. bm_get (lm_waiters l) r = Some w \<Longrightarrow> bm_get (lm_waiters l) r' = Some w' \<Longrightarrow> wt_semaphore w' = wt_semaphore w
      \<Longrightarrow> r' = r"
    and "\<And>s. s < length (lm_permits l) \<Longrightarrow> (\<And>r w. bm_get (lm_waiters l) r = Some w \<Longrightarrow> wt_semaphore w \<noteq> s)
      \<Longrightarrow> lm_permits l ! s = waits_on s waiting lost"
    and "\<And>r s. (r, s) \<in> set waiting \<Longrightarrow> s < length (lm_permits l)" "\<And>s. s \<in> set lost \<Longrightarrow> s < length (lm_permits l)"
  shows "sems_ok l waiting lost"
  using assms unfolding sems_ok_def by blast

lemma waits_on_fresh:
  "\<forall>(r, s')\<in>set waiting. s' < s \<Longrightarrow> \<forall>s'\<in>set lost. s' < s \<Longrightarrow> waits_on s waiting lost = 0"
  by (auto simp: waits_on_def filter_empty_conv)

text \<open>One entry and its semaphore change; the tasks that wait on it are of its round.\<close>

lemma sems_ok_upd:
  assumes "sems_ok l waiting lost"
    and get: "bm_get (lm_waiters l') = (bm_get (lm_waiters l))(k \<mapsto> v)" "wt_semaphore v = s" "0 < wt_inflight v"
    and own: "\<And>r w. bm_get (lm_waiters l) r = Some w \<Longrightarrow> r = k \<longleftrightarrow> wt_semaphore w = s" "\<And>r. (r, s) \<in> set waiting \<Longrightarrow> r = k"
    and len: "length (lm_permits l) \<le> length (lm_permits l')" "s < length (lm_permits l')"
      "\<And>x. x < length (lm_permits l') \<Longrightarrow> x \<noteq> s \<Longrightarrow> x < length (lm_permits l) \<and> lm_permits l' ! x = lm_permits l ! x"
    and count: "\<And>x. x \<noteq> s \<Longrightarrow> waits_on x waiting' lost = waits_on x waiting lost"
      "lm_permits l' ! s + wt_inflight v = waits_on s waiting' lost" "set waiting' \<subseteq> insert (k, s) (set waiting)"
  shows "sems_ok l' waiting' lost"
proof (rule sems_okI)
  fix r w assume w: "bm_get (lm_waiters l') r = Some w"
  note d = sems_okD [OF assms(1), of r w]
  have cases: "r = k \<and> w = v \<or> r \<noteq> k \<and> bm_get (lm_waiters l) r = Some w \<and> wt_semaphore w \<noteq> s"
    using w get(1) own(1) by (auto split: if_splits)
  then show "wt_semaphore w < length (lm_permits l') \<and> 0 < wt_inflight w
      \<and> lm_permits l' ! wt_semaphore w + wt_inflight w = waits_on (wt_semaphore w) waiting' lost"
  proof
    assume r: "r \<noteq> k \<and> bm_get (lm_waiters l) r = Some w \<and> wt_semaphore w \<noteq> s"
    then have "wt_semaphore w < length (lm_permits l')" using d(1) len(1) by simp
    then show ?thesis using r d(2,3) len(3) [of "wt_semaphore w"] count(1) [of "wt_semaphore w"] by simp
  qed (use get(2,3) len(2) count(2) in simp)
  show "r' = r" if "(r', wt_semaphore w) \<in> set waiting'" for r'
    using cases that count(3) own(2) get(2) d(4) by blast
  show "r' = r" if "bm_get (lm_waiters l') r' = Some w'" "wt_semaphore w' = wt_semaphore w" for r' w'
  proof -
    have "r' = k \<and> w' = v \<or> r' \<noteq> k \<and> bm_get (lm_waiters l) r' = Some w' \<and> wt_semaphore w' \<noteq> s"
      using that(1) get(1) own(1) by (auto split: if_splits)
    with cases that(2) get(2) d(5) show ?thesis by metis
  qed
next
  fix x assume x: "x < length (lm_permits l')" "\<And>r w. bm_get (lm_waiters l') r = Some w \<Longrightarrow> wt_semaphore w \<noteq> x"
  have "x \<noteq> s" using x(2) [of k v] get(1,2) by simp
  moreover have "wt_semaphore w \<noteq> x" if "bm_get (lm_waiters l) r = Some w" for r w
    using x(2) [of r w] that own(1) [OF that] \<open>x \<noteq> s\<close> get(1) by (cases "r = k") auto
  ultimately show "lm_permits l' ! x = waits_on x waiting' lost"
    using sems_ok_free [OF assms(1)] len(3) [OF x(1)] count(1) by simp
next
  show "s' < length (lm_permits l')" if "(r, s') \<in> set waiting'" for r s'
    using that count(3) len(1,2) sems_ok_bound(1) [OF assms(1), of r s'] by (auto intro: less_le_trans)
  show "s' < length (lm_permits l')" if "s' \<in> set lost" for s'
    using sems_ok_bound(2) [OF assms(1) that] len(1) by simp
qed

lemma wait_new:
  assumes "sems_ok l waiting lost" "bm_wf (lm_waiters l)" "bm_get (lm_waiters l) round = None" "s = length (lm_permits l)"
    and l': "l' = l\<lparr>lm_waiters := bm_insert round \<lparr>wt_semaphore = s, wt_inflight = 1\<rparr> (lm_waiters l), lm_permits := lm_permits l @ [0]\<rparr>"
  shows "sems_ok l' ((round, s) # waiting) lost"
proof -
  have none: "(r, s) \<notin> set waiting" for r using sems_ok_bound(1) [OF assms(1)] assms(4) by auto
  have fresh: "waits_on s waiting lost = 0"
    by (rule waits_on_fresh) (use sems_ok_bound [OF assms(1)] assms(4) in auto)
  have own: "r = round \<longleftrightarrow> wt_semaphore w = s" if "bm_get (lm_waiters l) r = Some w" for r w
    using sems_okD(1) [OF assms(1) that] that assms(3,4) by auto
  show ?thesis
    by (rule sems_ok_upd [OF assms(1), of _ round "\<lparr>wt_semaphore = s, wt_inflight = 1\<rparr>" s])
      (use own none fresh assms(4) in \<open>auto simp: l' bm_get_insert [OF assms(2)] nth_append\<close>)
qed

lemma wait_old:
  assumes "sems_ok l waiting lost" "bm_wf (lm_waiters l)" "bm_get (lm_waiters l) round = Some w" "s = wt_semaphore w"
    and l': "l' = l\<lparr>lm_waiters := bm_insert round (w\<lparr>wt_inflight := wt_inflight w + 1\<rparr>) (lm_waiters l)\<rparr>"
  shows "sems_ok l' ((round, s) # waiting) lost"
proof -
  note d = sems_okD [OF assms(1,3)]
  have own: "r = round \<longleftrightarrow> wt_semaphore w' = s" if "bm_get (lm_waiters l) r = Some w'" for r w'
    using d(5) [OF that] that assms(3,4) by auto
  show ?thesis
    by (rule sems_ok_upd [OF assms(1), of _ round "w\<lparr>wt_inflight := wt_inflight w + 1\<rparr>" s])
      (use d own assms(4) in \<open>auto simp: l' bm_get_insert [OF assms(2)]\<close>)
qed

lemma wait_sems:
  assumes "sems_ok l waiting lost" "bm_wf (lm_waiters l)" "lm_enter round conf l = (Some s, l')"
  shows "sems_ok l' ((round, s) # waiting) lost" "bm_wf (lm_waiters l')" "sum_list (lm_permits l') = sum_list (lm_permits l)"
    "lm_inflight_bypassed l' = lm_inflight_bypassed l"
proof -
  show "sems_ok l' ((round, s) # waiting) lost"
    using assms(3) wait_new [OF assms(1,2)] wait_old [OF assms(1,2)]
    by (cases "bm_get (lm_waiters l) round") (auto simp: lm_enter_def Let_def split: if_splits)
qed (use assms(2,3) in \<open>auto simp: lm_enter_def Let_def bm_wf_insert split: if_splits option.splits prod.splits\<close>)

lemma acquire_sems:
  assumes "sems_ok l waiting lost" "(round, s) \<in> set waiting" "lm_acquire s l = Some l'"
  shows "sems_ok l' (remove1 (round, s) waiting) lost" "Suc (sum_list (lm_permits l')) = sum_list (lm_permits l)"
    "lm_inflight_bypassed l' = lm_inflight_bypassed l" "lm_waiters l' = lm_waiters l"
proof -
  from assms(3) have l': "l' = l\<lparr>lm_permits := (lm_permits l)[s := lm_permits l ! s - 1]\<rparr>" and p: "0 < lm_permits l ! s"
    by (auto simp: lm_acquire_def split: if_splits)
  have s: "s < length (lm_permits l)" using sems_ok_bound(1) [OF assms(1,2)] .
  note count = waits_on_remove [OF assms(2)] and sub = notin_set_remove1
  show "sems_ok l' (remove1 (round, s) waiting) lost"
  proof (rule sems_okI)
    fix r w assume w: "bm_get (lm_waiters l') r = Some w"
    note d = sems_okD [OF assms(1), of r w]
    show "wt_semaphore w < length (lm_permits l') \<and> 0 < wt_inflight w
        \<and> lm_permits l' ! wt_semaphore w + wt_inflight w = waits_on (wt_semaphore w) (remove1 (round, s) waiting) lost"
      using w d(1-3) count [of "wt_semaphore w" lost] p by (auto simp: l' nth_list_update split: if_splits)
    show "r' = r" if "(r', wt_semaphore w) \<in> set (remove1 (round, s) waiting)" for r'
      using w d(4) that set_remove1_subset [of "(round, s)" waiting] by (auto simp: l')
    show "r' = r" if "bm_get (lm_waiters l') r' = Some w'" "wt_semaphore w' = wt_semaphore w" for r' w'
      using w d(5) that by (auto simp: l')
  next
    fix x assume "x < length (lm_permits l')" "\<And>r w. bm_get (lm_waiters l') r = Some w \<Longrightarrow> wt_semaphore w \<noteq> x"
    then show "lm_permits l' ! x = waits_on x (remove1 (round, s) waiting) lost"
      using sems_ok_free [OF assms(1), of x] count [of x lost] p by (auto simp: l' nth_list_update split: if_splits)
  qed (use sems_ok_bound [OF assms(1)] set_remove1_subset [of "(round, s)" waiting] in \<open>auto simp: l'\<close>)
  show "Suc (sum_list (lm_permits l')) = sum_list (lm_permits l)"
    using sum_list_update_nat [OF s, of "lm_permits l ! s - 1"] p by (simp add: l')
qed (use assms(3) in \<open>auto simp: lm_acquire_def split: if_splits\<close>)

lemma dropped_sems:
  assumes "sems_ok l waiting lost" "(round, s) \<in> set waiting"
  shows "sems_ok l (remove1 (round, s) waiting) (s # lost)"
proof -
  have same: "waits_on x (remove1 (round, s) waiting) (s # lost) = waits_on x waiting lost" for x
    using waits_on_remove [OF assms(2), of x lost] by simp
  have sub: "set (remove1 (round, s) waiting) \<subseteq> set waiting" by (rule set_remove1_subset)
  have "\<forall>x\<in>set (s # lost). x < length (lm_permits l)" using sems_ok_bound [OF assms(1)] assms(2) by auto
  with assms(1) sub show ?thesis unfolding sems_ok_def same by blast
qed


lemma last_key:
  assumes "bm_wf m" "m \<noteq> []"
  shows "bm_get m (fst (last m)) = Some (snd (last m))" "bm_get m r = Some w \<Longrightarrow> r \<le> fst (last m)"
proof -
  have "last m \<in> set m" using assms(2) by simp
  then show "bm_get m (fst (last m)) = Some (snd (last m))" using bm_get_Some_iff [OF assms(1)] by simp
  assume "bm_get m r = Some w"
  then have "r \<in> set (map fst m)" using bm_get_Some_iff [OF assms(1)] by force
  then obtain i where i: "i < length m" "map fst m ! i = r" unfolding in_set_conv_nth by auto
  have "sorted (map fst m)" using assms(1) by (simp add: bm_wf_def strict_sorted_iff)
  from sorted_nth_mono [OF this, of i "length m - 1"] i assms(2) show "r \<le> fst (last m)"
    by (simp add: last_conv_nth)
qed

text \<open>The last of the tasks counted by an entry gets its permit and the entry is removed.\<close>

lemma sems_ok_last:
  assumes "sems_ok l waiting lost" "bm_get (lm_waiters l) k = Some w" "wt_inflight w = 1"
    and l': "l' = l\<lparr>lm_permits := (lm_permits l)[wt_semaphore w := lm_permits l ! wt_semaphore w + 1],
      lm_waiters := bm_remove k (lm_waiters l)\<rparr>"
  shows "sems_ok l' waiting lost"
proof (rule sems_okI)
  let ?s = "wt_semaphore w"
  note d = sems_okD [OF assms(1,2)]
  have own: "r = k \<longleftrightarrow> wt_semaphore v = ?s" if "bm_get (lm_waiters l) r = Some v" for r v
    using d(5) [OF that] that assms(2) by auto
  fix r v assume v: "bm_get (lm_waiters l') r = Some v"
  then have r: "bm_get (lm_waiters l) r = Some v" "r \<noteq> k" by (auto simp: l' bm_get_remove split: if_splits)
  note e = sems_okD [OF assms(1) r(1)]
  show "wt_semaphore v < length (lm_permits l') \<and> 0 < wt_inflight v
      \<and> lm_permits l' ! wt_semaphore v + wt_inflight v = waits_on (wt_semaphore v) waiting lost"
    using e(1-3) own [OF r(1)] r(2) by (simp add: l')
  show "r' = r" if "(r', wt_semaphore v) \<in> set waiting" for r' using e(4) that by simp
  show "r' = r" if "bm_get (lm_waiters l') r' = Some v'" "wt_semaphore v' = wt_semaphore v" for r' v'
    using e(5) that by (auto simp: l' bm_get_remove split: if_splits)
next
  fix x assume x: "x < length (lm_permits l')" "\<And>r v. bm_get (lm_waiters l') r = Some v \<Longrightarrow> wt_semaphore v \<noteq> x"
  show "lm_permits l' ! x = waits_on x waiting lost"
  proof (cases "x = wt_semaphore w")
    case True
    with sems_okD(1,3) [OF assms(1,2)] assms(3) show ?thesis by (simp add: l')
  next
    case False
    have "wt_semaphore v \<noteq> x" if "bm_get (lm_waiters l) r = Some v" for r v
      using x(2) [of r v] that False assms(2) by (cases "r = k") (auto simp: l' bm_get_remove)
    with sems_ok_free [OF assms(1), of x] x(1) False show ?thesis by (simp add: l')
  qed
qed (use sems_ok_bound [OF assms(1)] in \<open>auto simp: l'\<close>)

text \<open>A task that still lacks a permit is in an entry of its round, so no newer than the newest one.\<close>

lemma newest_entry:
  assumes "sems_ok l waiting lost" "bm_wf (lm_waiters l)" "lm_waiters l \<noteq> []"
    and "(r, s) \<in> set waiting" "lm_permits l ! s < waits_on s waiting lost"
  shows "r \<le> fst (last (lm_waiters l))"
proof (rule ccontr)
  assume r: "\<not> r \<le> fst (last (lm_waiters l))"
  have "wt_semaphore w \<noteq> s" if "bm_get (lm_waiters l) r' = Some w" for r' w
    using sems_okD(4) [OF assms(1) that, of r] last_key(2) [OF assms(2,3) that] assms(4) r by auto
  then have "lm_permits l ! s = waits_on s waiting lost"
    by (rule sems_ok_free [OF assms(1) sems_ok_bound(1) [OF assms(1,4)]])
  with assms(5) show False by simp
qed

text \<open>The slot of a download that ends goes to the newest round that has waiters.\<close>

lemma exit_hands_over:
  assumes "sems_ok l waiting lost" "bm_wf (lm_waiters l)" "lm_waiters l \<noteq> []"
  shows "\<exists>l' s. lm_exit round l = Ok l' \<and> sems_ok l' waiting lost \<and> bm_wf (lm_waiters l')
    \<and> lm_inflight_bypassed l' = lm_inflight_bypassed l \<and> s < length (lm_permits l)
    \<and> lm_permits l' = (lm_permits l)[s := lm_permits l ! s + 1]
    \<and> (\<forall>r. (r, s) \<in> set waiting \<longrightarrow> r = fst (last (lm_waiters l)))"
proof -
  obtain k w where kw: "last (lm_waiters l) = (k, w)" by fastforce
  note get = last_key(1) [OF assms(2,3), unfolded kw fst_conv snd_conv]
  note d = sems_okD [OF assms(1) get]
  let ?s = "wt_semaphore w" and ?n = "wt_inflight w - 1"
  let ?p = "(lm_permits l)[?s := lm_permits l ! ?s + 1]"
  show ?thesis
  proof (cases "?n = 0")
    case True
    let ?l = "l\<lparr>lm_permits := ?p, lm_waiters := bm_remove k (lm_waiters l)\<rparr>"
    have "lm_exit round l = Ok ?l" using True d(2) assms(3) by (simp add: lm_exit_def kw checked_sub_def Let_def)
    moreover have "sems_ok ?l waiting lost" by (rule sems_ok_last [OF assms(1) get]) (use True d(2) in simp_all)
    ultimately show ?thesis
      using d(1,4) by (intro exI [of _ ?l] exI [of _ ?s]) (auto simp: bm_wf_remove assms(2) kw)
  next
    case False
    let ?l = "l\<lparr>lm_permits := ?p, lm_waiters := bm_insert k (w\<lparr>wt_inflight := ?n\<rparr>) (lm_waiters l)\<rparr>"
    have own: "r = k \<longleftrightarrow> wt_semaphore w' = ?s" if "bm_get (lm_waiters l) r = Some w'" for r w'
      using d(5) [OF that] that get by auto
    have "lm_exit round l = Ok ?l" using False d(2) assms(3) by (simp add: lm_exit_def kw checked_sub_def Let_def)
    moreover have "sems_ok ?l waiting lost"
      by (rule sems_ok_upd [OF assms(1), of _ k "w\<lparr>wt_inflight := ?n\<rparr>" ?s])
        (use d own False in \<open>auto simp: bm_get_insert [OF assms(2)]\<close>)
    ultimately show ?thesis
      using d(1,4) by (intro exI [of _ ?l] exI [of _ ?s]) (auto simp: bm_wf_insert assms(2) kw)
  qed
qed

lemma exit_ok:
  assumes "lim_ok conf l inside waiting lost" "round \<in> set inside"
  shows "\<exists>l'. lm_exit round l = Ok l' \<and> lim_ok conf l' (remove1 round inside) waiting lost"
proof -
  have in1: "Suc (length (remove1 round inside)) = length inside"
    using assms(2) length_pos_if_in_set [OF assms(2)] by (simp add: length_remove1)
  from assms(1) have ok: "sems_ok l waiting lost" "bm_wf (lm_waiters l)" by (simp_all add: lim_ok_def)
  show ?thesis
  proof (cases "lm_waiters l = []")
    case True
    have pos: "0 < lm_inflight_bypassed l" using assms(1) in1 unfolding lim_ok_def by linarith
    let ?l = "l\<lparr>lm_inflight_bypassed := lm_inflight_bypassed l - 1\<rparr>"
    have "lm_exit round l = Ok ?l" using True pos by (simp add: lm_exit_def checked_sub_def)
    moreover have "lim_ok conf ?l (remove1 round inside) waiting lost"
      using assms(1) True in1 unfolding lim_ok_def by auto
    ultimately show ?thesis by blast
  next
    case False
    from exit_hands_over [OF ok False] obtain l' s where l': "lm_exit round l = Ok l'" "sems_ok l' waiting lost" "bm_wf (lm_waiters l')"
        "lm_inflight_bypassed l' = lm_inflight_bypassed l" "s < length (lm_permits l)"
        "lm_permits l' = (lm_permits l)[s := lm_permits l ! s + 1]" by blast
    have "sum_list (lm_permits l') = Suc (sum_list (lm_permits l))"
      using sum_list_update_nat [OF l'(5), of "lm_permits l ! s + 1"] l'(6) by simp
    moreover have "lm_inflight_bypassed l = length inside + sum_list (lm_permits l)" "lm_inflight_bypassed l = cc_download_tasks conf + 1"
      using assms(1) False by (simp_all add: lim_ok_def)
    ultimately have "lim_ok conf l' (remove1 round inside) waiting lost" using l'(2-4) in1 unfolding lim_ok_def by simp
    with l'(1) show ?thesis by blast
  qed
qed

lemma lim_life_ok:
  assumes "lim_life conf l inside waiting lost" "cc_download_tasks conf < u16_max"
  shows "lim_ok conf l inside waiting lost"
  using assms(1)
proof induction
  case start
  then show ?case by (simp add: lim_ok_def lm_default_def sems_ok_def bm_get_def bm_wf_def)
next
  case (bypass l inside waiting lost round l')
  from bypass(2) have l': "lm_inflight_bypassed l \<le> cc_download_tasks conf"
      "l' = l\<lparr>lm_inflight_bypassed := (lm_inflight_bypassed l + 1) mod (u16_max + 1)\<rparr>"
    by (auto simp: lm_enter_def Let_def split: if_splits prod.splits)
  with assms(2) have "lm_inflight_bypassed l' = lm_inflight_bypassed l + 1" by simp
  moreover have "sems_ok l' waiting lost" using bypass(3) l'(2) by (simp add: lim_ok_def)
  ultimately show ?case using bypass(3) l' unfolding lim_ok_def by auto
next
  case (wait l inside waiting lost round s l')
  from wait(2) have "\<not> lm_inflight_bypassed l \<le> cc_download_tasks conf" by (auto simp: lm_enter_def)
  with wait(3) wait_sems [OF _ _ wait(2), of waiting lost] show ?case unfolding lim_ok_def by simp
next
  case (acquire l inside waiting lost round s l')
  from acquire(4) have "sems_ok l waiting lost" by (simp add: lim_ok_def)
  from acquire_sems [OF this acquire(2,3)] acquire(4) show ?case unfolding lim_ok_def by auto
next
  case (exit l inside waiting lost round l')
  from exit_ok [OF exit(4,2)] exit(3) show ?case by auto
next
  case (dropped l inside waiting lost round s)
  from dropped(3) dropped_sems [OF _ dropped(2), of l lost] show ?case unfolding lim_ok_def by auto
qed


section \<open>Properties\<close>

lemma permits_le:
  assumes "sems_ok l waiting lost" "s < length (lm_permits l)"
  shows "lm_permits l ! s \<le> waits_on s waiting lost"
proof (cases "\<exists>r w. bm_get (lm_waiters l) r = Some w \<and> wt_semaphore w = s")
  case True
  then show ?thesis using sems_okD(3) [OF assms(1)] by (metis le_add1)
next
  case False
  then show ?thesis using sems_ok_free [OF assms] by auto
qed

lemma waits_on_task: "0 < waits_on s waiting [] \<Longrightarrow> \<exists>r. (r, s) \<in> set waiting"
  by (auto simp: waits_on_def filter_empty_conv)

lemma someone_goes_on:
  assumes "lim_ok conf l [] waiting []" "waiting \<noteq> []"
  shows "\<exists>(r, s)\<in>set waiting. lm_acquire s l \<noteq> None"
proof -
  have ok: "sems_ok l waiting []" using assms(1) by (simp add: lim_ok_def)
  have "\<exists>s < length (lm_permits l). 0 < lm_permits l ! s"
  proof (cases "lm_waiters l = []")
    case True
    obtain r s where w: "(r, s) \<in> set waiting" using assms(2) by (cases waiting) auto
    have s: "s < length (lm_permits l)" by (rule sems_ok_bound(1) [OF ok w])
    have "lm_permits l ! s = waits_on s waiting []" by (rule sems_ok_free [OF ok s]) (simp add: True bm_get_def)
    with s waits_on_pos [OF w] show ?thesis by auto
  next
    case False
    with assms(1) have "lm_inflight_bypassed l = sum_list (lm_permits l)" "lm_inflight_bypassed l = cc_download_tasks conf + 1"
      unfolding lim_ok_def by auto
    then have "sum_list (lm_permits l) \<noteq> 0" by linarith
    then show ?thesis by (auto simp: in_set_conv_nth)
  qed
  then obtain s where s: "s < length (lm_permits l)" "0 < lm_permits l ! s" by blast
  with permits_le [OF ok s(1)] waits_on_task [of s waiting] obtain r where "(r, s) \<in> set waiting" by auto
  with s(2) show ?thesis by (auto simp: lm_acquire_def)
qed

lemma exit_newest:
  assumes "lim_ok conf l inside waiting []" "lm_exit round l = Ok l'" "(r, s) \<in> set waiting" "lm_permits l ! s < waits_on s waiting []"
  shows "\<exists>(r', s')\<in>set waiting. r \<le> r' \<and> lm_permits l' ! s' = lm_permits l ! s' + 1"
proof -
  have ok: "sems_ok l waiting []" "bm_wf (lm_waiters l)" using assms(1) by (simp_all add: lim_ok_def)
  have ne: "lm_waiters l \<noteq> []"
    using sems_ok_free [OF ok(1) sems_ok_bound(1) [OF ok(1) assms(3)]] assms(4) by (auto simp: bm_get_def)
  from exit_hands_over [OF ok ne, of round] assms(2) obtain s' where s': "sems_ok l' waiting []" "s' < length (lm_permits l)"
      "lm_permits l' = (lm_permits l)[s' := lm_permits l ! s' + 1]" "\<forall>r. (r, s') \<in> set waiting \<longrightarrow> r = fst (last (lm_waiters l))"
    by auto
  have "0 < waits_on s' waiting []" using permits_le [OF s'(1), of s'] s'(2,3) by simp
  then obtain r' where r': "(r', s') \<in> set waiting" using waits_on_task by blast
  with s'(2-4) newest_entry [OF ok ne assms(3,4)] show ?thesis by (auto intro!: bexI [of _ "(r', s')"])
qed

lemma idle_limiter:
  assumes "lim_ok conf l [] [] []"
  shows "lm_waiters l = []" "lm_inflight_bypassed l = 0"
proof -
  have ok: "sems_ok l [] []" "bm_wf (lm_waiters l)" using assms by (simp_all add: lim_ok_def)
  show w: "lm_waiters l = []"
  proof (rule ccontr)
    assume "lm_waiters l \<noteq> []"
    from sems_okD(2,3) [OF ok(1) last_key(1) [OF ok(2) this]] show False by (simp add: waits_on_def)
  qed
  have "lm_permits l ! s = 0" if "s < length (lm_permits l)" for s
    using permits_le [OF ok(1) that] by (simp add: waits_on_def)
  then have "sum_list (lm_permits l) = 0" by (auto simp: in_set_conv_nth)
  with assms show "lm_inflight_bypassed l = 0" by (simp add: lim_ok_def)
qed

text \<open>
  C13. The limit on downloads holds and nobody is forgotten. In every state that a limiter can reach with its tasks, no more
  than one download above the configured number is inside, and the end of a download never panics. When no task was
  dropped while it waited: if tasks wait and none is inside, one of them has a permit; the end of a download gives a
  permit to a waiting task that is not of an older round than any task without a permit; and when
  all tasks are gone, all slots are free again.
\<close>
theorem limiter_serves_all:
  assumes "lim_life conf l inside waiting lost" "cc_download_tasks conf < u16_max"
  shows "length inside \<le> cc_download_tasks conf + 1 \<and> (\<forall>round\<in>set inside. \<exists>l'. lm_exit round l = Ok l')
    \<and> (lost = [] \<longrightarrow>
        (waiting \<noteq> [] \<and> inside = [] \<longrightarrow> (\<exists>(r, s)\<in>set waiting. lm_acquire s l \<noteq> None))
        \<and> (\<forall>round l'. lm_exit round l = Ok l' \<longrightarrow>
             (\<forall>(r, s)\<in>set waiting. lm_permits l ! s < length (filter (\<lambda>w. snd w = s) waiting) \<longrightarrow>
                (\<exists>(r', s')\<in>set waiting. r \<le> r' \<and> lm_permits l' ! s' = lm_permits l ! s' + 1)))
        \<and> (inside = [] \<and> waiting = [] \<longrightarrow> lm_waiters l = [] \<and> lm_inflight_bypassed l = 0))"
proof -
  have ok: "lim_ok conf l inside waiting lost" by (rule lim_life_ok [OF assms])
  then have "length inside \<le> cc_download_tasks conf + 1" by (simp add: lim_ok_def)
  moreover have "\<forall>round\<in>set inside. \<exists>l'. lm_exit round l = Ok l'" using exit_ok [OF ok] by blast
  moreover have "\<exists>(r', s')\<in>set waiting. r \<le> r' \<and> lm_permits l' ! s' = lm_permits l ! s' + 1"
    if "lost = []" "lm_exit round l = Ok l'" "(r, s) \<in> set waiting" "lm_permits l ! s < length (filter (\<lambda>w. snd w = s) waiting)" for round l' r s
    using exit_newest [of conf l inside waiting round l' r s] that ok by (simp add: waits_on_def)
  ultimately show ?thesis using ok someone_goes_on idle_limiter by (auto simp: split_beta)
qed


definition ex_few_tasks :: consensus_config where
  "ex_few_tasks = ex_consensus\<lparr>cc_download_tasks := 0\<rparr>"

text \<open>One download of round 5 is inside, one of round 6 and two of round 7 wait.\<close>

lemma ex_lim_life:
  "lim_life ex_few_tasks \<lparr>lm_inflight_bypassed = 1,
      lm_waiters = [(6, \<lparr>wt_semaphore = 0, wt_inflight = 1\<rparr>), (7, \<lparr>wt_semaphore = 1, wt_inflight = 2\<rparr>)], lm_permits = [0, 0]\<rparr>
     [5] [(7, 1), (7, 1), (6, 0)] []"
proof -
  have "lim_life ex_few_tasks \<lparr>lm_inflight_bypassed = 1, lm_waiters = [], lm_permits = []\<rparr> [5] [] []"
    by (rule lim_life.bypass [OF lim_life.start]) (simp add: lm_enter_def lm_default_def ex_few_tasks_def u16_max_def)
  then have "lim_life ex_few_tasks \<lparr>lm_inflight_bypassed = 1, lm_waiters = [(6, \<lparr>wt_semaphore = 0, wt_inflight = 1\<rparr>)], lm_permits = [0]\<rparr>
      [5] [(6, 0)] []"
    by (rule lim_life.wait) (simp add: lm_enter_def ex_few_tasks_def bm_get_def)
  then have "lim_life ex_few_tasks \<lparr>lm_inflight_bypassed = 1,
      lm_waiters = [(6, \<lparr>wt_semaphore = 0, wt_inflight = 1\<rparr>), (7, \<lparr>wt_semaphore = 1, wt_inflight = 1\<rparr>)], lm_permits = [0, 0]\<rparr>
     [5] [(7, 1), (6, 0)] []"
    by (rule lim_life.wait) (simp add: lm_enter_def ex_few_tasks_def bm_get_def)
  then show ?thesis
    by (rule lim_life.wait) (simp add: lm_enter_def ex_few_tasks_def bm_get_def)
qed

theorem limiter_serves_all_witness:
  "\<exists>l l'. lim_life ex_few_tasks l [5] [(7, 1), (7, 1), (6, 0)] [] \<and> lm_exit 5 l = Ok l'
    \<and> (\<exists>(r', s')\<in>{(7 :: round, 1), (6, 0)}. 7 \<le> r' \<and> lm_permits l' ! s' = lm_permits l ! s' + 1)"
proof -
  let ?l = "\<lparr>lm_inflight_bypassed = 1,
      lm_waiters = [(6, \<lparr>wt_semaphore = 0, wt_inflight = 1\<rparr>), (7, \<lparr>wt_semaphore = 1, wt_inflight = 2\<rparr>)], lm_permits = [0, 0]\<rparr>"
  have few: "cc_download_tasks ex_few_tasks < u16_max" by (simp add: ex_few_tasks_def u16_max_def)
  note p = limiter_serves_all [OF ex_lim_life few]
  from p obtain l' where l': "lm_exit 5 ?l = Ok l'" by auto
  with p have "\<exists>(r', s')\<in>set [(7 :: round, 1), (7, 1), (6, 0)]. 7 \<le> r' \<and> lm_permits l' ! s' = lm_permits ?l ! s' + 1" by simp
  with ex_lim_life l' show ?thesis by fastforce
qed

section \<open>Tasks dropped while they wait\<close>

lemma counts_sum: "\<forall>s\<in>set lost. s < (n :: nat) \<Longrightarrow> (\<Sum>s<n. length (filter (\<lambda>x. x = s) lost)) = length lost"
proof (induction lost)
  case (Cons x lost)
  have "(\<Sum>s<n. length (filter (\<lambda>y. y = s) (x # lost))) = (\<Sum>s<n. (if x = s then 1 else 0) + length (filter (\<lambda>y. y = s) lost))"
    by (rule sum.cong) auto
  also have "\<dots> = (\<Sum>s<n. if x = s then 1 else 0) + length lost" using Cons by (simp add: sum.distrib)
  also have "(\<Sum>s<n. if x = s then 1 else 0) = (1 :: nat)" using Cons.prems by (subst sum.delta') auto
  finally show ?case by simp
qed simp

lemma lost_slots:
  assumes "lim_ok conf l [] [] lost" "lm_waiters l = []"
  shows "lm_inflight_bypassed l = length lost"
proof -
  have ok: "sems_ok l [] lost" using assms(1) by (simp add: lim_ok_def)
  have "lm_permits l ! s = length (filter (\<lambda>x. x = s) lost)" if "s < length (lm_permits l)" for s
    using sems_ok_free [OF ok that] assms(2) by (simp add: bm_get_def waits_on_def)
  then have "sum_list (lm_permits l) = (\<Sum>s<length (lm_permits l). length (filter (\<lambda>x. x = s) lost))"
    by (simp add: sum_list_sum_nth atLeast0LessThan)
  also have "\<dots> = length lost" by (rule counts_sum) (use sems_ok_bound(2) [OF ok] in blast)
  finally show ?thesis using assms(1) by (simp add: lim_ok_def)
qed

text \<open>
  C35. A task dropped while it waits takes a slot with it: when no download is inside, none waits and no
  entry is left, the limiter still counts as many slots as tasks were dropped. When they are as many as there
  are slots, every later download waits, though nobody is inside who could ever let it in.
\<close>
theorem dropped_tasks_block:
  assumes "lim_life conf l [] [] lost" "cc_download_tasks conf < u16_max" "lm_waiters l = []"
  shows "lm_inflight_bypassed l = length lost
    \<and> (length lost = cc_download_tasks conf + 1 \<longrightarrow>
        (\<forall>round. \<exists>s l'. lm_enter round conf l = (Some s, l') \<and> lim_life conf l' [] [(round, s)] lost \<and> lm_acquire s l' = None))"
proof -
  have n: "lm_inflight_bypassed l = length lost" by (rule lost_slots [OF lim_life_ok [OF assms(1,2)] assms(3)])
  have "\<exists>s l'. lm_enter round conf l = (Some s, l') \<and> lim_life conf l' [] [(round, s)] lost \<and> lm_acquire s l' = None"
    if "length lost = cc_download_tasks conf + 1" for round
  proof -
    have "\<not> lm_inflight_bypassed l \<le> cc_download_tasks conf" using n that by simp
    then obtain l' where e: "lm_enter round conf l = (Some (length (lm_permits l)), l')" "lm_permits l' = lm_permits l @ [0]"
      using assms(3) by (simp add: lm_enter_def bm_get_def)
    from lim_life.wait [OF assms(1) e(1)] e show ?thesis by (auto simp: lm_acquire_def)
  qed
  with n show ?thesis by blast
qed

theorem dropped_tasks_block_witness:
  "\<exists>l. lim_life ex_few_tasks l [] [] [0] \<and> lm_waiters l = [] \<and>
    (\<exists>s l'. lm_enter 9 ex_few_tasks l = (Some s, l') \<and> lim_life ex_few_tasks l' [] [(9, s)] [0] \<and> lm_acquire s l' = None)"
proof -
  have few: "cc_download_tasks ex_few_tasks < u16_max" "cc_download_tasks ex_few_tasks = 0" by (simp_all add: ex_few_tasks_def u16_max_def)
  have "lim_life ex_few_tasks \<lparr>lm_inflight_bypassed = 1, lm_waiters = [], lm_permits = []\<rparr> [5] [] []"
    by (rule lim_life.bypass [OF lim_life.start]) (simp add: lm_enter_def lm_default_def few u16_max_def)
  then have "lim_life ex_few_tasks \<lparr>lm_inflight_bypassed = 1, lm_waiters = [(6, \<lparr>wt_semaphore = 0, wt_inflight = 1\<rparr>)], lm_permits = [0]\<rparr>
      [5] [(6, 0)] []"
    by (rule lim_life.wait) (simp add: lm_enter_def few bm_get_def)
  from lim_life.dropped [OF this, of 6 0]
  have "lim_life ex_few_tasks \<lparr>lm_inflight_bypassed = 1, lm_waiters = [(6, \<lparr>wt_semaphore = 0, wt_inflight = 1\<rparr>)], lm_permits = [0]\<rparr>
      [5] [] [0]" by simp
  from lim_life.exit [OF this, of 5 "\<lparr>lm_inflight_bypassed = 1, lm_waiters = [], lm_permits = [1]\<rparr>"]
  have life: "lim_life ex_few_tasks \<lparr>lm_inflight_bypassed = 1, lm_waiters = [], lm_permits = [1]\<rparr> [] [] [0]"
    by (simp add: lm_exit_def checked_sub_def bm_remove_def)
  with dropped_tasks_block [OF life few(1)] few(2) show ?thesis by auto
qed

end
