(* ===== verification/Spec2Isabelle.thy ===== *)
theory Spec2Isabelle
  imports Producer Anchor_Stream Download_Limiter
begin

text \<open>
  The mempool of tycho: a verification of the consensus crate and of its collator side.

  Validators exchange points. A point belongs to an author and a round, refers to a majority of points of
  the round before, and thereby all points form a DAG. Every four rounds a leader is drawn; its
  point becomes an anchor once later points prove and trigger it. Each node commits the history of every
  anchor in an order that all nodes share, and the collator turns that order into a stream
  of unique external messages.

  \<^bold>\<open>Parts and theories.\<close> Paths are relative to \<^verbatim>\<open>src/consensus/src\<close> unless they begin with a crate.

  \<^item> \<open>Tycho_Prelude\<close>: the outcome of a Rust call (a value, an error or a panic) with its sequencing, machine
    bounds, sorted maps, lemma collections shared by all.
  \<^item> \<open>Point_Model\<close>: \<^verbatim>\<open>models/point\<close>, \<^verbatim>\<open>models/peer_count.rs\<close>. Rounds, times, counts of validators, point bodies
    and headers, links to anchors, structural checks, production and integrity check of a point.
  \<^item> \<open>Mempool_Config\<close>: \<^verbatim>\<open>engine/mempool_config.rs\<close>, \<^verbatim>\<open>engine/consensus_config_ext.rs\<close>. Configuration, genesis,
    the arithmetic of retained rounds.
  \<^item> \<open>Point_Status\<close>: \<^verbatim>\<open>models/point_status.rs\<close>, \<^verbatim>\<open>storage/src/store/mempool/point_status.rs\<close>. Statuses of stored
    points, their bytes and the merge of database operands.
  \<^item> \<open>Peer_Schedule\<close>: \<^verbatim>\<open>intercom/peer_schedule\<close>. The table of epochs under a lock and its lock-free snapshot.
  \<^item> \<open>Anchor_Stage\<close>: \<^verbatim>\<open>dag/anchor_stage.rs\<close>. Waves and leaders.
  \<^item> \<open>Cert_Graph\<close>: \<^verbatim>\<open>models/cert.rs\<close>. Certificates and their traversal.
  \<^item> \<open>Dag_Location\<close>: \<^verbatim>\<open>dag/dag_location.rs\<close>, \<^verbatim>\<open>models/dag_point.rs\<close>. The versions of one author's point at a
    round, of which at most one is signed.
  \<^item> \<open>Dag_Threshold\<close>: \<^verbatim>\<open>dag/threshold.rs\<close>. The packed counter that tells when a round has enough points.
  \<^item> \<open>Dag_Round\<close>: \<^verbatim>\<open>dag/dag_round.rs\<close>, \<^verbatim>\<open>dag/head.rs\<close>, parts of \<^verbatim>\<open>dag/dag_point_future.rs\<close>. A round of the DAG.
  \<^item> \<open>Verifier\<close>: \<^verbatim>\<open>dag/verifier.rs\<close>. Verification of a point alone and validation against its dependencies.
  \<^item> \<open>Input_Buffer\<close>, \<open>Producer\<close>: \<^verbatim>\<open>engine/input_buffer.rs\<close>, \<^verbatim>\<open>dag/producer.rs\<close>. Messages that wait and the point
    made of them and of the DAG.
  \<^item> \<open>Dag_Commit\<close>, \<open>Commit_Order\<close>: \<^verbatim>\<open>dag/commit\<close>. The committer and what its commits promise.
  \<^item> \<open>Mempool_Store\<close>: \<^verbatim>\<open>effects/store.rs\<close>, \<^verbatim>\<open>storage/src/store/mempool/mod.rs\<close>. The tables of the mempool and
    the cleaner.
  \<^item> \<open>Deduplicator\<close>, \<open>State_Update_Queue\<close>, \<open>Mempool_Adapter\<close>: \<^verbatim>\<open>collator/src/mempool\<close>. Unique messages, state
    updates until they are signed, the cache of anchors and the start of the engine.
  \<^item> \<open>Committer_Task\<close>, \<open>Dag_Front\<close>: \<^verbatim>\<open>engine/committer_task.rs\<close>, \<^verbatim>\<open>dag/front.rs\<close>. How the engine grows the DAG,
    hands rounds to the committer and gives up history.
  \<^item> \<open>Anchor_Stream\<close>: how the parts above compose, from the committer's queue to the collator that asks for anchors.
  \<^item> \<open>Download_Limiter\<close>: \<^verbatim>\<open>intercom/dependency/limiter.rs\<close>. The slots of concurrent downloads.

  \<^bold>\<open>State and operations.\<close> A structure of the code is a record of the same fields, an enumeration a
  datatype, an operation a function of the same name with the prefix of its structure (\<open>ib_push\<close> for
  \<^verbatim>\<open>InputBufferInner::push\<close>), from the old state to an outcome with the new one. Assertions, \<^verbatim>\<open>expect\<close> and
  \<^verbatim>\<open>unreachable\<close> are panics of the model. Rounds and times are natural numbers with the saturation or
  the overflow check of the code written out; the packed counter of \<open>Dag_Threshold\<close>, digests and peer ids are
  words. Shared futures are values that are not ready, cancelled or ready.

  \<^bold>\<open>Parameters.\<close> Hash and signature functions, the random generator of leaders and of the order of points, the
  generated serialization and the decoding of message cells are arguments of the definitions that use
  them; what a theorem needs of them is among its hypotheses.

  \<^bold>\<open>What is shown.\<close> Invariants of reachable states by rule induction over \<open>loc_life\<close>, \<open>th_life\<close>, \<open>sched_reach\<close>,
  \<open>ib_life\<close>, \<open>dd_life\<close>, \<open>cm_run\<close>, \<open>dag_life\<close> and \<open>lim_life\<close>; agreement of nodes on histories and on messages; that what
  a node produces passes the checks of others; that committed anchors reach the collator in order; that assertions cannot fail; round trips of stored
  bytes; and places where the code differs from its comments. Interfaces are the locales \<open>ordered_map\<close> (sorted
  maps), \<open>epoch_table\<close> (interpreted for three tables of the schedule) and \<open>payload_source\<close> (the input buffer as the
  producer sees it).

  \<^bold>\<open>Termination.\<close> All functions are total without fuel. The traversal of certificates decreases the number of
  uncertified ones, the commit loop its queue, and the dropping loop counts its attempts
  as in the code; the guard that bounds it is proved unreachable.

  \<^bold>\<open>Not modelled.\<close> Tasks, channels and locks: operations are atomic and their interleaving is the order of
  steps. Peer discovery, overlay, broadcast, download and QUIC transport, which are input and output
  around the handlers above. Block collation, the validator, block storage and the RPC are built on the
  block library and the executor, which are not part of the repository. Metrics and logging.
\<close>

section \<open>From the DAG to the collator\<close>

text \<open>
  C4. Anchors reach the collator in order. Whenever the committer task of a running node ends, its outputs, passed
  through the anchor handler, leave the committed anchors in the cache: those of the first executable round on
  after a gap, and all of them otherwise. A collator that asks for the anchor after each of them gets exactly the next
  one, with no error and none missing, and waits after the last. The committer is left in
  a state of a running node.
\<close>
theorem anchors_reach_collator:
  assumes "dag_life shuffle seed conf f c" "ct_update_task shuffle seed conf full c = Ok (Inr (outs, c'))"
    and "sh_run blake3 tl_lib lib t outs s = Ok s'"
    and "\<forall>e\<in>set (ca_anchors (sh_cache s)). \<forall>a\<in>set (anchors_of outs). fst e < anchor_round a"
  shows "dag_life shuffle seed conf f c'
    \<and> (\<exists>old new. ca_anchors (sh_cache s') = old @ new \<and> (old = [] \<or> old = ca_anchors (sh_cache s))
        \<and> list_all2 delivers (filter (executable s') (anchors_of outs)) new
        \<and> (\<forall>i < length new. ca_get_next_anchor (fst (new ! i)) (sh_cache s')
             = (if Suc i < length new then Returns (Ok (Some (snd (new ! Suc i)))) else Waits)))"
proof -
  from update_task_stream [OF assms(2,1)] obtain bottom committed where o: "outs = ct_outputs bottom committed"
      "\<forall>as. committed = Some as \<longrightarrow> linked as" "dag_life shuffle seed conf f c'" by blast
  from outputs_deliver [OF _ o(2), of blake3 tl_lib lib t bottom s s'] assms(3,4) o(1) obtain old new where n:
      "ca_anchors (sh_cache s') = old @ new" "old = [] \<or> old = ca_anchors (sh_cache s)"
      "list_all2 delivers (filter (executable s') (anchors_of outs)) new" by blast
  have l: "linked (filter (executable s') (anchors_of outs))"
    using o(2) linked_executable unfolding o(1) anchors_of_outputs by (auto split: option.splits)
  note d = delivered_nth [OF n(3) l]
  have "\<forall>e\<in>set old. \<forall>e'\<in>set new. fst e < fst e'"
  proof (intro ballI)
    fix e e' assume e: "e \<in> set old" "e' \<in> set new"
    then have "fst e' \<in> anchor_round ` set (anchors_of outs)" using d(1) by (metis (no_types) filter_is_subset image_mono image_set imageI subsetD)
    with e(1) n(2) assms(4) show "fst e < fst e'" by auto
  qed
  from walk [OF n(1) this d(2,3)] o(3) n show ?thesis by blast
qed

theorem anchors_reach_collator_witness:
  "\<exists>f a c' s' e. dag_life ex_shuffle (\<lambda>_. ()) ex_commit_conf f ex_committer
    \<and> ct_update_task ex_shuffle (\<lambda>_. ()) ex_commit_conf None ex_committer = Ok (Inr ([NextAnchor a], c'))
    \<and> sh_run ex_hash ex_tl (ex_cell_lib (\<lambda>x. x)) 3 [NextAnchor a] (sh_new 3 ca_default ex_stream_db 0) = Ok s'
    \<and> ca_anchors (sh_cache s') = [e] \<and> delivers a e \<and> ca_get_next_anchor 5 (sh_cache s') = Waits"
proof -
  obtain f where life: "dag_life ex_shuffle (\<lambda>_. ()) ex_commit_conf f ex_committer" using ex_stream_life by blast
  obtain a c' where a: "ct_update_task ex_shuffle (\<lambda>_. ()) ex_commit_conf None ex_committer = Ok (Inr ([NextAnchor a], c'))"
      "ad_history a = [ex_commit_point 1 4, ex_commit_point 2 4]" "ad_anchor a = ex_commit_point 1 5" using ex_update by blast
  obtain s' where s': "sh_run ex_hash ex_tl (ex_cell_lib (\<lambda>x. x)) 3 [NextAnchor a] (sh_new 3 ca_default ex_stream_db 0) = Ok s'"
      "sh_first_after_gap s' = None" using ex_stream_run [OF a(2,3)] by blast
  have o: "anchors_of [NextAnchor a] = [a]" "executable s' a" "anchor_round a = 5"
    using s'(2) a(3) by (simp_all add: anchors_of_def executable_def ex_commit_point_def)
  have "ca_anchors (sh_cache (sh_new 3 ca_default ex_stream_db 0 :: (byte list, unit) external_message shuttle)) = []"
    by (simp add: sh_new_def ca_default_def)
  with anchors_reach_collator [OF life a(1) s'(1)] o obtain e where e: "ca_anchors (sh_cache s') = [e]" "delivers a e"
      "ca_get_next_anchor (fst e) (sh_cache s') = Waits" by (auto simp: list_all2_Cons1)
  moreover have "fst e = 5" using e(2) o(3) by (simp add: delivers_def)
  ultimately show ?thesis using life a(1) s'(1) by metis
qed

end
